(* ===== verification/HS_Prelude.thy ===== *)
theory HS_Prelude
  imports Main "HOL-Library.Word"
begin

unbundle bit_operations_syntax

text \<open>
  Shared vocabulary of the development.

  Platform. The sources call the Win32 API without a guard (\<open>ioctlsocket\<close>, \<open>WSAStartup\<close>,
  \<open>odbc32.lib\<close>), so the model takes the 32-bit Windows data model: \<open>int\<close>, \<open>unsigned int\<close>,
  \<open>unsigned long\<close> and \<open>size_t\<close> have 32 bits, memory is little endian. Machine integers whose
  wrap-around matters are words.

  Faults. Where the C++ code has undefined behaviour (a null or indeterminate pointer, an access
  outside a block, a signed sum that overflows,
  a division by 0) or a failing \<open>assert\<close>, the model returns \<open>Inl\<close> of a \<open>fault\<close>.

  Memory. A pointer to an array is indeterminate (\<open>Wild\<close>), \<open>Null\<close>, or owns a block. Copies that
  touch no byte never fault.
\<close>

type_synonym byte = "8 word"
type_synonym u16 = "16 word"
type_synonym u32 = "32 word"
type_synonym size_t = "32 word"

datatype fault = NullDeref | WildDeref | OutOfBounds | AssertFailed | SignedOverflow | DivideByZero

type_synonym 'a res = "fault + 'a"

datatype 'a cptr = Wild | Null | Block 'a

named_theorems hs_wf \<open>well-formedness preservation\<close>
named_theorems hs_abs \<open>effect of the operations on the abstraction functions\<close>

subsection \<open>Results\<close>

definition bind_res :: "'a res \<Rightarrow> ('a \<Rightarrow> 'b res) \<Rightarrow> 'b res" where
  "bind_res m f = (case m of Inl e \<Rightarrow> Inl e | Inr x \<Rightarrow> f x)"

lemma bind_res_simps [simp]:
  "bind_res (Inl e) f = Inl e"
  "bind_res (Inr x) f = f x"
  by (simp_all add: bind_res_def)

lemma bind_res_Inr_conv: "bind_res m f = Inr y \<longleftrightarrow> (\<exists>x. m = Inr x \<and> f x = Inr y)"
  by (cases m) simp_all

subsection \<open>Blocks of memory\<close>

definition mem_read :: "'b list cptr \<Rightarrow> nat \<Rightarrow> nat \<Rightarrow> 'b list res" where
  "mem_read p off n =
     (if n = 0 then Inr []
      else case p of
        Wild \<Rightarrow> Inl WildDeref
      | Null \<Rightarrow> Inl NullDeref
      | Block bs \<Rightarrow> if off + n \<le> length bs then Inr (take n (drop off bs)) else Inl OutOfBounds)"

definition mem_write :: "'b list cptr \<Rightarrow> nat \<Rightarrow> 'b list \<Rightarrow> 'b list cptr res" where
  "mem_write p off xs =
     (if xs = [] then Inr p
      else case p of
        Wild \<Rightarrow> Inl WildDeref
      | Null \<Rightarrow> Inl NullDeref
      | Block bs \<Rightarrow>
          if off + length xs \<le> length bs
          then Inr (Block (take off bs @ xs @ drop (off + length xs) bs)) else Inl OutOfBounds)"

definition block_bytes :: "'b list cptr \<Rightarrow> 'b list" where
  "block_bytes p = (case p of Block bs \<Rightarrow> bs | _ \<Rightarrow> [])"

lemma block_bytes_simps [simp]:
  "block_bytes (Block bs) = bs" "block_bytes Null = []" "block_bytes Wild = []"
  by (simp_all add: block_bytes_def)

lemma mem_read_nil [simp]: "mem_read p off 0 = Inr []"
  by (simp add: mem_read_def)

lemma mem_write_nil [simp]: "mem_write p off [] = Inr p"
  by (simp add: mem_write_def)

lemma mem_read_ok:
  "off + n \<le> length (block_bytes p) \<Longrightarrow> mem_read p off n = Inr (take n (drop off (block_bytes p)))"
  by (cases p) (auto simp: mem_read_def)

lemma mem_read_InrD:
  "mem_read p off n = Inr xs \<Longrightarrow> length xs = n \<and> (n = 0 \<or> off + n \<le> length (block_bytes p))"
  by (cases p) (auto simp: mem_read_def split: if_splits)

lemma mem_write_Block:
  "off + length xs \<le> length bs \<Longrightarrow>
   mem_write (Block bs) off xs = Inr (Block (take off bs @ xs @ drop (off + length xs) bs))"
  by (simp add: mem_write_def)

lemma mem_write_fits:
  "off + length xs \<le> length (block_bytes p) \<Longrightarrow> \<exists>q. mem_write p off xs = Inr q"
  by (cases p) (auto simp: mem_write_def)

lemma mem_write_InrD:
  assumes "mem_write p off xs = Inr q"
  shows "length (block_bytes q) = length (block_bytes p)"
    and "take (off + length xs) (block_bytes q) = take off (block_bytes p) @ xs"
    and "q = Null \<longleftrightarrow> p = Null" and "q = Wild \<longleftrightarrow> p = Wild"
  using assms by (cases p; force simp: mem_write_def split: if_splits)+

subsection \<open>Arrays and signed integers\<close>

definition arr :: "'a list \<Rightarrow> nat \<Rightarrow> 'a res" where
  "arr xs i = (if i < length xs then Inr (xs ! i) else Inl OutOfBounds)"

definition arr_set :: "'a list \<Rightarrow> nat \<Rightarrow> 'a \<Rightarrow> 'a list res" where
  "arr_set xs i x = (if i < length xs then Inr (xs[i := x]) else Inl OutOfBounds)"

definition fits_int32 :: "int \<Rightarrow> bool" where
  "fits_int32 x \<longleftrightarrow> - (2 ^ 31) \<le> x \<and> x < 2 ^ 31"

lemma arr_in [simp]: "i < length xs \<Longrightarrow> arr xs i = Inr (xs ! i)"
  by (simp add: arr_def)

lemma arr_set_in [simp]: "i < length xs \<Longrightarrow> arr_set xs i x = Inr (xs[i := x])"
  by (simp add: arr_set_def)

subsection \<open>Lists\<close>

lemma drop_take_append:
  "m \<le> n \<Longrightarrow> n \<le> length bs \<Longrightarrow> drop m (take n bs @ xs) = drop m (take n bs) @ xs"
  by simp

lemma take_min_take: "take a (take b xs) = take (min a b) xs"
  by (rule take_take)

subsection \<open>Words\<close>

lemma unat_add_no_wrap: "unat a + unat b < 2 ^ LENGTH('a) \<Longrightarrow> unat (a + b) = unat a + unat b"
  for a b :: "'a::len word"
  by (simp add: unat_word_ariths)

lemma unat_sub_no_wrap: "b \<le> a \<Longrightarrow> unat (a - b) = unat a - unat b"
  for a b :: "'a::len word"
  by (rule unat_sub)

lemma unat_of_nat_small: "n < 2 ^ LENGTH('a) \<Longrightarrow> unat (of_nat n :: 'a::len word) = n"
  by (simp add: unat_of_nat)

lemma unat_lt_2p32: "unat (x :: 32 word) < 4294967296"
  using unsigned_less [of x] by simp

subsection \<open>32-bit values in memory, little endian\<close>

definition u32_bytes :: "u32 \<Rightarrow> byte list" where
  "u32_bytes x = [ucast x, ucast (drop_bit 8 x), ucast (drop_bit 16 x), ucast (drop_bit 24 x)]"

fun bytes_u32 :: "byte list \<Rightarrow> u32" where
  "bytes_u32 [a, b, c, d] =
     ucast a OR push_bit 8 (ucast b) OR push_bit 16 (ucast c) OR push_bit 24 (ucast d)"
| "bytes_u32 _ = 0"

lemma length_u32_bytes [simp]: "length (u32_bytes x) = 4"
  by (simp add: u32_bytes_def)

lemma bytes_u32_bytes [simp]: "bytes_u32 (u32_bytes x) = x"
proof (rule bit_word_eqI)
  fix n assume "n < LENGTH(32)"
  then consider "n < 8" | "8 \<le> n" "n < 16" | "16 \<le> n" "n < 24" | "24 \<le> n" "n < 32"
    by fastforce
  then show "bit (bytes_u32 (u32_bytes x)) n = bit x n"
    by cases (auto simp: u32_bytes_def bit_simps)
qed

lemma u32_bytes_bytes:
  assumes "length xs = 4"
  shows "u32_bytes (bytes_u32 xs) = xs"
proof -
  obtain a b c d where xs: "xs = [a, b, c, d]"
    using assms by (auto simp: numeral_eq_Suc length_Suc_conv)
  have "ucast (bytes_u32 [a, b, c, d]) = a" "ucast (drop_bit 8 (bytes_u32 [a, b, c, d])) = b"
    "ucast (drop_bit 16 (bytes_u32 [a, b, c, d])) = c"
    "ucast (drop_bit 24 (bytes_u32 [a, b, c, d])) = d"
    by (rule bit_word_eqI; auto simp: bit_simps dest: bit_imp_le_length)+
  then show ?thesis by (simp only: xs u32_bytes_def)
qed

end
