(* ===== verification/HS_Fifo.thy ===== *)
theory HS_Fifo
  imports HS_Prelude
begin

text \<open>
  The contract between a byte buffer of \<open>hs_buffer.h\<close> and the code that streams through it: bytes go
  in at one end, come out at the other, in order, none lost and none invented. It is stated once, as
  the locale \<open>byte_fifo\<close>, and \<open>HS_Buffer\<close> shows that both buffer classes satisfy it.
\<close>

datatype 'b fifo_op = Put "'b list" | Get nat

fun fifo_run ::
  "('q \<Rightarrow> 'b list \<Rightarrow> 'q option) \<Rightarrow> ('q \<Rightarrow> nat \<Rightarrow> ('b list \<times> 'q) option) \<Rightarrow>
   'q \<Rightarrow> 'b fifo_op list \<Rightarrow> ('b list \<times> 'q) option" where
  "fifo_run put get q [] = Some ([], q)"
| "fifo_run put get q (Put xs # ops) =
     (case put q xs of None \<Rightarrow> None | Some q' \<Rightarrow> fifo_run put get q' ops)"
| "fifo_run put get q (Get n # ops) =
     (case get q n of None \<Rightarrow> None
      | Some (xs, q') \<Rightarrow>
          (case fifo_run put get q' ops of None \<Rightarrow> None | Some (ys, q'') \<Rightarrow> Some (xs @ ys, q'')))"

fun fifo_puts :: "'b fifo_op list \<Rightarrow> 'b list" where
  "fifo_puts [] = []"
| "fifo_puts (Put xs # ops) = xs @ fifo_puts ops"
| "fifo_puts (Get n # ops) = fifo_puts ops"

locale byte_fifo =
  fixes inv :: "'q \<Rightarrow> bool" and content :: "'q \<Rightarrow> 'b list" and room :: "'q \<Rightarrow> nat"
    and put :: "'q \<Rightarrow> 'b list \<Rightarrow> 'q option"
    and get :: "'q \<Rightarrow> nat \<Rightarrow> ('b list \<times> 'q) option"
  assumes put_Some: "inv q \<Longrightarrow> put q xs = Some q' \<Longrightarrow> inv q' \<and> content q' = content q @ xs"
    and put_None: "inv q \<Longrightarrow> put q xs = None \<Longrightarrow> room q < length xs"
    and get_Some: "inv q \<Longrightarrow> get q n = Some (xs, q') \<Longrightarrow>
      inv q' \<and> content q = xs @ content q' \<and> length xs = n"
    and get_None: "inv q \<Longrightarrow> get q n = None \<Longrightarrow> length (content q) < n"
begin

lemma run_stream:
  "inv q \<Longrightarrow> fifo_run put get q ops = Some (out, q') \<Longrightarrow>
   inv q' \<and> content q @ fifo_puts ops = out @ content q'"
proof (induction ops arbitrary: q out q')
  case Nil
  then show ?case by simp
next
  case (Cons x ops)
  show ?case
  proof (cases x)
    case (Put xs)
    with Cons.prems obtain q1 where q1: "put q xs = Some q1" "fifo_run put get q1 ops = Some (out, q')"
      by (auto split: option.splits)
    from put_Some [OF Cons.prems(1) q1(1)] Cons.IH [OF _ q1(2)] Put show ?thesis by simp
  next
    case (Get n)
    with Cons.prems obtain xs q1 ys where q1: "get q n = Some (xs, q1)"
      "fifo_run put get q1 ops = Some (ys, q')" "out = xs @ ys"
      by (auto split: option.splits)
    from get_Some [OF Cons.prems(1) q1(1)] Cons.IH [OF _ q1(2)] Get q1(3) show ?thesis by simp
  qed
qed

text \<open>A transfer of a whole block that fits: what was put comes back unchanged.\<close>

lemma put_get:
  assumes "inv q" "content q = []" "length xs \<le> room q"
  shows "\<exists>q'. fifo_run put get q [Put xs, Get (length xs)] = Some (xs, q') \<and> content q' = []"
proof -
  obtain q1 where q1: "put q xs = Some q1"
    using put_None [OF assms(1), of xs] assms(3) by (cases "put q xs") auto
  have i1: "inv q1" "content q1 = xs" using put_Some [OF assms(1) q1] assms(2) by simp_all
  obtain ys q2 where q2: "get q1 (length xs) = Some (ys, q2)"
    using get_None [OF i1(1), of "length xs"] i1(2) by (cases "get q1 (length xs)") auto
  have "ys = xs \<and> content q2 = []" using get_Some [OF i1(1) q2] i1(2) by auto
  then show ?thesis using q1 q2 by simp
qed

end

end
