(* ===== verification/HS_Buffer.thy ===== *)
theory HS_Buffer
  imports HS_Fifo
begin

text \<open>
  \<open>hs_buffer.h\<close>: \<open>HSBuffer\<close> and its subclasses \<open>HSRecvBuffer\<close> and \<open>HSSendBuffer\<close>. The class
  hierarchy is a record and two record extensions, so that the methods of the base class apply to
  the subclasses. Every offset is a \<open>size_t\<close> of 32 bits, so each comparison and difference wraps
  as it does in the code. A method that touches memory returns a result that may be a fault. What a
  freshly allocated array holds is the argument \<open>junk\<close>.

  \<open>pending\<close> is the abstract state of a receive buffer (bytes received and not used),
  \<open>unsent\<close> that of a send buffer (bytes queued and not sent). Both buffers are shown to be
  instances of one interface, the locale \<open>byte_fifo\<close>.
\<close>

section \<open>The classes\<close>

record hs_buffer =
  buffer :: "byte list cptr"
  buf_length :: size_t
  in_offset :: size_t
  out_offset :: size_t

record hs_recv_buffer = hs_buffer +
  in_used_offset :: size_t
  used_out_reset :: bool

record hs_send_buffer = hs_buffer +
  sent_offset :: size_t
  sent_out_reset :: bool

subsection \<open>HSBuffer\<close>

definition new_chars :: "(nat \<Rightarrow> byte) \<Rightarrow> size_t \<Rightarrow> byte list cptr" where
  "new_chars junk len = Block (map junk [0..<unat len])"

definition delete_chars :: "byte list cptr \<Rightarrow> unit res" where
  "delete_chars p = (case p of Wild \<Rightarrow> Inl WildDeref | _ \<Rightarrow> Inr ())"

definition HSBuffer_new :: "(nat \<Rightarrow> byte) \<Rightarrow> size_t \<Rightarrow> hs_buffer" where
  "HSBuffer_new junk len =
     \<lparr>buffer = (if len \<noteq> 0 then new_chars junk len else Wild),
      buf_length = len, in_offset = 0, out_offset = 0\<rparr>"

definition SetLength ::
  "(nat \<Rightarrow> byte) \<Rightarrow> 'z hs_buffer_scheme \<Rightarrow> size_t \<Rightarrow> 'z hs_buffer_scheme res" where
  "SetLength junk b len =
     (if len \<noteq> 0 \<and> buf_length b \<noteq> 0 \<and> len \<noteq> buf_length b
      then bind_res (delete_chars (buffer b))
             (\<lambda>_. Inr (b\<lparr>buffer := new_chars junk len, buf_length := len\<rparr>))
      else Inr b)"

definition HSBuffer_Clear :: "'z hs_buffer_scheme \<Rightarrow> bool \<Rightarrow> 'z hs_buffer_scheme res" where
  "HSBuffer_Clear b clear_memory =
     (if clear_memory
      then (case buffer b of
              Wild \<Rightarrow> Inl WildDeref
            | _ \<Rightarrow> Inr (b\<lparr>buffer := Null, buf_length := 0, in_offset := 0, out_offset := 0\<rparr>))
      else Inr (b\<lparr>in_offset := 0, out_offset := 0\<rparr>))"

definition DataIn_copy ::
  "'z hs_buffer_scheme \<Rightarrow> byte list \<Rightarrow> size_t \<Rightarrow> (bool \<times> 'z hs_buffer_scheme) res" where
  "DataIn_copy b data data_len =
     (if in_offset b + data_len > buf_length b then Inr (False, b)
      else bind_res (mem_read (Block data) 0 (unat data_len)) (\<lambda>xs.
           bind_res (mem_write (buffer b) (unat (in_offset b)) xs) (\<lambda>p.
             Inr (True, b\<lparr>buffer := p, in_offset := in_offset b + data_len\<rparr>))))"

definition DataIn :: "'z hs_buffer_scheme \<Rightarrow> size_t \<Rightarrow> bool \<times> 'z hs_buffer_scheme" where
  "DataIn b data_len =
     (if in_offset b + data_len > buf_length b then (False, b)
      else (True, b\<lparr>in_offset := in_offset b + data_len\<rparr>))"

definition DataOut_copy ::
  "'z hs_buffer_scheme \<Rightarrow> size_t \<Rightarrow> (bool \<times> byte list \<times> 'z hs_buffer_scheme) res" where
  "DataOut_copy b out_data_len =
     (if in_offset b - out_offset b < out_data_len then Inr (False, [], b)
      else bind_res (mem_read (buffer b) (unat (out_offset b)) (unat out_data_len)) (\<lambda>xs.
             Inr (True, xs, b\<lparr>out_offset := out_offset b + out_data_len\<rparr>)))"

definition DataOut :: "'z hs_buffer_scheme \<Rightarrow> size_t \<Rightarrow> bool \<times> 'z hs_buffer_scheme" where
  "DataOut b out_data_len =
     (if in_offset b - out_offset b < out_data_len then (False, b)
      else (True, b\<lparr>out_offset := out_offset b + out_data_len\<rparr>))"

definition SetInOffset :: "'z hs_buffer_scheme \<Rightarrow> size_t \<Rightarrow> 'z hs_buffer_scheme" where
  "SetInOffset b offset = b\<lparr>in_offset := offset\<rparr>"

definition SetOutOffset :: "'z hs_buffer_scheme \<Rightarrow> size_t \<Rightarrow> 'z hs_buffer_scheme" where
  "SetOutOffset b offset = b\<lparr>out_offset := offset\<rparr>"

definition GetLeftInSize :: "'z hs_buffer_scheme \<Rightarrow> size_t" where
  "GetLeftInSize b = buf_length b - in_offset b"

definition GetLeftOutSize :: "'z hs_buffer_scheme \<Rightarrow> size_t" where
  "GetLeftOutSize b = buf_length b - out_offset b"

text \<open>\<open>GetInOffsetData\<close> and \<open>GetOutOffsetData\<close>: a pointer into the block is the block with an offset.\<close>

definition GetInOffsetData :: "'z hs_buffer_scheme \<Rightarrow> byte list cptr \<times> size_t" where
  "GetInOffsetData b = (buffer b, in_offset b)"

definition GetOutOffsetData :: "'z hs_buffer_scheme \<Rightarrow> byte list cptr \<times> size_t" where
  "GetOutOffsetData b = (buffer b, out_offset b)"

definition GetBuffer :: "'z hs_buffer_scheme \<Rightarrow> byte list cptr" where
  "GetBuffer b = buffer b"

definition GetLength :: "'z hs_buffer_scheme \<Rightarrow> size_t" where
  "GetLength b = buf_length b"

definition GetInOffset :: "'z hs_buffer_scheme \<Rightarrow> size_t" where
  "GetInOffset b = in_offset b"

definition GetOutOffset :: "'z hs_buffer_scheme \<Rightarrow> size_t" where
  "GetOutOffset b = out_offset b"

definition GetCanWriteBuffer :: "'z hs_buffer_scheme \<Rightarrow> byte list cptr \<times> size_t" where
  "GetCanWriteBuffer b = GetInOffsetData b"

definition GetCanWriteBufferLength :: "'z hs_buffer_scheme \<Rightarrow> size_t" where
  "GetCanWriteBufferLength b = GetLeftInSize b"

text \<open>The destructor. \<open>Clear\<close> resets the pointer, so that the destructor of a subclass and the one of the base class, which
  runs after it, delete the array once.\<close>

definition HSBuffer_delete :: "'z hs_buffer_scheme \<Rightarrow> unit res" where
  "HSBuffer_delete b = bind_res (HSBuffer_Clear b True) (\<lambda>b. Inr ())"

subsection \<open>HSRecvBuffer\<close>

definition HSRecvBuffer_new :: "(nat \<Rightarrow> byte) \<Rightarrow> size_t \<Rightarrow> hs_recv_buffer" where
  "HSRecvBuffer_new junk len =
     hs_buffer.extend (HSBuffer_new junk len) (hs_recv_buffer.fields 0 True)"

definition HSRecvBuffer_Clear :: "hs_recv_buffer \<Rightarrow> bool \<Rightarrow> hs_recv_buffer res" where
  "HSRecvBuffer_Clear b clear_memory =
     bind_res (HSBuffer_Clear b clear_memory)
       (\<lambda>b. Inr (b\<lparr>in_used_offset := 0, used_out_reset := True\<rparr>))"

definition HSRecvBuffer_delete :: "hs_recv_buffer \<Rightarrow> unit res" where
  "HSRecvBuffer_delete b = bind_res (HSRecvBuffer_Clear b True) HSBuffer_delete"

definition GetUsedSize :: "hs_recv_buffer \<Rightarrow> size_t" where
  "GetUsedSize b = in_used_offset b"

definition SetUsedOutReset :: "hs_recv_buffer \<Rightarrow> bool \<Rightarrow> hs_recv_buffer" where
  "SetUsedOutReset b reset = b\<lparr>used_out_reset := reset\<rparr>"

definition CanUse :: "hs_recv_buffer \<Rightarrow> size_t \<Rightarrow> bool" where
  "CanUse b len = (if in_offset b - in_used_offset b < len then False else True)"

definition DataUse :: "hs_recv_buffer \<Rightarrow> size_t \<Rightarrow> bool \<Rightarrow> bool \<times> hs_recv_buffer" where
  "DataUse b len check =
     (if check \<and> \<not> CanUse b len then (False, b)
      else let b = b\<lparr>in_used_offset := in_used_offset b + len\<rparr> in
           if in_used_offset b = in_offset b \<and> used_out_reset b
           then (True, b\<lparr>in_offset := 0, in_used_offset := 0\<rparr>)
           else (True, b))"

definition MoveUnuseData2Begin :: "hs_recv_buffer \<Rightarrow> hs_recv_buffer res" where
  "MoveUnuseData2Begin b =
     (if in_used_offset b < in_offset b
      then bind_res (mem_read (buffer b) (unat (in_used_offset b))
                       (unat (in_offset b - in_used_offset b))) (\<lambda>xs.
           bind_res (mem_write (buffer b) 0 xs) (\<lambda>p.
           let new_offset = in_offset b - in_used_offset b in
             Inr (b\<lparr>buffer := p, in_used_offset := 0, in_offset := new_offset\<rparr>)))
      else Inr b)"

definition GetCanUseBuffer :: "hs_recv_buffer \<Rightarrow> byte list cptr \<times> size_t" where
  "GetCanUseBuffer b = (buffer b, in_used_offset b)"

definition GetCanUseSize :: "hs_recv_buffer \<Rightarrow> size_t" where
  "GetCanUseSize b = in_offset b - in_used_offset b"

subsection \<open>HSSendBuffer\<close>

definition HSSendBuffer_new :: "(nat \<Rightarrow> byte) \<Rightarrow> size_t \<Rightarrow> hs_send_buffer" where
  "HSSendBuffer_new junk buffer_size =
     hs_buffer.extend (HSBuffer_new junk buffer_size) (hs_send_buffer.fields 0 True)"

definition HSSendBuffer_Clear :: "hs_send_buffer \<Rightarrow> bool \<Rightarrow> hs_send_buffer res" where
  "HSSendBuffer_Clear b clear_memory =
     bind_res (HSBuffer_Clear b clear_memory)
       (\<lambda>b. Inr (b\<lparr>sent_offset := 0, sent_out_reset := True\<rparr>))"

definition HSSendBuffer_delete :: "hs_send_buffer \<Rightarrow> unit res" where
  "HSSendBuffer_delete b = bind_res (HSSendBuffer_Clear b True) HSBuffer_delete"

definition SetSentOutReset :: "hs_send_buffer \<Rightarrow> bool \<Rightarrow> hs_send_buffer" where
  "SetSentOutReset b reset = b\<lparr>sent_out_reset := reset\<rparr>"

definition GetSentSize :: "hs_send_buffer \<Rightarrow> size_t" where
  "GetSentSize b = sent_offset b"

definition GetCanSendBuffer :: "hs_send_buffer \<Rightarrow> byte list cptr \<times> size_t" where
  "GetCanSendBuffer b = (buffer b, sent_offset b)"

definition GetCanSendSize :: "hs_send_buffer \<Rightarrow> size_t res" where
  "GetCanSendSize b =
     (if in_offset b \<ge> sent_offset b then Inr (in_offset b - sent_offset b) else Inl AssertFailed)"

definition CanSend :: "hs_send_buffer \<Rightarrow> size_t \<Rightarrow> bool res" where
  "CanSend b len = bind_res (GetCanSendSize b) (\<lambda>n. Inr (if len > n then False else True))"

definition Sent :: "hs_send_buffer \<Rightarrow> size_t \<Rightarrow> bool \<Rightarrow> (bool \<times> hs_send_buffer) res" where
  "Sent b len check =
     bind_res (if check then CanSend b len else Inr True) (\<lambda>ok.
       if \<not> ok then Inr (False, b)
       else let b = b\<lparr>sent_offset := sent_offset b + len\<rparr> in
            if sent_out_reset b \<and> sent_offset b = in_offset b
            then Inr (True, b\<lparr>sent_offset := 0, in_offset := 0\<rparr>)
            else Inr (True, b))"

text \<open>Destruction deletes the array, once; a buffer of length 0 has an uninitialised pointer, and deletes that.\<close>

lemma delete_buffers:
  "buffer b \<noteq> Wild \<Longrightarrow> HSBuffer_delete b = Inr ()" "buffer r \<noteq> Wild \<Longrightarrow> HSRecvBuffer_delete r = Inr ()"
  "buffer w \<noteq> Wild \<Longrightarrow> HSSendBuffer_delete w = Inr ()"
  by (cases "buffer b"; cases "buffer r"; cases "buffer w";
    simp add: HSBuffer_delete_def HSRecvBuffer_delete_def HSSendBuffer_delete_def HSRecvBuffer_Clear_def
      HSSendBuffer_Clear_def HSBuffer_Clear_def)+

lemma delete_empty_buffers:
  "HSBuffer_delete (HSBuffer_new junk 0) = Inl WildDeref" "HSRecvBuffer_delete (HSRecvBuffer_new junk 0) = Inl WildDeref"
  "HSSendBuffer_delete (HSSendBuffer_new junk 0) = Inl WildDeref"
  by (simp_all add: HSBuffer_delete_def HSRecvBuffer_delete_def HSSendBuffer_delete_def HSRecvBuffer_Clear_def
      HSSendBuffer_Clear_def HSBuffer_Clear_def HSBuffer_new_def HSRecvBuffer_new_def HSSendBuffer_new_def
      hs_buffer.defs hs_recv_buffer.defs hs_send_buffer.defs)

section \<open>Well-formedness and abstraction\<close>

definition wf_buffer :: "'z hs_buffer_scheme \<Rightarrow> bool" where
  "wf_buffer b \<longleftrightarrow> buffer b \<noteq> Wild \<and> length (block_bytes (buffer b)) = unat (buf_length b) \<and>
     in_offset b \<le> buf_length b"

definition wf_recv :: "hs_recv_buffer \<Rightarrow> bool" where
  "wf_recv b \<longleftrightarrow> wf_buffer b \<and> in_used_offset b \<le> in_offset b"

definition wf_send :: "hs_send_buffer \<Rightarrow> bool" where
  "wf_send b \<longleftrightarrow> wf_buffer b \<and> sent_offset b \<le> in_offset b"

definition filled :: "'z hs_buffer_scheme \<Rightarrow> byte list" where
  "filled b = take (unat (in_offset b)) (block_bytes (buffer b))"

definition pending :: "hs_recv_buffer \<Rightarrow> byte list" where
  "pending b = drop (unat (in_used_offset b)) (filled b)"

definition unsent :: "hs_send_buffer \<Rightarrow> byte list" where
  "unsent b = drop (unat (sent_offset b)) (filled b)"

lemma length_filled: "wf_buffer b \<Longrightarrow> length (filled b) = unat (in_offset b)"
  by (simp add: wf_buffer_def filled_def word_le_nat_alt)

lemma length_pending: "wf_recv b \<Longrightarrow> length (pending b) = unat (GetCanUseSize b)"
  by (simp add: wf_recv_def pending_def length_filled GetCanUseSize_def unat_sub)

lemma length_unsent: "wf_send b \<Longrightarrow> length (unsent b) = unat (in_offset b - sent_offset b)"
  by (simp add: wf_send_def unsent_def length_filled unat_sub)

lemma mem_read_filled:
  assumes "k + n \<le> length (filled b)"
  shows "mem_read (buffer b) k n = Inr (take n (drop k (filled b)))"
proof -
  have "k + n \<le> length (block_bytes (buffer b))" and "n \<le> unat (in_offset b) - k"
    using assms by (auto simp: filled_def)
  then show ?thesis by (simp add: mem_read_ok filled_def drop_take min_absorb1)
qed

lemma wf_recvD: "wf_recv b \<Longrightarrow> wf_buffer b"
  by (simp add: wf_recv_def)

lemma wf_sendD: "wf_send b \<Longrightarrow> wf_buffer b"
  by (simp add: wf_send_def)

lemma unat_GetLeftInSize:
  "wf_buffer b \<Longrightarrow> unat (GetLeftInSize b) = unat (buf_length b) - unat (in_offset b)"
  by (simp add: GetLeftInSize_def wf_buffer_def unat_sub)

lemma wf_buffer_in_le: "wf_buffer b \<Longrightarrow> unat (in_offset b) \<le> unat (buf_length b)"
  by (simp add: wf_buffer_def word_le_nat_alt)

subsection \<open>Construction and clearing\<close>

lemma wf_HSRecvBuffer_new [hs_wf]: "len \<noteq> 0 \<Longrightarrow> wf_recv (HSRecvBuffer_new junk len)"
  by (simp add: HSRecvBuffer_new_def HSBuffer_new_def new_chars_def wf_recv_def wf_buffer_def
      hs_buffer.defs hs_recv_buffer.defs)

lemma wf_HSSendBuffer_new [hs_wf]: "len \<noteq> 0 \<Longrightarrow> wf_send (HSSendBuffer_new junk len)"
  by (simp add: HSSendBuffer_new_def HSBuffer_new_def new_chars_def wf_send_def wf_buffer_def
      hs_buffer.defs hs_send_buffer.defs)

lemma new_abs [hs_abs]:
  "pending (HSRecvBuffer_new junk len) = []" "unsent (HSSendBuffer_new junk len) = []"
  by (simp_all add: HSRecvBuffer_new_def HSSendBuffer_new_def HSBuffer_new_def pending_def
      unsent_def filled_def hs_buffer.defs hs_recv_buffer.defs hs_send_buffer.defs)

lemma HSRecvBuffer_Clear_keep:
  "HSRecvBuffer_Clear b False =
     Inr (b\<lparr>in_offset := 0, out_offset := 0, in_used_offset := 0, used_out_reset := True\<rparr>)"
  by (simp add: HSRecvBuffer_Clear_def HSBuffer_Clear_def)

lemma HSSendBuffer_Clear_keep:
  "HSSendBuffer_Clear b False =
     Inr (b\<lparr>in_offset := 0, out_offset := 0, sent_offset := 0, sent_out_reset := True\<rparr>)"
  by (simp add: HSSendBuffer_Clear_def HSBuffer_Clear_def)

lemma wf_recv_clear: "wf_recv b \<Longrightarrow> HSRecvBuffer_Clear b False = Inr b' \<Longrightarrow>
    wf_recv b' \<and> pending b' = [] \<and> buf_length b' = buf_length b"
  by (auto simp: HSRecvBuffer_Clear_keep wf_recv_def wf_buffer_def pending_def filled_def)

lemma wf_send_clear: "wf_send b \<Longrightarrow> HSSendBuffer_Clear b False = Inr b' \<Longrightarrow>
    wf_send b' \<and> unsent b' = [] \<and> buf_length b' = buf_length b"
  by (auto simp: HSSendBuffer_Clear_keep wf_send_def wf_buffer_def unsent_def filled_def)

subsection \<open>Putting bytes in\<close>

text \<open>
  The guard of \<open>DataIn\<close> is exact as long as the sum does not wrap.
\<close>

lemma DataIn_guard:
  assumes "wf_buffer b" and "unat (in_offset b) + unat n < 2 ^ 32"
  shows "in_offset b + n > buf_length b \<longleftrightarrow>
    unat (in_offset b) + unat n > unat (buf_length b)"
  using assms by (simp add: word_less_nat_alt unat_add_no_wrap)

lemma DataIn_fits:
  assumes "wf_buffer b" and "unat (in_offset b) + unat n \<le> unat (buf_length b)"
  shows "DataIn b n = (True, b\<lparr>in_offset := in_offset b + n\<rparr>)"
    and "unat (in_offset b + n) = unat (in_offset b) + unat n"
    and "wf_buffer (b\<lparr>in_offset := in_offset b + n\<rparr>)"
proof -
  have lt: "unat (in_offset b) + unat n < 2 ^ 32"
    using assms(2) unat_lt_2p32 [of "buf_length b"] by simp
  show u: "unat (in_offset b + n) = unat (in_offset b) + unat n"
    using lt by (simp add: unat_add_no_wrap)
  show "DataIn b n = (True, b\<lparr>in_offset := in_offset b + n\<rparr>)"
    using assms lt by (auto simp: DataIn_def DataIn_guard)
  show "wf_buffer (b\<lparr>in_offset := in_offset b + n\<rparr>)"
    using assms by (simp add: wf_buffer_def word_le_nat_alt u)
qed

text \<open>
  Bytes reach the block either through \<open>memcpy\<close> or because the packet encoder or the kernel wrote
  them behind \<open>in_offset\<close>. Advancing the offset then appends them.
\<close>

lemma append_in_place:
  assumes wf: "wf_buffer b" and n: "unat n = length xs"
    and fits: "unat (in_offset b) + length xs \<le> unat (buf_length b)"
    and p: "length (block_bytes p) = length (block_bytes (buffer b))" "p \<noteq> Wild"
      "take (unat (in_offset b) + length xs) (block_bytes p) =
        take (unat (in_offset b)) (block_bytes (buffer b)) @ xs"
  shows "DataIn (b\<lparr>buffer := p\<rparr>) n = (True, b\<lparr>buffer := p, in_offset := in_offset b + n\<rparr>)"
    and "unat (in_offset b + n) = unat (in_offset b) + length xs"
    and "wf_buffer (b\<lparr>buffer := p, in_offset := in_offset b + n\<rparr>)"
    and "filled (b\<lparr>buffer := p, in_offset := in_offset b + n\<rparr>) = filled b @ xs"
proof -
  let ?b = "b\<lparr>buffer := p\<rparr>"
  have wf': "wf_buffer ?b" using wf p by (simp add: wf_buffer_def)
  have "unat (in_offset ?b) + unat n \<le> unat (buf_length ?b)" using fits n by simp
  note d = DataIn_fits [OF wf' this]
  show "DataIn ?b n = (True, b\<lparr>buffer := p, in_offset := in_offset b + n\<rparr>)"
    using d(1) by simp
  show "unat (in_offset b + n) = unat (in_offset b) + length xs" using d(2) n by simp
  then show "filled (b\<lparr>buffer := p, in_offset := in_offset b + n\<rparr>) = filled b @ xs"
    using p(3) by (simp add: filled_def)
  show "wf_buffer (b\<lparr>buffer := p, in_offset := in_offset b + n\<rparr>)" using d(3) by simp
qed

lemma DataIn_copy_fits:
  assumes wf: "wf_buffer b" and data: "length data = unat n"
    and fits: "unat (in_offset b) + unat n \<le> unat (buf_length b)"
  shows "\<exists>p. DataIn_copy b data n = Inr (True, b\<lparr>buffer := p, in_offset := in_offset b + n\<rparr>) \<and>
    wf_buffer (b\<lparr>buffer := p, in_offset := in_offset b + n\<rparr>) \<and>
    filled (b\<lparr>buffer := p, in_offset := in_offset b + n\<rparr>) = filled b @ data"
proof -
  obtain p where p: "mem_write (buffer b) (unat (in_offset b)) data = Inr p"
    using mem_write_fits [of "unat (in_offset b)" data "buffer b"] wf fits data
    by (auto simp: wf_buffer_def)
  note w = mem_write_InrD [OF p]
  have "p \<noteq> Wild" using w(4) wf by (simp add: wf_buffer_def)
  note a = append_in_place [OF wf data [symmetric] fits [folded data] w(1) this w(2)]
  have "\<not> in_offset b + n > buf_length b" using a(1) by (auto simp: DataIn_def split: if_splits)
  then have "DataIn_copy b data n = Inr (True, b\<lparr>buffer := p, in_offset := in_offset b + n\<rparr>)"
    using p data by (simp add: DataIn_copy_def mem_read_ok)
  then show ?thesis using a(3,4) by blast
qed

lemma recv_append:
  assumes wf: "wf_recv b" and "wf_buffer (b\<lparr>buffer := p, in_offset := i\<rparr>)"
    and "filled (b\<lparr>buffer := p, in_offset := i\<rparr>) = filled b @ xs"
    and "unat i = unat (in_offset b) + length xs"
  shows "wf_recv (b\<lparr>buffer := p, in_offset := i\<rparr>)"
    and "pending (b\<lparr>buffer := p, in_offset := i\<rparr>) = pending b @ xs"
  using assms by (auto simp: wf_recv_def pending_def length_filled word_le_nat_alt)

lemma send_append:
  assumes wf: "wf_send b" and "wf_buffer (b\<lparr>buffer := p, in_offset := i\<rparr>)"
    and "filled (b\<lparr>buffer := p, in_offset := i\<rparr>) = filled b @ xs"
    and "unat i = unat (in_offset b) + length xs"
  shows "wf_send (b\<lparr>buffer := p, in_offset := i\<rparr>)"
    and "unsent (b\<lparr>buffer := p, in_offset := i\<rparr>) = unsent b @ xs"
  using assms by (auto simp: wf_send_def unsent_def length_filled word_le_nat_alt)

text \<open>
  All branches of the copying \<open>DataIn\<close>: it appends, it refuses, or, when \<open>in_offset_ + data_len\<close>
  wraps, its guard lets the copy through and \<open>memcpy\<close> leaves the block.
\<close>

lemma DataIn_copy_wrap:
  assumes wf: "wf_buffer b" and data: "length data = unat n"
    and wrap: "2 ^ 32 \<le> unat (in_offset b) + unat n"
  shows "DataIn_copy b data n = Inl (if buffer b = Null then NullDeref else OutOfBounds)"
proof -
  have "unat (in_offset b + n) = unat (in_offset b) + unat n - 2 ^ 32"
    using wrap unat_lt_2p32 [of "in_offset b"] unat_lt_2p32 [of n]
    by (simp add: unat_word_ariths le_mod_geq)
  then have s: "unat (in_offset b + n) < unat (in_offset b)"
    using wrap unat_lt_2p32 [of n] by simp
  then have g: "\<not> in_offset b + n > buf_length b"
    using wf by (simp add: word_less_nat_alt wf_buffer_def word_le_nat_alt)
  have ne: "data \<noteq> []" using data wrap unat_lt_2p32 [of "in_offset b"] by auto
  have "length (block_bytes (buffer b)) < unat (in_offset b) + length data"
    using wf wrap unat_lt_2p32 [of "buf_length b"] data by (simp add: wf_buffer_def)
  then have "mem_write (buffer b) (unat (in_offset b)) data =
      Inl (if buffer b = Null then NullDeref else OutOfBounds)"
    using ne wf by (cases "buffer b") (auto simp: mem_write_def wf_buffer_def)
  moreover have "mem_read (Block data) 0 (unat n) = Inr data"
    using data by (simp add: mem_read_ok)
  ultimately show ?thesis using g by (simp add: DataIn_copy_def)
qed

lemma DataIn_copy_full:
  assumes wf: "wf_buffer b"
    and "unat (buf_length b) < unat (in_offset b) + unat n" "unat (in_offset b) + unat n < 2 ^ 32"
  shows "DataIn_copy b data n = Inr (False, b)"
  using assms by (simp add: DataIn_copy_def DataIn_guard)

subsection \<open>Using and sending bytes\<close>

lemma DataUse_result:
  assumes wf: "wf_recv b" and n: "unat n \<le> length (pending b)"
  shows "fst (DataUse b n check)" and "wf_recv (snd (DataUse b n check))"
    and "pending (snd (DataUse b n check)) = drop (unat n) (pending b)"
    and "buf_length (snd (DataUse b n check)) = buf_length b"
    and "buffer (snd (DataUse b n check)) = buffer b"
proof -
  have le: "in_used_offset b \<le> in_offset b" and wfb: "wf_buffer b"
    using wf by (simp_all add: wf_recv_def)
  have n': "unat n \<le> unat (in_offset b) - unat (in_used_offset b)"
    using n by (simp add: length_pending [OF wf] GetCanUseSize_def unat_sub [OF le])
  have can: "CanUse b n"
    using n' by (simp add: CanUse_def word_less_nat_alt unat_sub [OF le])
  have sum: "unat (in_used_offset b) + unat n \<le> unat (in_offset b)"
    using n' le by (simp add: word_le_nat_alt)
  have u: "unat (in_used_offset b + n) = unat (in_used_offset b) + unat n"
    using le_less_trans [OF sum unat_lt_2p32] by (simp add: unat_add_no_wrap)
  then have le': "in_used_offset b + n \<le> in_offset b" using sum by (simp add: word_le_nat_alt)
  have all: "drop (unat n) (pending b) = []" if "in_used_offset b + n = in_offset b"
    using that u by (simp add: pending_def length_filled [OF wfb] flip: that)
  show "fst (DataUse b n check)" using can by (simp add: DataUse_def Let_def)
  show "wf_recv (snd (DataUse b n check))"
    using can wfb le' by (auto simp: DataUse_def Let_def wf_recv_def wf_buffer_def)
  show "pending (snd (DataUse b n check)) = drop (unat n) (pending b)"
    using can all u by (auto simp: DataUse_def Let_def pending_def filled_def add.commute)
  show "buf_length (snd (DataUse b n check)) = buf_length b"
    "buffer (snd (DataUse b n check)) = buffer b"
    using can by (auto simp: DataUse_def Let_def)
qed

lemma DataUse_reset_flag [simp]: "used_out_reset (snd (DataUse b n c)) = used_out_reset b"
  by (simp add: DataUse_def Let_def)

lemma DataUse_drained:
  "used_out_reset b \<Longrightarrow> fst (DataUse b n c) \<Longrightarrow>
   in_offset (snd (DataUse b n c)) = in_used_offset (snd (DataUse b n c)) \<Longrightarrow>
   in_offset (snd (DataUse b n c)) = 0"
  by (auto simp: DataUse_def Let_def split: if_splits)

lemma DataUse_kept:
  "in_offset (snd (DataUse b n c)) \<noteq> in_used_offset (snd (DataUse b n c)) \<Longrightarrow>
   in_offset (snd (DataUse b n c)) = in_offset b"
  by (auto simp: DataUse_def Let_def split: if_splits)

lemma pending_Nil_iff:
  assumes "wf_recv b"
  shows "pending b = [] \<longleftrightarrow> in_offset b = in_used_offset b"
proof -
  have "pending b = [] \<longleftrightarrow> unat (in_offset b) \<le> unat (in_used_offset b)"
    using assms by (simp add: pending_def length_filled wf_recv_def)
  also have "\<dots> \<longleftrightarrow> in_offset b = in_used_offset b"
    using assms by (auto simp: wf_recv_def word_le_nat_alt word_unat_eq_iff)
  finally show ?thesis .
qed

lemma DataUse_too_much:
  assumes wf: "wf_recv b" and n: "length (pending b) < unat n"
  shows "DataUse b n True = (False, b)"
  using n by (simp add: DataUse_def CanUse_def word_less_nat_alt length_pending [OF wf]
      GetCanUseSize_def)

lemma MoveUnuseData2Begin_result:
  assumes wf: "wf_recv b"
  obtains b' where "MoveUnuseData2Begin b = Inr b'" "wf_recv b'" "pending b' = pending b"
    "buf_length b' = buf_length b"
    "in_used_offset b < in_offset b \<Longrightarrow> unat (in_offset b') = length (pending b)"
    "in_used_offset b = in_offset b \<Longrightarrow> b' = b"
proof (cases "in_used_offset b < in_offset b")
  case True
  have wfb: "wf_buffer b" using wf by (rule wf_recvD)
  let ?n = "in_offset b - in_used_offset b"
  have len: "length (pending b) = unat ?n"
    using length_pending [OF wf] by (simp add: GetCanUseSize_def)
  have le: "unat (in_used_offset b) + unat ?n = unat (in_offset b)"
    using True unat_sub_no_wrap [of "in_used_offset b" "in_offset b"]
    by (simp add: word_less_nat_alt word_le_nat_alt)
  have bound: "unat (in_offset b) \<le> length (block_bytes (buffer b))"
    using wfb by (simp add: wf_buffer_def word_le_nat_alt)
  have rd: "mem_read (buffer b) (unat (in_used_offset b)) (unat ?n) = Inr (pending b)"
    using le bound by (simp add: mem_read_ok pending_def filled_def take_drop add.commute)
  obtain p where p: "mem_write (buffer b) 0 (pending b) = Inr p"
    using mem_write_fits [of 0 "pending b" "buffer b"] bound le len by auto
  note w = mem_write_InrD [OF p]
  let ?b = "b\<lparr>buffer := p, in_used_offset := 0, in_offset := ?n\<rparr>"
  have "unat ?n \<le> unat (in_offset b)" using le by linarith
  then have "wf_recv ?b"
    using wfb w bound by (simp add: wf_recv_def wf_buffer_def word_le_nat_alt)
  moreover have "pending ?b = pending b" using w(2) len by (simp add: pending_def filled_def)
  moreover have "MoveUnuseData2Begin b = Inr ?b"
    using True rd p by (simp add: MoveUnuseData2Begin_def Let_def)
  ultimately show ?thesis using that [of ?b] len True by simp
next
  case False
  then have "MoveUnuseData2Begin b = Inr b" by (simp add: MoveUnuseData2Begin_def)
  then show ?thesis by (rule that) (simp_all add: wf False)
qed

lemma Sent_result:
  assumes wf: "wf_send b" and n: "unat n \<le> length (unsent b)"
  obtains b' where "Sent b n check = Inr (True, b')" "wf_send b'"
    "unsent b' = drop (unat n) (unsent b)" "buf_length b' = buf_length b" "buffer b' = buffer b"
proof -
  have le: "sent_offset b \<le> in_offset b" and wfb: "wf_buffer b"
    using wf by (simp_all add: wf_send_def)
  have n': "unat n \<le> unat (in_offset b) - unat (sent_offset b)"
    using n by (simp add: length_unsent [OF wf] unat_sub [OF le])
  have can: "CanSend b n = Inr True"
    using n' le by (simp add: CanSend_def GetCanSendSize_def word_less_nat_alt unat_sub [OF le])
  have sum: "unat (sent_offset b) + unat n \<le> unat (in_offset b)"
    using n' le by (simp add: word_le_nat_alt)
  have u: "unat (sent_offset b + n) = unat (sent_offset b) + unat n"
    using le_less_trans [OF sum unat_lt_2p32] by (simp add: unat_add_no_wrap)
  then have le': "sent_offset b + n \<le> in_offset b" using sum by (simp add: word_le_nat_alt)
  have all: "drop (unat n) (unsent b) = []" if "sent_offset b + n = in_offset b"
    using that u by (simp add: unsent_def length_filled [OF wfb] flip: that)
  let ?b = "if sent_out_reset b \<and> sent_offset b + n = in_offset b
    then b\<lparr>sent_offset := 0, in_offset := 0\<rparr> else b\<lparr>sent_offset := sent_offset b + n\<rparr>"
  have "Sent b n check = Inr (True, ?b)" using can by (simp add: Sent_def Let_def)
  moreover have "wf_send ?b" using wfb le' by (auto simp: wf_send_def wf_buffer_def)
  moreover have "unsent ?b = drop (unat n) (unsent b)"
    using all u by (auto simp: unsent_def filled_def add.commute)
  ultimately show ?thesis using that by simp
qed

lemma GetCanSendSize_wf: "wf_send b \<Longrightarrow> GetCanSendSize b = Inr (of_nat (length (unsent b)))"
  by (simp add: GetCanSendSize_def wf_send_def length_unsent)

section \<open>Both buffers implement the FIFO interface\<close>

text \<open>
  The receive buffer takes bytes through \<open>DataIn\<close> and gives them out through \<open>GetCanUseBuffer\<close>
  and the checked \<open>DataUse\<close>; the send buffer gives them out through \<open>GetCanSendBuffer\<close> and the
  checked \<open>Sent\<close>.
\<close>

definition buffer_put :: "'z hs_buffer_scheme \<Rightarrow> byte list \<Rightarrow> 'z hs_buffer_scheme option" where
  "buffer_put b xs =
     (if length xs < 2 ^ 32
      then (case DataIn_copy b xs (of_nat (length xs)) of Inr (True, b') \<Rightarrow> Some b' | _ \<Rightarrow> None)
      else None)"

definition recv_get :: "hs_recv_buffer \<Rightarrow> nat \<Rightarrow> (byte list \<times> hs_recv_buffer) option" where
  "recv_get b n =
     (if n < 2 ^ 32
      then (case (DataUse b (of_nat n) True, GetCanUseBuffer b) of
              ((True, b'), (p, off)) \<Rightarrow>
                (case mem_read p (unat off) n of Inr xs \<Rightarrow> Some (xs, b') | Inl _ \<Rightarrow> None)
            | _ \<Rightarrow> None)
      else None)"

definition send_get :: "hs_send_buffer \<Rightarrow> nat \<Rightarrow> (byte list \<times> hs_send_buffer) option" where
  "send_get b n =
     (if n < 2 ^ 32
      then (case (Sent b (of_nat n) True, GetCanSendBuffer b) of
              (Inr (True, b'), (p, off)) \<Rightarrow>
                (case mem_read p (unat off) n of Inr xs \<Rightarrow> Some (xs, b') | Inl _ \<Rightarrow> None)
            | _ \<Rightarrow> None)
      else None)"

lemma buffer_put_iff:
  assumes wf: "wf_buffer b"
  shows "buffer_put b xs =
    (if length xs \<le> unat (GetLeftInSize b)
     then (case DataIn_copy b xs (of_nat (length xs)) of Inr (True, b') \<Rightarrow> Some b' | _ \<Rightarrow> None)
     else None)"
proof (cases "length xs < 2 ^ 32")
  case True
  let ?n = "of_nat (length xs) :: size_t"
  have n: "length xs = unat ?n" using True by (simp add: unat_of_nat_small)
  have room: "length xs \<le> unat (GetLeftInSize b) \<longleftrightarrow>
      unat (in_offset b) + unat ?n \<le> unat (buf_length b)"
    using wf_buffer_in_le [OF wf] unat_GetLeftInSize [OF wf] n by linarith
  show ?thesis
  proof (cases "unat (in_offset b) + unat ?n \<le> unat (buf_length b)")
    case fits: True
    then show ?thesis using True room by (simp add: buffer_put_def)
  next
    case False
    then have "case DataIn_copy b xs ?n of Inr (True, b') \<Rightarrow> False | _ \<Rightarrow> True"
      using DataIn_copy_wrap [OF wf n] DataIn_copy_full [OF wf, of ?n xs] by fastforce
    then show ?thesis using False True room
      by (auto simp: buffer_put_def split: sum.splits prod.splits bool.splits)
  qed
next
  case False
  then show ?thesis using unat_lt_2p32 [of "GetLeftInSize b"] by (simp add: buffer_put_def)
qed

lemma buffer_put_fits:
  assumes wf: "wf_buffer b" and fits: "length xs \<le> unat (GetLeftInSize b)"
  obtains p n where "buffer_put b xs = Some (b\<lparr>buffer := p, in_offset := in_offset b + n\<rparr>)"
    "unat n = length xs" "unat (in_offset b + n) = unat (in_offset b) + unat n"
    "wf_buffer (b\<lparr>buffer := p, in_offset := in_offset b + n\<rparr>)"
    "filled (b\<lparr>buffer := p, in_offset := in_offset b + n\<rparr>) = filled b @ xs"
proof -
  let ?n = "of_nat (length xs) :: size_t"
  have n: "length xs = unat ?n"
    using le_less_trans [OF fits unat_lt_2p32] by (simp add: unat_of_nat_small)
  have fits': "unat (in_offset b) + unat ?n \<le> unat (buf_length b)"
    using fits n wf_buffer_in_le [OF wf] unat_GetLeftInSize [OF wf] by linarith
  from DataIn_copy_fits [OF wf n fits'] obtain p where
    p: "DataIn_copy b xs ?n = Inr (True, b\<lparr>buffer := p, in_offset := in_offset b + ?n\<rparr>)"
    "wf_buffer (b\<lparr>buffer := p, in_offset := in_offset b + ?n\<rparr>)"
    "filled (b\<lparr>buffer := p, in_offset := in_offset b + ?n\<rparr>) = filled b @ xs" by blast
  show ?thesis
    by (rule that [OF _ _ _ p(2,3)])
      (use p(1) fits n DataIn_fits(2) [OF wf fits'] in \<open>simp_all add: buffer_put_iff [OF wf]\<close>)
qed

lemma recv_put_result:
  assumes wf: "wf_recv b" and fits: "length xs \<le> unat (GetLeftInSize b)"
  shows "\<exists>b'. buffer_put b xs = Some b' \<and> wf_recv b' \<and> pending b' = pending b @ xs"
proof -
  from buffer_put_fits [OF wf_recvD [OF wf] fits] obtain p n where
    b': "buffer_put b xs = Some (b\<lparr>buffer := p, in_offset := in_offset b + n\<rparr>)"
    "wf_buffer (b\<lparr>buffer := p, in_offset := in_offset b + n\<rparr>)"
    "filled (b\<lparr>buffer := p, in_offset := in_offset b + n\<rparr>) = filled b @ xs"
    "unat (in_offset b + n) = unat (in_offset b) + length xs" by metis
  from recv_append [OF wf b'(2-4)] b'(1) show ?thesis by blast
qed

lemma send_put_result:
  assumes wf: "wf_send b" and fits: "length xs \<le> unat (GetLeftInSize b)"
  shows "\<exists>b'. buffer_put b xs = Some b' \<and> wf_send b' \<and> unsent b' = unsent b @ xs"
proof -
  from buffer_put_fits [OF wf_sendD [OF wf] fits] obtain p n where
    b': "buffer_put b xs = Some (b\<lparr>buffer := p, in_offset := in_offset b + n\<rparr>)"
    "wf_buffer (b\<lparr>buffer := p, in_offset := in_offset b + n\<rparr>)"
    "filled (b\<lparr>buffer := p, in_offset := in_offset b + n\<rparr>) = filled b @ xs"
    "unat (in_offset b + n) = unat (in_offset b) + length xs" by metis
  from send_append [OF wf b'(2-4)] b'(1) show ?thesis by blast
qed

lemma recv_get_result:
  assumes wf: "wf_recv b"
  shows "n \<le> length (pending b) \<Longrightarrow>
      \<exists>b'. recv_get b n = Some (take n (pending b), b') \<and> wf_recv b' \<and> pending b' = drop n (pending b)"
    and "length (pending b) < n \<Longrightarrow> recv_get b n = None"
proof -
  have len: "length (pending b) < 2 ^ 32"
    using length_pending [OF wf] unat_lt_2p32 [of "GetCanUseSize b"] by simp
  have bound: "unat (in_used_offset b) + length (pending b) = length (filled b)"
    using wf by (simp add: wf_recv_def length_filled pending_def word_le_nat_alt)
  { assume n: "n \<le> length (pending b)"
    then have u: "unat (of_nat n :: size_t) = n" using len by (simp add: unat_of_nat_small)
    have "mem_read (buffer b) (unat (in_used_offset b)) n = Inr (take n (pending b))"
      using bound n by (simp add: mem_read_filled flip: pending_def)
    moreover note DataUse_result [OF wf, of "of_nat n" True]
    ultimately show "\<exists>b'. recv_get b n = Some (take n (pending b), b') \<and> wf_recv b' \<and>
        pending b' = drop n (pending b)"
      using n u len by (cases "DataUse b (of_nat n) True")
        (auto simp: recv_get_def GetCanUseBuffer_def) }
  assume n: "length (pending b) < n"
  then show "recv_get b n = None"
    using DataUse_too_much [OF wf, of "of_nat n"]
    by (simp add: recv_get_def unat_of_nat_small)
qed

lemma send_get_result:
  assumes wf: "wf_send b"
  shows "n \<le> length (unsent b) \<Longrightarrow>
      \<exists>b'. send_get b n = Some (take n (unsent b), b') \<and> wf_send b' \<and> unsent b' = drop n (unsent b)"
    and "length (unsent b) < n \<Longrightarrow> send_get b n = None"
proof -
  have len: "length (unsent b) < 2 ^ 32"
    using length_unsent [OF wf] unat_lt_2p32 [of "in_offset b - sent_offset b"] by simp
  have bound: "unat (sent_offset b) + length (unsent b) = length (filled b)"
    using wf by (simp add: wf_send_def length_filled unsent_def word_le_nat_alt)
  { assume n: "n \<le> length (unsent b)"
    then have u: "unat (of_nat n :: size_t) = n" using len by (simp add: unat_of_nat_small)
    have "mem_read (buffer b) (unat (sent_offset b)) n = Inr (take n (unsent b))"
      using bound n by (simp add: mem_read_filled flip: unsent_def)
    moreover obtain b' where "Sent b (of_nat n) True = Inr (True, b')" "wf_send b'"
      "unsent b' = drop n (unsent b)"
      using Sent_result [OF wf, of "of_nat n" True] n u by auto
    ultimately show "\<exists>b'. send_get b n = Some (take n (unsent b), b') \<and> wf_send b' \<and>
        unsent b' = drop n (unsent b)"
      using n len by (simp add: send_get_def GetCanSendBuffer_def) }
  assume n: "length (unsent b) < n"
  show "send_get b n = None"
  proof (cases "n < 2 ^ 32")
    case True
    have "CanSend b (of_nat n) = Inr False"
      using n len True GetCanSendSize_wf [OF wf]
      by (simp add: CanSend_def word_less_nat_alt unat_of_nat_small)
    then show ?thesis by (simp add: send_get_def Sent_def)
  qed (simp add: send_get_def)
qed

interpretation recv_fifo: byte_fifo wf_recv pending "\<lambda>b. unat (GetLeftInSize b)" buffer_put recv_get
proof unfold_locales
  fix q :: hs_recv_buffer and xs ys :: "byte list" and q' n
  assume wf: "wf_recv q"
  show "buffer_put q xs = Some q' \<Longrightarrow> wf_recv q' \<and> pending q' = pending q @ xs"
    using recv_put_result [OF wf, of xs] buffer_put_iff [OF wf_recvD [OF wf], of xs]
    by (auto split: if_splits)
  show "buffer_put q xs = None \<Longrightarrow> unat (GetLeftInSize q) < length xs"
    using recv_put_result [OF wf, of xs] by fastforce
  show "recv_get q n = Some (ys, q') \<Longrightarrow>
      wf_recv q' \<and> pending q = ys @ pending q' \<and> length ys = n"
    using recv_get_result [OF wf, of n] by (cases "n \<le> length (pending q)") auto
  show "recv_get q n = None \<Longrightarrow> length (pending q) < n"
    using recv_get_result(1) [OF wf, of n] by fastforce
qed

interpretation send_fifo: byte_fifo wf_send unsent "\<lambda>b. unat (GetLeftInSize b)" buffer_put send_get
proof unfold_locales
  fix q :: hs_send_buffer and xs ys :: "byte list" and q' n
  assume wf: "wf_send q"
  show "buffer_put q xs = Some q' \<Longrightarrow> wf_send q' \<and> unsent q' = unsent q @ xs"
    using send_put_result [OF wf, of xs] buffer_put_iff [OF wf_sendD [OF wf], of xs]
    by (auto split: if_splits)
  show "buffer_put q xs = None \<Longrightarrow> unat (GetLeftInSize q) < length xs"
    using send_put_result [OF wf, of xs] by fastforce
  show "send_get q n = Some (ys, q') \<Longrightarrow>
      wf_send q' \<and> unsent q = ys @ unsent q' \<and> length ys = n"
    using send_get_result [OF wf, of n] by (cases "n \<le> length (unsent q)") auto
  show "send_get q n = None \<Longrightarrow> length (unsent q) < n"
    using send_get_result(1) [OF wf, of n] by fastforce
qed

section \<open>Properties of the buffers\<close>

text \<open>C19: the receive buffer is a FIFO. Whatever sequence of \<open>DataIn\<close> and of reads with \<open>GetCanUseBuffer\<close>
  and \<open>DataUse\<close> succeeds, the bytes read are the bytes that were waiting followed by those put in, in
  order, and what is left waits; the offsets stay consistent.\<close>

theorem recv_buffer_is_fifo:
  assumes "wf_recv b" and "fifo_run buffer_put recv_get b ops = Some (out, b')"
  shows "wf_recv b' \<and> pending b @ fifo_puts ops = out @ pending b'"
  by (rule recv_fifo.run_stream [OF assms])

text \<open>C20: the send buffer is a FIFO in the same sense, its bytes leaving with \<open>GetCanSendBuffer\<close> and
  \<open>Sent\<close>.\<close>

theorem send_buffer_is_fifo:
  assumes "wf_send b" and "fifo_run buffer_put send_get b ops = Some (out, b')"
  shows "wf_send b' \<and> unsent b @ fifo_puts ops = out @ unsent b'"
  by (rule send_fifo.run_stream [OF assms])

text \<open>C21: compaction. \<open>MoveUnuseData2Begin\<close> never faults, keeps the unused bytes and their order, and gives
  back all the room that used bytes took.\<close>

theorem MoveUnuseData2Begin_compacts:
  assumes "wf_recv b" and "pending b \<noteq> []"
  shows "\<exists>b'. MoveUnuseData2Begin b = Inr b' \<and> wf_recv b' \<and> pending b' = pending b \<and>
    in_used_offset b' = 0 \<and>
    unat (GetLeftInSize b') = unat (buf_length b) - length (pending b)"
proof -
  have lt: "in_used_offset b < in_offset b"
    using assms(2) pending_Nil_iff [OF assms(1)] assms(1) by (auto simp: wf_recv_def order_le_less)
  obtain b' where b': "MoveUnuseData2Begin b = Inr b'" "wf_recv b'" "pending b' = pending b"
    "buf_length b' = buf_length b" "unat (in_offset b') = length (pending b)"
    using MoveUnuseData2Begin_result [OF assms(1)] lt by metis
  moreover have "in_used_offset b' = 0"
    using b'(1) lt by (auto simp: MoveUnuseData2Begin_def bind_res_Inr_conv Let_def)
  ultimately show ?thesis using unat_GetLeftInSize [OF wf_recvD [OF b'(2)]] by simp
qed

text \<open>Wrap-around in \<open>DataIn\<close>. When the offset and the length add up to 2^32 or more, the sum wraps
  below the length of the block, the guard lets the copy through, and \<open>memcpy\<close> leaves the block.\<close>

theorem DataIn_wrap_overflows:
  assumes "wf_buffer b" and "buffer b = Block bs" and "length data = unat n"
    and "2 ^ 32 \<le> unat (in_offset b) + unat n"
  shows "DataIn_copy b data n = Inl OutOfBounds"
  using DataIn_copy_wrap [OF assms(1,3,4)] assms(2) by simp

text \<open>A buffer that was cleared with its memory never gets memory again. \<open>SetLength\<close> changes nothing
  while the length is 0, so every byte offered to the buffer is refused.\<close>

theorem cleared_buffer_stays_empty:
  assumes "wf_buffer b" and "buf_length b \<noteq> 0" and "0 < unat n"
  shows "\<exists>b'. HSBuffer_Clear b True = Inr b' \<and> SetLength junk b' len = Inr b' \<and>
    GetLeftInSize b' = 0 \<and> DataIn_copy b' data n = Inr (False, b')"
proof -
  have "HSBuffer_Clear b True = Inr (b\<lparr>buffer := Null, buf_length := 0, in_offset := 0, out_offset := 0\<rparr>)"
    using assms(1) by (cases "buffer b") (simp_all add: HSBuffer_Clear_def wf_buffer_def)
  moreover have "n \<noteq> 0" using assms(3) by auto
  ultimately show ?thesis
    by (simp add: SetLength_def GetLeftInSize_def DataIn_copy_def word_less_nat_alt unat_gt_0)
qed

section \<open>Witnesses\<close>

lemmas buffer_evals = HSRecvBuffer_new_def HSSendBuffer_new_def HSBuffer_new_def new_chars_def
  hs_buffer.defs hs_recv_buffer.defs hs_send_buffer.defs buffer_put_def recv_get_def send_get_def
  DataIn_copy_def DataIn_def DataUse_def CanUse_def GetCanUseBuffer_def GetCanUseSize_def
  Sent_def CanSend_def GetCanSendSize_def GetCanSendBuffer_def mem_read_def mem_write_def upt_rec

theorem recv_buffer_is_fifo_witness:
  "\<exists>b'. fifo_run buffer_put recv_get (HSRecvBuffer_new (\<lambda>_. 0) 4)
      [Put [1, 2, 3], Get 2, Put [4], Get 2] = Some ([1, 2, 3, 4], b') \<and> pending b' = []"
proof -
  have wf: "wf_recv (HSRecvBuffer_new (\<lambda>_. 0) 4)" by (rule wf_HSRecvBuffer_new) simp
  have "fifo_run buffer_put recv_get (HSRecvBuffer_new (\<lambda>_. 0) 4)
      [Put [1, 2, 3], Get 2, Put [4], Get 2] =
      Some ([1, 2, 3, 4], \<lparr>buffer = Block [1, 2, 3, 4], buf_length = 4, in_offset = 0, out_offset = 0,
        in_used_offset = 0, used_out_reset = True\<rparr>)"
    by (simp add: buffer_evals)
  from recv_buffer_is_fifo [OF wf this] this show ?thesis by (simp add: new_abs)
qed

theorem send_buffer_is_fifo_witness:
  "\<exists>b'. fifo_run buffer_put send_get (HSSendBuffer_new (\<lambda>_. 0) 4)
      [Put [1, 2, 3], Get 2, Put [4], Get 2] = Some ([1, 2, 3, 4], b') \<and> unsent b' = []"
proof -
  have wf: "wf_send (HSSendBuffer_new (\<lambda>_. 0) 4)" by (rule wf_HSSendBuffer_new) simp
  have "fifo_run buffer_put send_get (HSSendBuffer_new (\<lambda>_. 0) 4)
      [Put [1, 2, 3], Get 2, Put [4], Get 2] =
      Some ([1, 2, 3, 4], \<lparr>buffer = Block [1, 2, 3, 4], buf_length = 4, in_offset = 0, out_offset = 0,
        sent_offset = 0, sent_out_reset = True\<rparr>)"
    by (simp add: buffer_evals)
  from send_buffer_is_fifo [OF wf this] this show ?thesis by (simp add: new_abs)
qed

theorem MoveUnuseData2Begin_compacts_witness:
  "\<exists>b'. MoveUnuseData2Begin \<lparr>buffer = Block [1, 2, 3, 4], buf_length = 4, in_offset = 3, out_offset = 0,
      in_used_offset = 1, used_out_reset = True\<rparr> = Inr b' \<and> pending b' = [2, 3] \<and>
      unat (GetLeftInSize b') = 2"
  using MoveUnuseData2Begin_compacts [of "\<lparr>buffer = Block [1, 2, 3, 4], buf_length = 4, in_offset = 3,
      out_offset = 0, in_used_offset = 1, used_out_reset = True\<rparr>"]
  by (auto simp: wf_recv_def wf_buffer_def pending_def filled_def)

theorem DataIn_wrap_overflows_witness:
  "DataIn_copy \<lparr>buffer = Block [1, 2, 3, 4], buf_length = 4, in_offset = 3, out_offset = 0\<rparr>
     (replicate (unat (4294967295 :: size_t)) 0) 4294967295 = Inl OutOfBounds"
  by (rule DataIn_wrap_overflows) (simp_all only: length_replicate, simp_all add: wf_buffer_def)

theorem cleared_buffer_stays_empty_witness:
  "\<exists>b'. HSBuffer_Clear (HSBuffer_new (\<lambda>_. 0) 8) True = Inr b' \<and> SetLength (\<lambda>_. 0) b' 8 = Inr b' \<and>
     GetLeftInSize b' = 0 \<and> DataIn_copy b' [1] 1 = Inr (False, b')"
  by (rule cleared_buffer_stays_empty)
    (simp_all add: HSBuffer_new_def new_chars_def wf_buffer_def)

end
