(* ===== verification/HS_Framing.thy ===== *)
theory HS_Framing
  imports HS_Prelude
begin

text \<open>
  Cutting a byte stream into messages. A receiver looks at the bytes it has with a step function:
  the bytes are wrong, there are too few of them, or a message of \<open>n\<close> bytes stands in front.
  \<open>unframe\<close> repeats the step until it stops; \<open>feed_all\<close> does so chunk by chunk, keeping the rest.
  The locale \<open>framing\<close> states what a packet format promises, and proves once that the messages
  found do not depend on how the stream was cut into chunks.
\<close>

datatype 'm frame_res = FrameError | FrameWait | Frame 'm nat

function unframe :: "('b list \<Rightarrow> 'm frame_res) \<Rightarrow> 'b list \<Rightarrow> 'm list \<times> 'b list \<times> bool" where
  "unframe st bs =
     (case st bs of
        FrameError \<Rightarrow> ([], bs, True)
      | FrameWait \<Rightarrow> ([], bs, False)
      | Frame m n \<Rightarrow>
          if 0 < n \<and> bs \<noteq> []
          then (case unframe st (drop n bs) of (ms, rest, bad) \<Rightarrow> (m # ms, rest, bad))
          else ([], bs, True))"
  by pat_completeness auto
termination
  by (relation "measure (\<lambda>(st, bs). length bs)") auto

declare unframe.simps [simp del]

lemma unframe_rest: "unframe st bs = (ms, rest, False) \<Longrightarrow> st rest = FrameWait"
proof (induction st bs arbitrary: ms rest rule: unframe.induct)
  case (1 st bs)
  show ?case
  proof (cases "st bs")
    case (Frame m n)
    then show ?thesis
      using "1.prems" "1.IH" [OF Frame]
      by (fastforce simp: unframe.simps [of st bs] split: if_splits prod.splits)
  qed (use "1.prems" in \<open>auto simp: unframe.simps [of st bs]\<close>)
qed

fun feed_all ::
  "('b list \<Rightarrow> 'm frame_res) \<Rightarrow> 'b list \<Rightarrow> 'b list list \<Rightarrow> 'm list \<times> 'b list \<times> bool" where
  "feed_all st rest [] = ([], rest, False)"
| "feed_all st rest (c # cs) =
     (case unframe st (rest @ c) of
        (ms, rest', True) \<Rightarrow> (ms, rest', True)
      | (ms, rest', False) \<Rightarrow>
          (case feed_all st rest' cs of (ms', rest'', bad) \<Rightarrow> (ms @ ms', rest'', bad)))"

locale framing =
  fixes pack :: "'m \<Rightarrow> 'b list" and st :: "'b list \<Rightarrow> 'm frame_res" and ok :: "'m \<Rightarrow> bool"
  assumes st_pack: "ok m \<Longrightarrow> st (pack m @ rest) = Frame m (length (pack m))"
    and st_part: "ok m \<Longrightarrow> k < length (pack m) \<Longrightarrow> st (take k (pack m)) = FrameWait"
    and st_Nil: "st [] = FrameWait"
    and st_Frame: "st xs = Frame m n \<Longrightarrow> 0 < n \<and> n \<le> length xs \<and> st (xs @ ys) = Frame m n"
    and st_Error: "st xs = FrameError \<Longrightarrow> st (xs @ ys) = FrameError"
begin

lemma pack_not_Nil: "ok m \<Longrightarrow> pack m \<noteq> []"
  using st_pack [of m "[]"] st_Nil by auto

lemma unframe_Nil: "unframe st [] = ([], [], False)"
  by (simp add: unframe.simps st_Nil)

lemma unframe_packs: "list_all ok ms \<Longrightarrow> unframe st (concat (map pack ms)) = (ms, [], False)"
proof (induction ms)
  case Nil
  then show ?case by (simp add: unframe_Nil)
next
  case (Cons m ms)
  then show ?case
    using pack_not_Nil [of m] by (simp add: unframe.simps [of st "pack m @ _"] st_pack)
qed

lemma unframe_append:
  "unframe st xs = (ms, rest, False) \<Longrightarrow>
   unframe st (xs @ ys) = (case unframe st (rest @ ys) of (ms', r, bad) \<Rightarrow> (ms @ ms', r, bad))"
proof (induction xs arbitrary: ms rest rule: length_induct)
  case (1 xs)
  show ?case
  proof (cases "st xs")
    case (Frame m n)
    then have n: "0 < n" "n \<le> length xs" "st (xs @ ys) = Frame m n"
      using st_Frame by blast+
    then have ne: "xs \<noteq> []" by auto
    obtain ms' where ms': "unframe st (drop n xs) = (ms', rest, False)" "ms = m # ms'"
      using 1(2) Frame n ne by (auto simp: unframe.simps [of st xs] split: prod.splits)
    have "unframe st (drop n xs @ ys) =
        (case unframe st (rest @ ys) of (ms'', r, bad) \<Rightarrow> (ms' @ ms'', r, bad))"
      using 1(1) ms'(1) n ne by simp
    then show ?thesis
      using n ne ms'(2) by (simp add: unframe.simps [of st "xs @ ys"] split: prod.splits)
  qed (use 1(2) in \<open>auto simp: unframe.simps [of st xs]\<close>)
qed

lemma unframe_bad_append:
  "unframe st xs = (ms, rest, True) \<Longrightarrow> \<exists>r. unframe st (xs @ ys) = (ms, r, True)"
proof (induction xs arbitrary: ms rest rule: length_induct)
  case (1 xs)
  show ?case
  proof (cases "st xs")
    case (Frame m n)
    then have n: "0 < n" "n \<le> length xs" "st (xs @ ys) = Frame m n"
      using st_Frame by blast+
    then have ne: "xs \<noteq> []" by auto
    obtain ms' where ms': "unframe st (drop n xs) = (ms', rest, True)" "ms = m # ms'"
      using 1(2) Frame n ne by (auto simp: unframe.simps [of st xs] split: prod.splits)
    then obtain r where "unframe st (drop n xs @ ys) = (ms', r, True)"
      using 1(1) n ne by (metis diff_less length_drop length_greater_0_conv)
    then show ?thesis
      using n ne ms'(2) by (simp add: unframe.simps [of st "xs @ ys"])
  next
    case FrameError
    then have "unframe st (xs @ ys) = ([], xs @ ys, True)"
      by (simp add: unframe.simps [of st "xs @ ys"] st_Error)
    moreover have "ms = []" using 1(2) FrameError by (simp add: unframe.simps [of st xs])
    ultimately show ?thesis by simp
  qed (use 1(2) in \<open>auto simp: unframe.simps [of st xs]\<close>)
qed

text \<open>
  One chunk of a stream. Either it holds the first wrong bytes, and then all messages before them; or its messages
  come first, the rest of the stream still gives the others, and what is kept holds no whole message.
\<close>

lemma unframe_kept:
  assumes "unframe st xs = (ms, rest, False)"
  shows "unframe st rest = ([], rest, False)"
proof -
  obtain ms' r b where u: "unframe st rest = (ms', r, b)" by (cases "unframe st rest")
  show ?thesis using unframe_append [OF assms, of "[]"] assms u by simp
qed

lemma unframe_cut:
  assumes "unframe st (r @ xs @ ys) = (ms, rest, bad)"
  obtains (whole) ms1 r1 ms2 where "unframe st (r @ xs) = (ms1, r1, False)"
    "unframe st (r1 @ ys) = (ms2, rest, bad)" "ms = ms1 @ ms2" "unframe st r1 = ([], r1, False)"
  | (wrong) r1 where "unframe st (r @ xs) = (ms, r1, True)" "bad"
proof (cases "unframe st (r @ xs)")
  case (fields ms1 r1 b)
  show ?thesis
  proof (cases b)
    case True
    then obtain r' where "unframe st ((r @ xs) @ ys) = (ms1, r', True)"
      using unframe_bad_append [of "r @ xs" ms1 r1 ys] fields by auto
    then show ?thesis using wrong fields True assms by simp
  next
    case False
    obtain ms2 r2 b2 where u2: "unframe st (r1 @ ys) = (ms2, r2, b2)" by (cases "unframe st (r1 @ ys)")
    have u: "unframe st (r @ xs) = (ms1, r1, False)" using fields False by simp
    show ?thesis
      using whole [OF u _ _ unframe_kept [OF u], of ms2] unframe_append [OF u, of ys] u2 assms by simp
  qed
qed

lemma unframe_split:
  assumes "unframe st (r @ xs @ ys) = (ms, rest, False)"
  obtains ms1 r1 ms2 where "unframe st (r @ xs) = (ms1, r1, False)"
    "unframe st (r1 @ ys) = (ms2, rest, False)" "ms = ms1 @ ms2" "unframe st r1 = ([], r1, False)"
  using assms by (rule unframe_cut) (blast intro: that)+

text \<open>What a cut-up stream delivers, as long as nothing is wrong in it, is what the whole delivers.\<close>

lemma feed_all_concat:
  assumes "unframe st (concat cs) = (ms, rest, False)"
  shows "feed_all st [] cs = (ms, rest, False)"
proof -
  have "unframe st r = ([], r, False) \<Longrightarrow> unframe st (r @ concat cs) = (ms, rest, False) \<Longrightarrow>
      feed_all st r cs = (ms, rest, False)" for r
  proof (induction cs arbitrary: r ms)
    case Nil
    then show ?case by simp
  next
    case (Cons c cs)
    from Cons.prems(2) have "unframe st (r @ c @ concat cs) = (ms, rest, False)" by simp
    then obtain ms1 r1 ms2 where s: "unframe st (r @ c) = (ms1, r1, False)"
      "unframe st (r1 @ concat cs) = (ms2, rest, False)" "ms = ms1 @ ms2"
      "unframe st r1 = ([], r1, False)" by (rule unframe_split)
    show ?case using Cons.IH [OF s(4) s(2)] s(1,3) by simp
  qed
  from this [of "[]"] assms show ?thesis by (simp add: unframe_Nil)
qed

lemma feed_all_packs:
  "list_all ok ms \<Longrightarrow> concat cs = concat (map pack ms) \<Longrightarrow> feed_all st [] cs = (ms, [], False)"
  by (rule feed_all_concat) (simp add: unframe_packs)

end

end
