(* ===== verification/HS_PacketWorker.thy ===== *)
theory HS_PacketWorker
  imports HS_Framing
begin

text \<open>
  \<open>hs_packetworker.cpp\<close>: the wire format. A packet is the length of the user data and an
  identification number, both as 32-bit integers in network byte order, followed by the data.
  \<open>host_to_network_long\<close> and \<open>network_to_host_long\<close> belong to Boost.Asio; they are parameters, and
  the locale \<open>net_order\<close> states what the code relies on: the second undoes the first.

  A pointer argument is a block with an offset. The results -1, 0 and 1 of the two functions, with
  the reference arguments they set, are the constructors of \<open>decode_result\<close> and \<open>encode_result\<close>.
\<close>

section \<open>The code\<close>

definition HS_NET_PACKET_MAX_SIZE :: size_t where "HS_NET_PACKET_MAX_SIZE = 8192"

definition HS_NET_PACKET_HEADER_LENGTH :: size_t where "HS_NET_PACKET_HEADER_LENGTH = 4"

definition HS_NET_PACKET_IDENTIFY_NUMBER :: u32 where "HS_NET_PACKET_IDENTIFY_NUMBER = 0xEDCBA98"

text \<open>\<open>sizeof(HS_NET_PACKET_IDENTIFY_NUMBER)\<close>: the constant is an \<open>unsigned long\<close>.\<close>

definition identify_number_size :: size_t where "identify_number_size = 4"

definition load_u32 :: "byte list cptr \<Rightarrow> nat \<Rightarrow> u32 res" where
  "load_u32 p off = bind_res (mem_read p off 4) (\<lambda>xs. Inr (bytes_u32 xs))"

definition store_u32 :: "byte list cptr \<Rightarrow> nat \<Rightarrow> u32 \<Rightarrow> byte list cptr res" where
  "store_u32 p off x = mem_write p off (u32_bytes x)"

datatype decode_result = DecodeError | DecodeWait | Decoded size_t size_t

definition DecodePacket ::
  "(u32 \<Rightarrow> u32) \<Rightarrow> byte list cptr \<times> size_t \<Rightarrow> size_t \<Rightarrow> decode_result res" where
  "DecodePacket ntoh packet_data sz =
     (case packet_data of (p, off) \<Rightarrow>
      if p = Null \<and> off = 0 then Inr DecodeError
      else if sz < HS_NET_PACKET_HEADER_LENGTH + identify_number_size then Inr DecodeWait
      else
        bind_res (load_u32 p (unat off)) (\<lambda>raw.
        let pl = ntoh raw in
        if pl > HS_NET_PACKET_MAX_SIZE - (HS_NET_PACKET_HEADER_LENGTH + identify_number_size)
        then Inr DecodeError
        else
          bind_res (load_u32 p (unat off + unat HS_NET_PACKET_HEADER_LENGTH)) (\<lambda>raw.
          let id = ntoh raw in
          if id \<noteq> HS_NET_PACKET_IDENTIFY_NUMBER then Inr DecodeError
          else if sz < pl + (HS_NET_PACKET_HEADER_LENGTH + identify_number_size)
          then Inr DecodeWait
          else Inr (Decoded (HS_NET_PACKET_HEADER_LENGTH + identify_number_size) pl))))"

datatype encode_result = EncodeTooLong | EncodeNoRoom | Encoded "byte list cptr" size_t

definition EncodePacket ::
  "(u32 \<Rightarrow> u32) \<Rightarrow> byte list \<Rightarrow> size_t \<Rightarrow> byte list cptr \<times> size_t \<Rightarrow> size_t \<Rightarrow>
   encode_result res" where
  "EncodePacket hton user_data sz out_data out_data_size =
     (case out_data of (p, off) \<Rightarrow>
      if sz + (HS_NET_PACKET_HEADER_LENGTH + identify_number_size) > HS_NET_PACKET_MAX_SIZE
      then Inr EncodeTooLong
      else if sz + (HS_NET_PACKET_HEADER_LENGTH + identify_number_size) > out_data_size
      then Inr EncodeNoRoom
      else
        bind_res (store_u32 p (unat off) (hton sz)) (\<lambda>p.
        bind_res (store_u32 p (unat off + unat HS_NET_PACKET_HEADER_LENGTH)
                    (hton HS_NET_PACKET_IDENTIFY_NUMBER)) (\<lambda>p.
        bind_res (mem_read (Block user_data) 0 (unat sz)) (\<lambda>xs.
        bind_res (mem_write p (unat off + unat HS_NET_PACKET_HEADER_LENGTH +
                    unat identify_number_size) xs) (\<lambda>p.
        Inr (Encoded p (sz + (identify_number_size + HS_NET_PACKET_HEADER_LENGTH))))))))"

lemmas packet_consts = HS_NET_PACKET_MAX_SIZE_def HS_NET_PACKET_HEADER_LENGTH_def
  identify_number_size_def

section \<open>Specification: packets as byte lists\<close>

definition packet :: "(u32 \<Rightarrow> u32) \<Rightarrow> byte list \<Rightarrow> byte list" where
  "packet hton m =
     u32_bytes (hton (of_nat (length m))) @ u32_bytes (hton HS_NET_PACKET_IDENTIFY_NUMBER) @ m"

definition packet_ok :: "byte list \<Rightarrow> bool" where
  "packet_ok m \<longleftrightarrow> length m \<le> 8184"

definition frame :: "(u32 \<Rightarrow> u32) \<Rightarrow> byte list \<Rightarrow> byte list frame_res" where
  "frame ntoh bs =
     (if length bs < 8 then FrameWait
      else let pl = unat (ntoh (bytes_u32 (take 4 bs))) in
           if 8184 < pl then FrameError
           else if ntoh (bytes_u32 (take 4 (drop 4 bs))) \<noteq> HS_NET_PACKET_IDENTIFY_NUMBER
           then FrameError
           else if length bs < pl + 8 then FrameWait
           else Frame (take pl (drop 8 bs)) (8 + pl))"

lemma length_packet [simp]: "length (packet hton m) = 8 + length m"
  by (simp add: packet_def)

subsection \<open>The decoder computes \<open>frame\<close>\<close>

lemma DecodePacket_frame:
  assumes "length bs = unat sz" and "unat off + length bs \<le> length (block_bytes p)"
    and "bs = take (length bs) (drop (unat off) (block_bytes p))" and "p \<noteq> Null \<or> off \<noteq> 0"
  shows "DecodePacket ntoh (p, off) sz = Inr (case frame ntoh bs of
      FrameError \<Rightarrow> DecodeError | FrameWait \<Rightarrow> DecodeWait
    | Frame m n \<Rightarrow> Decoded 8 (of_nat (length m)))"
proof (cases "length bs < 8")
  case True
  then show ?thesis
    using assms by (auto simp: DecodePacket_def packet_consts frame_def word_less_nat_alt)
next
  case False
  let ?off = "unat off"
  have ge: "\<not> sz < 8" using False assms(1) by (simp add: word_less_nat_alt)
  have r1: "mem_read p ?off 4 = Inr (take 4 bs)"
    using assms(2) False by (subst assms(3)) (simp add: mem_read_ok min_absorb1)
  have r2: "mem_read p (?off + 4) 4 = Inr (take 4 (drop 4 bs))"
    using assms(2) False
    by (subst assms(3)) (simp add: mem_read_ok drop_take min_absorb1 add.commute)
  let ?pl = "ntoh (bytes_u32 (take 4 bs))"
  have c1: "?pl > 8184 \<longleftrightarrow> 8184 < unat ?pl" by (simp add: word_less_nat_alt)
  have c2: "sz < ?pl + 8 \<longleftrightarrow> length bs < unat ?pl + 8" if "\<not> 8184 < unat ?pl"
    using that assms(1) by (simp add: word_less_nat_alt unat_add_no_wrap)
  show ?thesis
    using ge False r1 r2 c1 c2 assms(4)
    by (auto simp: DecodePacket_def packet_consts load_u32_def frame_def Let_def min_absorb1)
qed

subsection \<open>The encoder writes \<open>packet\<close>\<close>

lemma EncodePacket_too_long:
  "8184 < unat sz \<Longrightarrow> unat sz < 2 ^ 32 - 8 \<Longrightarrow>
   EncodePacket hton d sz out n = Inr EncodeTooLong"
  by (simp add: EncodePacket_def packet_consts word_less_nat_alt unat_add_no_wrap split: prod.split)

lemma EncodePacket_no_room:
  "unat sz \<le> 8184 \<Longrightarrow> unat n < unat sz + 8 \<Longrightarrow>
   EncodePacket hton d sz out n = Inr EncodeNoRoom"
  by (simp add: EncodePacket_def packet_consts word_less_nat_alt unat_add_no_wrap split: prod.split)

lemma EncodePacket_packet:
  assumes ok: "packet_ok d" and room: "length d + 8 \<le> unat n"
    and fits: "unat off + length d + 8 \<le> length (block_bytes p)"
  obtains q where "EncodePacket hton d (of_nat (length d)) (p, off) n =
      Inr (Encoded q (of_nat (length (packet hton d))))"
    "length (block_bytes q) = length (block_bytes p)"
    "take (unat off + length (packet hton d)) (block_bytes q) =
      take (unat off) (block_bytes p) @ packet hton d" "q \<noteq> Wild"
proof -
  let ?off = "unat off" and ?sz = "of_nat (length d) :: size_t"
  have sz: "unat ?sz = length d"
    using ok by (simp add: packet_ok_def unat_of_nat_small)
  have guards: "\<not> ?sz + 8 > 8192" "\<not> ?sz + 8 > n"
    using ok room by (simp_all add: word_less_nat_alt unat_add_no_wrap sz packet_ok_def)
  obtain p1 where p1: "mem_write p ?off (u32_bytes (hton ?sz)) = Inr p1"
    using mem_write_fits [of ?off "u32_bytes (hton ?sz)" p] fits by auto
  note w1 = mem_write_InrD [OF p1]
  obtain p2 where p2: "mem_write p1 (?off + 4) (u32_bytes (hton HS_NET_PACKET_IDENTIFY_NUMBER)) = Inr p2"
    using mem_write_fits [of "?off + 4" "u32_bytes (hton HS_NET_PACKET_IDENTIFY_NUMBER)" p1] fits w1
    by auto
  note w2 = mem_write_InrD [OF p2]
  obtain p3 where p3: "mem_write p2 (?off + 8) d = Inr p3"
    using mem_write_fits [of "?off + 8" d p2] fits w1 w2 by auto
  note w3 = mem_write_InrD [OF p3]
  have "mem_write p2 (8 + ?off) d = Inr p3" using p3 by (simp add: add.commute)
  then have "EncodePacket hton d ?sz (p, off) n = Inr (Encoded p3 (?sz + 8))"
    using guards p1 p2 sz
    by (simp add: EncodePacket_def packet_consts store_u32_def mem_read_ok)
  moreover have "?sz + 8 = of_nat (length (packet hton d))" by (simp add: add.commute)
  moreover have "take (?off + length (packet hton d)) (block_bytes p3) =
      take ?off (block_bytes p) @ packet hton d"
  proof -
    have "take (?off + length (packet hton d)) (block_bytes p3) =
        take (?off + 8) (block_bytes p2) @ d" using w3(2) by (simp add: add.assoc)
    also have "take (?off + 8) (block_bytes p2) =
        take (?off + 4) (block_bytes p1) @ u32_bytes (hton HS_NET_PACKET_IDENTIFY_NUMBER)"
      using w2(2) by (simp add: add.assoc)
    also have "take (?off + 4) (block_bytes p1) = take ?off (block_bytes p) @ u32_bytes (hton ?sz)"
      using w1(2) by simp
    finally show ?thesis by (simp add: packet_def)
  qed
  moreover have "p3 \<noteq> Wild"
    using p1 w1 w2 w3 by (cases p) (auto simp: mem_write_def u32_bytes_def)
  ultimately show ?thesis using that w1(1) w2(1) w3(1) by simp
qed

section \<open>The byte order contract, and packets as a framing\<close>

locale net_order =
  fixes hton ntoh :: "u32 \<Rightarrow> u32"
  assumes ntoh_hton: "ntoh (hton x) = x"
begin

lemma frame_packet: "packet_ok m \<Longrightarrow> frame ntoh (packet hton m @ rest) = Frame m (8 + length m)"
  by (simp add: frame_def packet_def packet_ok_def ntoh_hton unat_of_nat_small Let_def)

lemma frame_partial:
  assumes "packet_ok m" and k: "k < length (packet hton m)"
  shows "frame ntoh (take k (packet hton m)) = FrameWait"
proof (cases "k < 8")
  case False
  then have "take k (packet hton m) = u32_bytes (hton (of_nat (length m))) @
      u32_bytes (hton HS_NET_PACKET_IDENTIFY_NUMBER) @ take (k - 8) m"
    by (simp add: packet_def)
  with False assms show ?thesis
    by (simp add: frame_def packet_ok_def ntoh_hton unat_of_nat_small Let_def)
qed (use k in \<open>simp add: frame_def\<close>)

end

lemma frame_FrameD:
  "frame ntoh bs = Frame m n \<Longrightarrow> n = 8 + length m \<and> length m \<le> 8184 \<and> n \<le> length bs \<and>
     m = take (length m) (drop 8 bs)"
  by (auto simp: frame_def Let_def min_def split: if_splits)

lemma frame_WaitD: "frame ntoh bs = FrameWait \<Longrightarrow> length bs < 8192"
  by (auto simp: frame_def Let_def split: if_splits)

lemma frame_Nil: "frame ntoh [] = FrameWait"
  by (simp add: frame_def)

lemma frame_mono:
  "frame ntoh xs = Frame m n \<Longrightarrow> frame ntoh (xs @ ys) = Frame m n"
  "frame ntoh xs = FrameError \<Longrightarrow> frame ntoh (xs @ ys) = FrameError"
  by (auto simp: frame_def Let_def split: if_splits)

sublocale net_order \<subseteq> packets: framing "packet hton" "frame ntoh" packet_ok
proof unfold_locales
  fix m rest xs ys n k
  show "packet_ok m \<Longrightarrow> frame ntoh (packet hton m @ rest) = Frame m (length (packet hton m))"
    by (simp add: frame_packet)
  show "packet_ok m \<Longrightarrow> k < length (packet hton m) \<Longrightarrow> frame ntoh (take k (packet hton m)) = FrameWait"
    by (rule frame_partial)
  show "frame ntoh [] = FrameWait" by (rule frame_Nil)
  show "frame ntoh xs = Frame m n \<Longrightarrow> 0 < n \<and> n \<le> length xs \<and> frame ntoh (xs @ ys) = Frame m n"
    using frame_FrameD [of ntoh xs m n] frame_mono(1) [of ntoh xs m n ys] by simp
  show "frame ntoh xs = FrameError \<Longrightarrow> frame ntoh (xs @ ys) = FrameError"
    by (rule frame_mono(2))
qed

text \<open>The framing facts, for any byte order functions that satisfy the contract.\<close>

context net_order begin

lemmas stream_split = packets.unframe_split
lemmas stream_cut = packets.unframe_cut
lemmas stream_packets = packets.unframe_packs
lemmas stream_Nil = packets.unframe_Nil
lemmas stream_append = packets.unframe_append
lemmas stream_chunks = packets.feed_all_packs

end

text \<open>
  The byte order functions of a little-endian host reverse the four bytes. They satisfy the
  contract; the witnesses use them.
\<close>

definition swap_u32 :: "u32 \<Rightarrow> u32" where
  "swap_u32 x = bytes_u32 (rev (u32_bytes x))"

interpretation little_endian: net_order swap_u32 swap_u32
  by unfold_locales (simp add: swap_u32_def u32_bytes_bytes)

section \<open>Properties of the two functions\<close>

text \<open>C17: round trip. A packet that the encoder writes at any place of a block is decoded there, and the
  user data stands behind the decoded header.\<close>

theorem encode_decode_roundtrip:
  assumes "ntoh (hton HS_NET_PACKET_IDENTIFY_NUMBER) = HS_NET_PACKET_IDENTIFY_NUMBER"
    and "ntoh (hton (of_nat (length d))) = of_nat (length d)"
    and "length d \<le> 8184" and "length d + 8 \<le> unat n"
    and "unat off + length d + 8 \<le> length (block_bytes p)"
  shows "\<exists>q. EncodePacket hton d (of_nat (length d)) (p, off) n = Inr (Encoded q (of_nat (length d + 8))) \<and>
    DecodePacket ntoh (q, off) (of_nat (length d + 8)) = Inr (Decoded 8 (of_nat (length d))) \<and>
    mem_read q (unat off + 8) (length d) = Inr d"
proof -
  have ok: "packet_ok d" using assms(3) by (simp add: packet_ok_def)
  obtain q where q: "EncodePacket hton d (of_nat (length d)) (p, off) n =
      Inr (Encoded q (of_nat (length (packet hton d))))"
    "length (block_bytes q) = length (block_bytes p)"
    "take (unat off + length (packet hton d)) (block_bytes q) =
      take (unat off) (block_bytes p) @ packet hton d" "q \<noteq> Wild"
    by (rule EncodePacket_packet [OF ok assms(4,5)])
  have sz: "unat (of_nat (length d + 8) :: size_t) = length d + 8"
    using assms(3) by (subst unat_of_nat_small) simp_all
  have at: "packet hton d = take (length (packet hton d)) (drop (unat off) (block_bytes q))"
    using arg_cong [OF q(3), of "drop (unat off)"] assms(5) by (simp add: drop_take)
  have q0: "q \<noteq> Null" using q(2) assms(5) by auto
  have f: "frame ntoh (packet hton d) = Frame d (8 + length d)"
    using assms(1-3) by (simp add: frame_def packet_def unat_of_nat_small Let_def)
  have "DecodePacket ntoh (q, off) (of_nat (length d + 8)) = Inr (Decoded 8 (of_nat (length d)))"
    using DecodePacket_frame [of "packet hton d" "of_nat (length d + 8)" off q ntoh, OF _ _ at]
      sz q(2) assms(5) q0 unfolding f by simp
  moreover have "mem_read q (unat off + 8) (length d) = Inr d"
  proof -
    have "drop 8 (packet hton d) = take (length d) (drop (unat off + 8) (block_bytes q))"
      by (subst at) (simp add: drop_take add.commute)
    then show ?thesis
      using q(2) assms(5) by (simp add: mem_read_ok packet_def)
  qed
  ultimately show ?thesis using q(1) by (intro exI [of _ q]) (simp add: add.commute)
qed

text \<open>C18: bounds. On a block that really holds the number of bytes it is told, the decoder never reads
  outside the block, and what it announces lies inside these bytes.\<close>

theorem DecodePacket_in_bounds:
  assumes "p \<noteq> Null \<or> off \<noteq> 0" and "unat off + unat sz \<le> length (block_bytes p)"
  shows "\<exists>r. DecodePacket ntoh (p, off) sz = Inr r \<and>
    (case r of Decoded h n \<Rightarrow> h = 8 \<and> unat h + unat n \<le> unat sz \<and> unat n \<le> 8184 | _ \<Rightarrow> True)"
proof -
  let ?bs = "take (unat sz) (drop (unat off) (block_bytes p))"
  have len: "length ?bs = unat sz" using assms(2) by simp
  from DecodePacket_frame [of ?bs sz off p ntoh] len assms
  have "DecodePacket ntoh (p, off) sz = Inr (case frame ntoh ?bs of
      FrameError \<Rightarrow> DecodeError | FrameWait \<Rightarrow> DecodeWait
    | Frame m n \<Rightarrow> Decoded 8 (of_nat (length m)))" by simp
  then show ?thesis
    using len frame_FrameD [of ntoh ?bs]
    by (cases "frame ntoh ?bs") (force simp: unat_of_nat_small)+
qed

text \<open>Wrap-around. A length within 8 of the largest \<open>size_t\<close> passes both size checks of the encoder,
  because the sum with the header length wraps to a small number; the copy then leaves the block.\<close>

theorem EncodePacket_size_wraps:
  assumes "2 ^ 32 - 8 \<le> unat sz" and "unat off + 8 \<le> length bs" and "length bs < 2 ^ 32"
    and "length d = unat sz" and "7 < unat n"
  shows "EncodePacket hton d sz (Block bs, off) n = Inl OutOfBounds"
proof -
  have w: "unat (sz + 8) = unat sz + 8 - 2 ^ 32"
    using assms(1) unat_lt_2p32 [of sz] by (simp add: unat_word_ariths mod_if)
  have guards: "\<not> sz + 8 > 8192" "\<not> sz + 8 > n"
    using assms(5) unat_lt_2p32 [of sz] by (simp_all add: word_less_nat_alt w)
  obtain p1 where p1: "mem_write (Block bs) (unat off) (u32_bytes (hton sz)) = Inr p1"
    using mem_write_fits [of "unat off" "u32_bytes (hton sz)" "Block bs"] assms(2) by auto
  note w1 = mem_write_InrD [OF p1]
  obtain p2 where p2:
    "mem_write p1 (unat off + 4) (u32_bytes (hton HS_NET_PACKET_IDENTIFY_NUMBER)) = Inr p2"
    using mem_write_fits [of "unat off + 4" "u32_bytes (hton HS_NET_PACKET_IDENTIFY_NUMBER)" p1]
      assms(2) w1 by auto
  note w2 = mem_write_InrD [OF p2]
  obtain bs2 where bs2: "p2 = Block bs2" "length bs2 = length bs"
    using w1 w2 by (cases p2) auto
  have "mem_write p2 (unat off + 8) d = Inl OutOfBounds"
    using assms(1,3,4) bs2 by (auto simp: mem_write_def)
  then have "mem_write p2 (8 + unat off) d = Inl OutOfBounds" by (simp add: add.commute)
  then show ?thesis
    using guards p1 p2 assms(4)
    by (simp add: EncodePacket_def packet_consts store_u32_def mem_read_ok)
qed

section \<open>Witnesses\<close>

theorem encode_decode_roundtrip_witness:
  "\<exists>q. EncodePacket swap_u32 [7, 8, 9] (of_nat (length [7, 8, 9 :: byte])) (Block (replicate 16 0), 2) 14 =
      Inr (Encoded q (of_nat (length [7, 8, 9 :: byte] + 8))) \<and>
    DecodePacket swap_u32 (q, 2) (of_nat (length [7, 8, 9 :: byte] + 8)) =
      Inr (Decoded 8 (of_nat (length [7, 8, 9 :: byte]))) \<and>
    mem_read q (unat (2 :: size_t) + 8) (length [7, 8, 9 :: byte]) = Inr [7, 8, 9]"
  by (rule encode_decode_roundtrip) (simp_all add: little_endian.ntoh_hton)

theorem DecodePacket_in_bounds_witness:
  "\<exists>r. DecodePacket swap_u32 (Block (replicate 12 255), 1) 11 = Inr r \<and>
    (case r of Decoded h n \<Rightarrow> h = 8 \<and> unat h + unat n \<le> unat (11 :: size_t) \<and> unat n \<le> 8184 | _ \<Rightarrow> True)"
  by (rule DecodePacket_in_bounds) simp_all

theorem EncodePacket_size_wraps_witness:
  "EncodePacket swap_u32 (replicate (unat (4294967290 :: size_t)) 0) 4294967290
     (Block (replicate 16 0), 0) 64 = Inl OutOfBounds"
  by (rule EncodePacket_size_wraps) (simp_all only: length_replicate, simp_all)

end
