(* ===== verification/HS_Session.thy ===== *)
theory HS_Session
  imports HS_Buffer HS_PacketWorker
begin

text \<open>
  \<open>hs_session.h\<close> and \<open>hs_session.cpp\<close>: one connection on a Boost.Asio socket. The socket and the
  event handler are outside the program; what a method does to them is a list of actions, in order.
  An asynchronous operation is an action that starts it; its completion is a call of \<open>handle_read\<close>
  or \<open>write_result\<close> with an error code (\<open>None\<close> for no error) and a number of bytes. The bytes of a
  completed read are in the receive buffer before the call (\<open>socket_read\<close>).

  The function-local static \<open>max_read_length\<close> of \<open>handle_read\<close> is shared by all sessions of the
  process: it is an argument and a result. The loop of \<open>handle_read\<close> is a partial function; \<open>None\<close>
  would be a loop that does not end.
\<close>

section \<open>The handler allocator\<close>

record handler_allocator =
  in_use :: bool

datatype alloc_ptr = Storage | FreshMemory nat

text \<open>\<open>storage_\<close> has 1024 bytes. \<open>fresh\<close> is what \<open>operator new\<close> returns.\<close>

definition allocate :: "handler_allocator \<Rightarrow> nat \<Rightarrow> nat \<Rightarrow> alloc_ptr \<times> handler_allocator" where
  "allocate a sz fresh =
     (if \<not> in_use a \<and> sz < 1024 then (Storage, a\<lparr>in_use := True\<rparr>) else (FreshMemory fresh, a))"

definition deallocate :: "handler_allocator \<Rightarrow> alloc_ptr \<Rightarrow> handler_allocator" where
  "deallocate a p = (if p = Storage then a\<lparr>in_use := False\<rparr> else a)"

text \<open>A handler that takes its memory from an allocator: the reference to the allocator is the index \<open>cah_allocator\<close>
  of a session's allocator. Calling it calls the handler, with one argument or two.\<close>

record ('a, 'r) custom_alloc_handler =
  cah_allocator :: nat
  cah_handler :: "'a \<Rightarrow> 'r"

definition make_custom_alloc_handler :: "nat \<Rightarrow> ('a \<Rightarrow> 'r) \<Rightarrow> ('a, 'r) custom_alloc_handler" where
  "make_custom_alloc_handler a h = \<lparr>cah_allocator = a, cah_handler = h\<rparr>"

definition call_handler :: "('a, 'r) custom_alloc_handler \<Rightarrow> 'a \<Rightarrow> 'r" where
  "call_handler h arg1 = cah_handler h arg1"

definition call_handler2 :: "('a \<times> 'b, 'r) custom_alloc_handler \<Rightarrow> 'a \<Rightarrow> 'b \<Rightarrow> 'r" where
  "call_handler2 h arg1 arg2 = cah_handler h (arg1, arg2)"

definition asio_handler_allocate ::
  "handler_allocator list \<Rightarrow> nat \<Rightarrow> ('a, 'r) custom_alloc_handler \<Rightarrow> nat \<Rightarrow> alloc_ptr \<times> handler_allocator list" where
  "asio_handler_allocate as sz this_handler fresh =
     (case allocate (as ! cah_allocator this_handler) sz fresh of
        (p, a) \<Rightarrow> (p, as[cah_allocator this_handler := a]))"

definition asio_handler_deallocate ::
  "handler_allocator list \<Rightarrow> alloc_ptr \<Rightarrow> ('a, 'r) custom_alloc_handler \<Rightarrow> handler_allocator list" where
  "asio_handler_deallocate as p this_handler =
     as[cah_allocator this_handler := deallocate (as ! cah_allocator this_handler) p]"

section \<open>The session\<close>

record session =
  recv_buffer :: hs_recv_buffer
  send_buffer :: hs_send_buffer
  handle_sending :: bool
  session_id :: u32
  event_handler :: "nat option"
  connected :: bool

datatype action =
    AsyncRead size_t size_t
  | AsyncWrite "byte list"
  | CloseSocket
  | OnConnect u32
  | OnDisconnect u32
  | OnReceive u32 "byte list"
  | OnPoll

definition HSSession_new :: "(nat \<Rightarrow> byte) \<Rightarrow> u32 \<Rightarrow> size_t \<Rightarrow> size_t \<Rightarrow> session" where
  "HSSession_new junk sid recv_buff_size send_buff_size =
     \<lparr>recv_buffer = HSRecvBuffer_new junk recv_buff_size,
      send_buffer = HSSendBuffer_new junk send_buff_size,
      handle_sending = False, session_id = sid, event_handler = None, connected = False\<rparr>"

definition get_id :: "session \<Rightarrow> u32" where
  "get_id s = session_id s"

definition is_connected :: "session \<Rightarrow> bool" where
  "is_connected s = connected s"

text \<open>The destructor deletes the buffers; the pointers to them are never null.\<close>

definition HSSession_delete :: "session \<Rightarrow> unit res" where
  "HSSession_delete s =
     bind_res (HSRecvBuffer_delete (recv_buffer s)) (\<lambda>_. HSSendBuffer_delete (send_buffer s))"

definition attach_eventhandler :: "session \<Rightarrow> nat option \<Rightarrow> session" where
  "attach_eventhandler s h = s\<lparr>event_handler := h\<rparr>"

definition session_clear :: "session \<Rightarrow> (session \<times> action list) res" where
  "session_clear s =
     bind_res (HSRecvBuffer_Clear (recv_buffer s) False) (\<lambda>r.
     bind_res (HSSendBuffer_Clear (send_buffer s) False) (\<lambda>w.
     Inr (s\<lparr>recv_buffer := r, send_buffer := w, handle_sending := False, connected := False\<rparr>,
          [CloseSocket])))"

definition session_start :: "session \<Rightarrow> action list" where
  "session_start s = [AsyncRead (in_offset (recv_buffer s)) (GetLeftInSize (recv_buffer s))]"

definition session_connected :: "session \<Rightarrow> session \<times> action list" where
  "session_connected s =
     (s\<lparr>connected := True\<rparr>,
      case event_handler s of Some _ \<Rightarrow> [OnConnect (session_id s)] | None \<Rightarrow> [])"

definition handle_error :: "int \<Rightarrow> int" where
  "handle_error error_value =
     (if error_value = 10053 then - 1
      else if error_value = 10054 then - 1
      else if error_value = 10035 then 0
      else - 1)"

subsection \<open>Receiving\<close>

text \<open>
  The loop is parametric in the event that stands for the call of \<open>onReceive\<close>, and in whether there is
  a handler to call; the client connector has the same loop with a handler of its own.
\<close>

partial_function (option) handle_read_loop ::
  "(u32 \<Rightarrow> u32) \<Rightarrow> (byte list \<Rightarrow> 'e) option \<Rightarrow> hs_recv_buffer \<Rightarrow> 'e list \<Rightarrow>
   (int \<times> hs_recv_buffer \<times> 'e list) res option" where
  [code]: "handle_read_loop ntoh deliver b acts =
     (case DecodePacket ntoh (GetCanUseBuffer b) (GetCanUseSize b) of
        Inl e \<Rightarrow> Some (Inl e)
      | Inr DecodeWait \<Rightarrow> Some (Inr (0, b, acts))
      | Inr DecodeError \<Rightarrow> Some (Inr (- 1, b, acts))
      | Inr (Decoded next_offset out_size) \<Rightarrow>
          let b = snd (DataUse b next_offset False) in
          (case (case deliver of
                   None \<Rightarrow> Inr acts
                 | Some onReceive \<Rightarrow>
                     bind_res (mem_read (buffer b) (unat (in_used_offset b)) (unat out_size))
                       (\<lambda>data. Inr (acts @ [onReceive data]))) of
             Inl e \<Rightarrow> Some (Inl e)
           | Inr acts \<Rightarrow>
               let b = snd (DataUse b out_size False) in
               if in_offset b = GetUsedSize b then Some (Inr (1, b, acts))
               else handle_read_loop ntoh deliver b acts))"

definition on_receive :: "nat option \<Rightarrow> u32 \<Rightarrow> (byte list \<Rightarrow> action) option" where
  "on_receive handler sid = map_option (\<lambda>_. OnReceive sid) handler"

definition handle_read ::
  "(u32 \<Rightarrow> u32) \<Rightarrow> size_t option \<Rightarrow> session \<Rightarrow> int option \<Rightarrow> size_t \<Rightarrow>
   (size_t option \<times> session \<times> action list) res option" where
  "handle_read ntoh max_read_length s error bytes_transferred =
     (case error of
        None \<Rightarrow>
          if bytes_transferred = 0 then Some (Inr (max_read_length, s, []))
          else
            (case handle_read_loop ntoh (on_receive (event_handler s) (session_id s))
                    (snd (DataIn (recv_buffer s) bytes_transferred)) [] of
               None \<Rightarrow> None
             | Some (Inl e) \<Rightarrow> Some (Inl e)
             | Some (Inr (r, b, acts)) \<Rightarrow>
                 let s = s\<lparr>recv_buffer := b\<rparr> in
                 if r < 0 then
                   Some (bind_res (session_clear s) (\<lambda>(s, a). Inr (max_read_length, s, acts @ a)))
                 else if r = 0 then
                   let limit = (case max_read_length of
                                  None \<Rightarrow> buf_length b - HS_NET_PACKET_MAX_SIZE
                                | Some m \<Rightarrow> m) in
                   Some (bind_res (if in_offset b \<ge> limit then MoveUnuseData2Begin b else Inr b)
                     (\<lambda>b. let s = s\<lparr>recv_buffer := b\<rparr> in
                           Inr (Some limit, s, acts @ session_start s)))
                 else Some (Inr (max_read_length, s, acts @ session_start s)))
      | Some v \<Rightarrow>
          let r = handle_error v in
          if r = 0 then Some (Inr (max_read_length, s, session_start s))
          else if r < 0 then
            let note = (case event_handler s of
                          Some _ \<Rightarrow> [OnDisconnect (session_id s)] | None \<Rightarrow> []) in
            Some (bind_res (session_clear s) (\<lambda>(s, a). Inr (max_read_length, s, note @ a)))
          else Some (Inr (max_read_length, s, [])))"

subsection \<open>Sending\<close>

definition handle_write :: "session \<Rightarrow> (session \<times> action list) res" where
  "handle_write s =
     bind_res (GetCanSendSize (send_buffer s)) (\<lambda>n.
       if n = 0 then Inr (s, [])
       else if handle_sending s then Inr (s, [])
       else
         case GetCanSendBuffer (send_buffer s) of (p, off) \<Rightarrow>
           bind_res (mem_read p (unat off) (unat n)) (\<lambda>data.
             Inr (s\<lparr>handle_sending := True\<rparr>, [AsyncWrite data])))"

definition write_result ::
  "session \<Rightarrow> int option \<Rightarrow> size_t \<Rightarrow> (session \<times> action list) res" where
  "write_result s error bytes_transferred =
     (case error of
        None \<Rightarrow>
          if bytes_transferred = 0 then Inr (s, [])
          else
            bind_res (Sent (send_buffer s) bytes_transferred False) (\<lambda>(_, w).
            let s = s\<lparr>send_buffer := w\<rparr> in
            bind_res (GetCanSendSize w) (\<lambda>n.
            bind_res (if n > 0 then handle_write s else Inr (s, [])) (\<lambda>(s, acts).
            Inr (s\<lparr>handle_sending := False\<rparr>, acts))))
      | Some v \<Rightarrow>
          let r = handle_error v in
          bind_res
            (if r = 0 then handle_write s
             else if r < 0 then
               bind_res (session_clear s) (\<lambda>(s', a).
                 Inr (s', (case event_handler s of
                             Some _ \<Rightarrow> [OnDisconnect (session_id s)] | None \<Rightarrow> []) @ a))
             else Inr (s, []))
            (\<lambda>(s, acts). Inr (s\<lparr>handle_sending := False\<rparr>, acts)))"

definition send ::
  "(u32 \<Rightarrow> u32) \<Rightarrow> session \<Rightarrow> byte list \<Rightarrow> size_t \<Rightarrow> (bool \<times> session \<times> action list) res" where
  "send hton s data len =
     bind_res (EncodePacket hton data len (GetInOffsetData (send_buffer s))
                 (GetLeftInSize (send_buffer s))) (\<lambda>r.
       case r of
         EncodeTooLong \<Rightarrow> Inr (False, s, [])
       | EncodeNoRoom \<Rightarrow> bind_res (handle_write s) (\<lambda>(s, acts). Inr (True, s, acts))
       | Encoded p out_size \<Rightarrow>
           let s = s\<lparr>send_buffer := snd (DataIn ((send_buffer s)\<lparr>buffer := p\<rparr>) out_size)\<rparr> in
           bind_res (handle_write s) (\<lambda>(s, acts). Inr (True, s, acts)))"

section \<open>The socket's side of a read\<close>

definition socket_read :: "session \<Rightarrow> byte list \<Rightarrow> session res" where
  "socket_read s xs =
     bind_res (mem_write (buffer (recv_buffer s)) (unat (in_offset (recv_buffer s))) xs) (\<lambda>p.
       Inr (s\<lparr>recv_buffer := (recv_buffer s)\<lparr>buffer := p\<rparr>\<rparr>))"

section \<open>Well-formed sessions\<close>

definition wf_session :: "session \<Rightarrow> bool" where
  "wf_session s \<longleftrightarrow>
     wf_recv (recv_buffer s) \<and> used_out_reset (recv_buffer s) \<and> buf_length (recv_buffer s) \<noteq> 0 \<and>
     wf_send (send_buffer s) \<and> sent_out_reset (send_buffer s) \<and> buf_length (send_buffer s) \<noteq> 0"

lemma wf_HSSession_new [hs_wf]:
  assumes "r \<noteq> 0" "w \<noteq> 0"
  shows "wf_session (HSSession_new junk sid r w)"
  using wf_HSRecvBuffer_new [OF assms(1)] wf_HSSendBuffer_new [OF assms(2)] assms
  by (simp add: wf_session_def HSSession_new_def HSRecvBuffer_new_def HSSendBuffer_new_def
      HSBuffer_new_def hs_buffer.defs hs_recv_buffer.defs hs_send_buffer.defs)

lemma session_clear_result:
  assumes "wf_session s"
  obtains s' where "session_clear s = Inr (s', [CloseSocket])" "wf_session s'"
    "pending (recv_buffer s') = []" "unsent (send_buffer s') = []" "\<not> handle_sending s'"
    "\<not> connected s'" "session_id s' = session_id s" "event_handler s' = event_handler s"
    "buf_length (recv_buffer s') = buf_length (recv_buffer s)"
proof -
  obtain r where r: "HSRecvBuffer_Clear (recv_buffer s) False = Inr r"
    by (simp add: HSRecvBuffer_Clear_keep)
  obtain w where w: "HSSendBuffer_Clear (send_buffer s) False = Inr w"
    by (simp add: HSSendBuffer_Clear_keep)
  have "used_out_reset r" "sent_out_reset w"
    using r w by (auto simp: HSRecvBuffer_Clear_keep HSSendBuffer_Clear_keep)
  then show ?thesis
    using that [of "s\<lparr>recv_buffer := r, send_buffer := w, handle_sending := False, connected := False\<rparr>"]
      r w wf_recv_clear [OF _ r] wf_send_clear [OF _ w] assms
    by (simp add: session_clear_def wf_session_def)
qed

section \<open>Receiving: the code cuts the stream as the specification does\<close>

lemma DecodePacket_pending:
  assumes wf: "wf_recv b" and ne: "buf_length b \<noteq> 0"
  shows "DecodePacket ntoh (GetCanUseBuffer b) (GetCanUseSize b) =
    Inr (case frame ntoh (pending b) of
      FrameError \<Rightarrow> DecodeError | FrameWait \<Rightarrow> DecodeWait
    | Frame m n \<Rightarrow> Decoded 8 (of_nat (length m)))"
proof -
  have len: "unat (in_used_offset b) + length (pending b) = length (filled b)"
    using wf by (simp add: wf_recv_def length_filled pending_def word_le_nat_alt)
  also have "\<dots> \<le> length (block_bytes (buffer b))" by (simp add: filled_def)
  finally have bound: "unat (in_used_offset b) + length (pending b) \<le> length (block_bytes (buffer b))" .
  have "buffer b \<noteq> Null"
    using wf ne by (auto simp: wf_recv_def wf_buffer_def unat_eq_0)
  moreover have "pending b =
      take (length (pending b)) (drop (unat (in_used_offset b)) (block_bytes (buffer b)))"
  proof -
    have "length (pending b) = unat (in_offset b) - unat (in_used_offset b)"
      using wf by (simp add: length_pending GetCanUseSize_def wf_recv_def unat_sub)
    then show ?thesis by (simp add: pending_def filled_def drop_take)
  qed
  ultimately show ?thesis
    using DecodePacket_frame [OF length_pending [OF wf] bound] by (simp add: GetCanUseBuffer_def)
qed

lemma mem_read_pending:
  assumes "wf_recv b" and "n \<le> length (pending b)"
  shows "mem_read (buffer b) (unat (in_used_offset b)) n = Inr (take n (pending b))"
proof -
  have "unat (in_used_offset b) + n \<le> length (filled b)"
    using assms by (auto simp: pending_def length_filled wf_recv_def word_le_nat_alt)
  then show ?thesis by (simp add: pending_def mem_read_filled)
qed

definition delivered :: "(byte list \<Rightarrow> 'e) option \<Rightarrow> byte list list \<Rightarrow> 'e list" where
  "delivered deliver ms = (case deliver of None \<Rightarrow> [] | Some f \<Rightarrow> map f ms)"

lemma delivered_simps [simp]:
  "delivered deliver [] = []"
  "delivered deliver (ms @ ms') = delivered deliver ms @ delivered deliver ms'"
  by (cases deliver; simp add: delivered_def)+

lemma delivered_Cons:
  "delivered deliver (m # ms) = delivered deliver [m] @ delivered deliver ms"
  using delivered_simps(2) [of deliver "[m]" ms] by simp

definition received :: "nat option \<Rightarrow> u32 \<Rightarrow> byte list list \<Rightarrow> action list" where
  "received handler sid ms = delivered (on_receive handler sid) ms"

lemma received_Some: "received (Some h) sid ms = map (OnReceive sid) ms"
  by (simp add: received_def delivered_def on_receive_def)

lemma received_Nil [simp]: "received handler sid [] = []"
  by (simp add: received_def)

lemma received_cases: "received handler sid ms = [] \<or> received handler sid ms = map (OnReceive sid) ms"
  by (cases handler) (simp_all add: received_def delivered_def on_receive_def)

text \<open>One round of the loop on a whole packet: the two uses of the buffer and the message between them.\<close>

lemma packet_round:
  assumes wf: "wf_recv b" and frame: "frame ntoh (pending b) = Frame m n"
  defines "b1 \<equiv> snd (DataUse b 8 False)"
  defines "b2 \<equiv> snd (DataUse b1 (of_nat (length m)) False)"
  shows "unat (of_nat (length m) :: size_t) = length m"
    and "mem_read (buffer b1) (unat (in_used_offset b1)) (length m) = Inr m"
    and "wf_recv b2" and "pending b2 = drop n (pending b)"
    and "buf_length b2 = buf_length b" and "used_out_reset b2 = used_out_reset b"
    and "used_out_reset b \<Longrightarrow> in_offset b2 = in_used_offset b2 \<Longrightarrow> in_offset b2 = 0"
    and "in_offset b2 \<noteq> in_used_offset b2 \<Longrightarrow> in_offset b2 = in_offset b"
proof -
  note f = frame_FrameD [OF frame]
  have room: "length m \<le> length (pending b) - 8" using f by linarith
  have "unat (8 :: size_t) \<le> length (pending b)" using f by simp
  note d1 = DataUse_result [OF wf this, of False, folded b1_def]
  have p1: "pending b1 = drop 8 (pending b)" using d1(3) by simp
  show m: "unat (of_nat (length m) :: size_t) = length m" using f by (simp add: unat_of_nat_small)
  have len1: "unat (of_nat (length m) :: size_t) \<le> length (pending b1)" using p1 room m by simp
  show "mem_read (buffer b1) (unat (in_used_offset b1)) (length m) = Inr m"
    using mem_read_pending [OF d1(2), of "length m"] p1 f m len1 by simp
  note d2 = DataUse_result [OF d1(2) len1, of False, folded b2_def]
  show "wf_recv b2" by (rule d2(2))
  show p2: "pending b2 = drop n (pending b)" using d2(3) p1 f m by (simp add: add.commute)
  show "buf_length b2 = buf_length b" using d1(4) d2(4) by simp
  show "used_out_reset b2 = used_out_reset b" by (simp add: b1_def b2_def)
  show "in_offset b2 = 0" if "used_out_reset b" "in_offset b2 = in_used_offset b2"
    using that d2(1) DataUse_drained [of b1 "of_nat (length m)" False] by (simp add: b1_def b2_def)
  assume left: "in_offset b2 \<noteq> in_used_offset b2"
  then have "pending b2 \<noteq> []" using pending_Nil_iff [OF d2(2)] by simp
  then have "pending b1 \<noteq> []" using d2(3) by auto
  then show "in_offset b2 = in_offset b"
    using DataUse_kept [of b 8 False] DataUse_kept [of b1 "of_nat (length m)" False] left
      pending_Nil_iff [OF d1(2)] by (simp add: b1_def b2_def)
qed

lemma handle_read_loop_unframe:
  assumes "wf_recv b" "used_out_reset b" "buf_length b \<noteq> 0"
    and "unframe (frame ntoh) (pending b) = (ms, rest, bad)"
  shows "\<exists>r b'. handle_read_loop ntoh deliver b acts =
      Some (Inr (r, b', acts @ delivered deliver ms)) \<and>
      wf_recv b' \<and> used_out_reset b' \<and> buf_length b' = buf_length b \<and> pending b' = rest \<and>
      (r < 0 \<longleftrightarrow> bad) \<and> (0 < r \<longrightarrow> in_offset b' = 0) \<and> (r = 0 \<and> pending b \<noteq> [] \<longrightarrow> rest \<noteq> []) \<and>
      (r = 0 \<longrightarrow> in_offset b' = in_offset b)"
  using assms
proof (induction "length (pending b)" arbitrary: b ms acts rule: less_induct)
  case less
  note wf = less.prems(1) and flag = less.prems(2) and ne = less.prems(3) and u = less.prems(4)
  note dec = DecodePacket_pending [OF wf ne, of ntoh]
  show ?case
  proof (cases "frame ntoh (pending b)")
    case (Frame m n)
    let ?b1 = "snd (DataUse b 8 False)" and ?b2 = "snd (DataUse (snd (DataUse b 8 False)) (of_nat (length m)) False)"
    note pr = packet_round [OF wf Frame]
    have nonempty: "pending b \<noteq> []" "0 < n" using frame_FrameD [OF Frame] by auto
    have flag2: "used_out_reset ?b2" using pr(6) flag by simp
    have ne2: "buf_length ?b2 \<noteq> 0" using pr(5) ne by simp
    obtain ms' where ms': "unframe (frame ntoh) (pending ?b2) = (ms', rest, bad)" "ms = m # ms'"
      using u Frame nonempty pr(4) by (auto simp: unframe.simps [of _ "pending b"] split: prod.splits)
    let ?acts = "acts @ delivered deliver [m]"
    have step: "handle_read_loop ntoh deliver b acts =
        (if in_offset ?b2 = GetUsedSize ?b2 then Some (Inr (1, ?b2, ?acts))
         else handle_read_loop ntoh deliver ?b2 ?acts)"
      using dec Frame pr(1,2)
      by (subst handle_read_loop.simps) (auto simp: delivered_def Let_def split: option.splits)
    show ?thesis
    proof (cases "in_offset ?b2 = in_used_offset ?b2")
      case True
      then have "pending ?b2 = []" using pending_Nil_iff [OF pr(3)] by simp
      then have "ms' = [] \<and> rest = [] \<and> \<not> bad"
        using ms'(1) by (simp add: unframe.simps frame_Nil)
      moreover have "in_offset ?b2 = 0"
        using True flag by (intro pr(7))
      moreover have "handle_read_loop ntoh deliver b acts = Some (Inr (1, ?b2, ?acts))"
        using step True by (simp add: GetUsedSize_def)
      ultimately show ?thesis
        using pr(3) flag2 pr(5) ms'(2) \<open>pending ?b2 = []\<close> by (intro exI [of _ 1] exI [of _ ?b2]) simp
    next
      case False
      then have ne': "pending ?b2 \<noteq> []" using pending_Nil_iff [OF pr(3)] by simp
      have "length (pending ?b2) < length (pending b)" using pr(4) nonempty by simp
      from less.hyps [OF this pr(3) flag2 ne2 ms'(1), of ?acts] obtain r b' where
        h: "handle_read_loop ntoh deliver ?b2 ?acts =
          Some (Inr (r, b', ?acts @ delivered deliver ms'))"
        "wf_recv b' \<and> used_out_reset b' \<and> buf_length b' = buf_length ?b2 \<and> pending b' = rest \<and>
          (r < 0 \<longleftrightarrow> bad) \<and> (0 < r \<longrightarrow> in_offset b' = 0) \<and>
          (r = 0 \<and> pending ?b2 \<noteq> [] \<longrightarrow> rest \<noteq> []) \<and> (r = 0 \<longrightarrow> in_offset b' = in_offset ?b2)"
        by blast
      from h(1) have "handle_read_loop ntoh deliver b acts =
          Some (Inr (r, b', acts @ delivered deliver ms))"
        using step False ms'(2) delivered_Cons [of deliver m ms'] by (simp add: GetUsedSize_def)
      then show ?thesis using h(2) pr(5) pr(8) False ne' by (intro exI [of _ r] exI [of _ b']) simp
    qed
  next
    case FrameError
    then have "handle_read_loop ntoh deliver b acts = Some (Inr (- 1, b, acts))"
      using dec by (subst handle_read_loop.simps) simp
    moreover have "ms = [] \<and> rest = pending b \<and> bad"
      using u FrameError by (simp add: unframe.simps [of _ "pending b"])
    ultimately show ?thesis using wf flag by simp
  next
    case FrameWait
    then have "handle_read_loop ntoh deliver b acts = Some (Inr (0, b, acts))"
      using dec by (subst handle_read_loop.simps) simp
    moreover have "ms = [] \<and> rest = pending b \<and> \<not> bad"
      using u FrameWait by (simp add: unframe.simps [of _ "pending b"])
    ultimately show ?thesis using wf flag by simp
  qed
qed

subsection \<open>One completed read\<close>

lemma chunk_arrives:
  assumes wf: "wf_recv b" and xs: "length xs \<le> unat (GetLeftInSize b)"
  obtains p b' where "mem_write (buffer b) (unat (in_offset b)) xs = Inr p"
    "DataIn (b\<lparr>buffer := p\<rparr>) (of_nat (length xs)) = (True, b')"
    "wf_recv b'" "pending b' = pending b @ xs" "used_out_reset b' = used_out_reset b"
    "buf_length b' = buf_length b" "unat (in_offset b') = unat (in_offset b) + length xs"
proof -
  let ?n = "of_nat (length xs) :: size_t"
  have wfb: "wf_buffer b" using wf by (rule wf_recvD)
  have n: "unat ?n = length xs"
    using le_less_trans [OF xs unat_lt_2p32] by (simp add: unat_of_nat_small)
  have fits: "unat (in_offset b) + length xs \<le> unat (buf_length b)"
    using xs wf_buffer_in_le [OF wfb] unat_GetLeftInSize [OF wfb] by linarith
  then obtain p where p: "mem_write (buffer b) (unat (in_offset b)) xs = Inr p"
    using mem_write_fits [of "unat (in_offset b)" xs "buffer b"] wfb by (auto simp: wf_buffer_def)
  note w = mem_write_InrD [OF p]
  have "p \<noteq> Wild" using w(4) wfb by (simp add: wf_buffer_def)
  note a = append_in_place [OF wfb n fits w(1) this w(2)]
  note r = recv_append [OF wf a(3,4,2)]
  show ?thesis by (rule that [OF p a(1) r]) (simp_all add: a(2))
qed

lemma socket_read_result:
  assumes wf: "wf_recv (recv_buffer s)" and xs: "length xs \<le> unat (GetLeftInSize (recv_buffer s))"
  obtains p b' where "socket_read s xs = Inr (s\<lparr>recv_buffer := (recv_buffer s)\<lparr>buffer := p\<rparr>\<rparr>)"
    "DataIn ((recv_buffer s)\<lparr>buffer := p\<rparr>) (of_nat (length xs)) = (True, b')"
    "wf_recv b'" "pending b' = pending (recv_buffer s) @ xs"
    "used_out_reset b' = used_out_reset (recv_buffer s)" "buf_length b' = buf_length (recv_buffer s)"
    "unat (in_offset b') = unat (in_offset (recv_buffer s)) + length xs"
  by (rule chunk_arrives [OF assms], rule that) (simp_all add: socket_read_def)

text \<open>What the bytes of one completed read lead to, up to the end of the loop of \<open>handle_read\<close>.\<close>

lemma read_then_loop:
  assumes wf: "wf_session s" and xs: "xs \<noteq> []" "length xs \<le> unat (GetLeftInSize (recv_buffer s))"
    and u: "unframe (frame ntoh) (pending (recv_buffer s) @ xs) = (ms, rest, bad)"
  obtains p r b where "socket_read s xs = Inr (s\<lparr>recv_buffer := (recv_buffer s)\<lparr>buffer := p\<rparr>\<rparr>)"
    "of_nat (length xs) \<noteq> (0 :: size_t)"
    "handle_read_loop ntoh (on_receive (event_handler s) (session_id s))
       (snd (DataIn ((recv_buffer s)\<lparr>buffer := p\<rparr>) (of_nat (length xs)))) [] =
       Some (Inr (r, b, received (event_handler s) (session_id s) ms))"
    "wf_session (s\<lparr>recv_buffer := b\<rparr>)" "buf_length b = buf_length (recv_buffer s)"
    "pending b = rest" "r < 0 \<longleftrightarrow> bad" "0 < r \<Longrightarrow> in_offset b = 0" "r = 0 \<Longrightarrow> rest \<noteq> []"
    "r = 0 \<Longrightarrow> unat (in_offset b) = unat (in_offset (recv_buffer s)) + length xs"
proof -
  have wfr: "wf_recv (recv_buffer s)" using wf by (simp add: wf_session_def)
  obtain p b1 where b1: "socket_read s xs = Inr (s\<lparr>recv_buffer := (recv_buffer s)\<lparr>buffer := p\<rparr>\<rparr>)"
    "DataIn ((recv_buffer s)\<lparr>buffer := p\<rparr>) (of_nat (length xs)) = (True, b1)"
    "wf_recv b1" "pending b1 = pending (recv_buffer s) @ xs"
    "used_out_reset b1 = used_out_reset (recv_buffer s)" "buf_length b1 = buf_length (recv_buffer s)"
    "unat (in_offset b1) = unat (in_offset (recv_buffer s)) + length xs"
    by (rule socket_read_result [OF wfr xs(2)])
  have n0: "of_nat (length xs) \<noteq> (0 :: size_t)"
    using xs le_less_trans [OF xs(2) unat_lt_2p32]
    by (auto simp: word_unat_eq_iff unat_of_nat_small simp del: unat_eq_0)
  have flags: "used_out_reset b1" "buf_length b1 \<noteq> 0"
    using b1(5,6) wf by (simp_all add: wf_session_def)
  obtain r b where b: "handle_read_loop ntoh (on_receive (event_handler s) (session_id s)) b1 [] =
      Some (Inr (r, b, received (event_handler s) (session_id s) ms))"
    "wf_recv b" "used_out_reset b" "buf_length b = buf_length b1" "pending b = rest"
    "r < 0 \<longleftrightarrow> bad" "0 < r \<Longrightarrow> in_offset b = 0" "r = 0 \<Longrightarrow> rest \<noteq> []"
    "r = 0 \<Longrightarrow> in_offset b = in_offset b1"
    using handle_read_loop_unframe [OF b1(3) flags, of ntoh ms rest bad
        "on_receive (event_handler s) (session_id s)" "[]"] u b1(4) xs by (auto simp: received_def)
  show ?thesis
    by (rule that [OF b1(1) n0 _ _ _ b(5-8)])
      (use b1(2,6,7) b(9) b(1-4) wf in \<open>simp_all add: wf_session_def\<close>)
qed

text \<open>
  The limit at which unused bytes are moved to the front is right when it is the one of this
  session's own buffer, or not set yet. Then the next read has room.
\<close>

definition limit_ok :: "session \<Rightarrow> size_t option \<Rightarrow> bool" where
  "limit_ok s limit \<longleftrightarrow>
     8192 \<le> buf_length (recv_buffer s) \<and>
     (limit = None \<or> limit = Some (buf_length (recv_buffer s) - HS_NET_PACKET_MAX_SIZE))"

lemma compaction_makes_room:
  assumes wf: "wf_recv b" "used_out_reset b" and used: "pending b \<noteq> []" "length (pending b) < 8192"
    and big: "8192 \<le> buf_length b" and limit: "limit = buf_length b - HS_NET_PACKET_MAX_SIZE"
  obtains b' where "(if in_offset b \<ge> limit then MoveUnuseData2Begin b else Inr b) = Inr b'"
    "wf_recv b'" "used_out_reset b'" "pending b' = pending b" "buf_length b' = buf_length b"
    "0 < unat (GetLeftInSize b')"
proof (cases "in_offset b \<ge> limit")
  case ge: True
  have lt: "in_used_offset b < in_offset b"
    using used(1) pending_Nil_iff [OF wf(1)] wf(1) by (auto simp: wf_recv_def order_le_less)
  obtain b' where b': "MoveUnuseData2Begin b = Inr b'" "wf_recv b'" "pending b' = pending b"
    "buf_length b' = buf_length b" "unat (in_offset b') = length (pending b)"
    using MoveUnuseData2Begin_result [OF wf(1)] lt by metis
  have "used_out_reset b'"
    using b'(1) wf(2) lt by (auto simp: MoveUnuseData2Begin_def bind_res_Inr_conv Let_def)
  moreover have "0 < unat (GetLeftInSize b')"
    using b' used big unat_GetLeftInSize [OF wf_recvD [OF b'(2)]] by (simp add: word_le_nat_alt)
  ultimately show ?thesis using that b' ge by simp
next
  case less: False
  then have "unat (in_offset b) < unat (buf_length b) - 8192"
    using limit big by (simp add: word_le_nat_alt HS_NET_PACKET_MAX_SIZE_def unat_sub)
  then have "0 < unat (GetLeftInSize b)" using unat_GetLeftInSize [OF wf_recvD [OF wf(1)]] by simp
  then show ?thesis using that wf less by simp
qed

lemma handle_read_bad:
  assumes "wf_session s" "xs \<noteq> []" "length xs \<le> unat (GetLeftInSize (recv_buffer s))"
    and "unframe (frame ntoh) (pending (recv_buffer s) @ xs) = (ms, rest, True)"
  obtains s1 s' where "socket_read s xs = Inr s1"
    "handle_read ntoh limit s1 None (of_nat (length xs)) =
      Some (Inr (limit, s', received (event_handler s) (session_id s) ms @ [CloseSocket]))"
    "wf_session s'" "pending (recv_buffer s') = []" "\<not> connected s'"
    "buf_length (recv_buffer s') = buf_length (recv_buffer s)"
proof -
  from read_then_loop [OF assms] obtain p r b where
    b: "socket_read s xs = Inr (s\<lparr>recv_buffer := (recv_buffer s)\<lparr>buffer := p\<rparr>\<rparr>)"
    "of_nat (length xs) \<noteq> (0 :: size_t)"
    "handle_read_loop ntoh (on_receive (event_handler s) (session_id s))
       (snd (DataIn ((recv_buffer s)\<lparr>buffer := p\<rparr>) (of_nat (length xs)))) [] =
       Some (Inr (r, b, received (event_handler s) (session_id s) ms))"
    "wf_session (s\<lparr>recv_buffer := b\<rparr>)" "r < 0"
    "buf_length b = buf_length (recv_buffer s)" by metis
  obtain s' where s': "session_clear (s\<lparr>recv_buffer := b\<rparr>) = Inr (s', [CloseSocket])"
    "wf_session s'" "pending (recv_buffer s') = []" "\<not> connected s'"
    "buf_length (recv_buffer s') = buf_length (recv_buffer (s\<lparr>recv_buffer := b\<rparr>))"
    using session_clear_result [OF b(4)] by metis
  have "buf_length (recv_buffer s') = buf_length (recv_buffer s)" using s'(5) b(6) by simp
  then show ?thesis
    by (intro that [OF b(1) _ s'(2-4)]) (use b(2,3,5) s'(1) in \<open>simp add: handle_read_def Let_def\<close>)
qed

lemma handle_read_good:
  assumes "wf_session s" "xs \<noteq> []" "length xs \<le> unat (GetLeftInSize (recv_buffer s))"
    and u: "unframe (frame ntoh) (pending (recv_buffer s) @ xs) = (ms, rest, False)"
    and limit: "limit_ok s limit"
  obtains s1 limit' b where "socket_read s xs = Inr s1"
    "handle_read ntoh limit s1 None (of_nat (length xs)) =
      Some (Inr (limit', s\<lparr>recv_buffer := b\<rparr>,
        received (event_handler s) (session_id s) ms @ session_start (s\<lparr>recv_buffer := b\<rparr>)))"
    "wf_session (s\<lparr>recv_buffer := b\<rparr>)" "pending b = rest" "limit_ok (s\<lparr>recv_buffer := b\<rparr>) limit'"
    "0 < unat (GetLeftInSize b)" "buf_length b = buf_length (recv_buffer s)"
proof -
  from read_then_loop [OF assms(1-4)] obtain p r b where
    b: "socket_read s xs = Inr (s\<lparr>recv_buffer := (recv_buffer s)\<lparr>buffer := p\<rparr>\<rparr>)"
    "of_nat (length xs) \<noteq> (0 :: size_t)"
    "handle_read_loop ntoh (on_receive (event_handler s) (session_id s))
       (snd (DataIn ((recv_buffer s)\<lparr>buffer := p\<rparr>) (of_nat (length xs)))) [] =
       Some (Inr (r, b, received (event_handler s) (session_id s) ms))"
    "wf_session (s\<lparr>recv_buffer := b\<rparr>)" "buf_length b = buf_length (recv_buffer s)"
    "pending b = rest" "\<not> r < 0" "0 < r \<longrightarrow> in_offset b = 0" "r = 0 \<longrightarrow> rest \<noteq> []" by metis
  have big: "8192 \<le> buf_length b" using limit b(5) by (simp add: limit_ok_def)
  show ?thesis
  proof (cases "r = 0")
    case False
    then have "in_offset b = 0" using b(7,8) by simp
    moreover have "buf_length b \<noteq> 0" using big by auto
    ultimately have "0 < unat (GetLeftInSize b)" by (simp add: GetLeftInSize_def unat_gt_0)
    moreover have "limit_ok (s\<lparr>recv_buffer := b\<rparr>) limit" using limit b(5) by (simp add: limit_ok_def)
    ultimately show ?thesis
      by (intro that [OF b(1) _ b(4,6)])
        (use b(2,3,5,7) False in \<open>simp_all add: handle_read_def Let_def\<close>)
  next
    case True
    let ?limit = "buf_length b - HS_NET_PACKET_MAX_SIZE"
    have lim: "(case limit of None \<Rightarrow> ?limit | Some m \<Rightarrow> m) = ?limit"
      using limit b(5) by (auto simp: limit_ok_def)
    have "length rest < 8192" using unframe_rest [OF u] by (rule frame_WaitD)
    then obtain b' where b': "(if in_offset b \<ge> ?limit then MoveUnuseData2Begin b else Inr b) = Inr b'"
      "wf_recv b'" "used_out_reset b'" "pending b' = rest" "buf_length b' = buf_length b"
      "0 < unat (GetLeftInSize b')"
      using compaction_makes_room [OF _ _ _ _ big refl] b(4,6,9) True
      by (metis session.select_convs(1) session.surjective session.update_convs(1) wf_session_def)
    have "wf_session (s\<lparr>recv_buffer := b'\<rparr>)" "limit_ok (s\<lparr>recv_buffer := b'\<rparr>) (Some ?limit)"
      using b(4,5) b' limit by (simp_all add: wf_session_def limit_ok_def)
    then show ?thesis
      by (intro that [OF b(1) _ _ b'(4) _ b'(6)])
        (use b(2,3,5) True lim b'(1,5) in \<open>simp_all add: handle_read_def Let_def\<close>)
  qed
qed

end
