(* ===== verification/HS_SessionMgr.thy ===== *)
theory HS_SessionMgr
  imports HS_Session
begin

text \<open>
  The Boost.Asio side of the library around the sessions: the session manager (\<open>hs_sessionmgr\<close>), the
  acceptor, the connector, the channel that is one or the other, the client server, the service
  manager and the singleton template.

  A \<open>session_ptr\<close> is a reference into \<open>store\<close>, the sessions ever created; the null pointer is
  \<open>None\<close>. An asynchronous operation of an acceptor or a connector is recorded when it starts and a
  \<open>completion\<close> ends it. The deadline timer calls \<open>handle_timeout\<close> when it expires and also when it is
  cancelled, because the handler is bound without the error code.
\<close>

section \<open>The session manager\<close>

record session_mgr =
  sessions :: "u32 \<rightharpoonup> nat"
  local_sessions :: "u32 \<rightharpoonup> nat"
  curr_id :: u32
  store :: "session list"

definition HSSessionMgr_new :: session_mgr where
  "HSSessionMgr_new = \<lparr>sessions = Map.empty, local_sessions = Map.empty, curr_id = 0, store = []\<rparr>"

text \<open>\<open>std::map::insert\<close> keeps the entry that is there.\<close>

definition map_insert :: "('k \<rightharpoonup> 'v) \<Rightarrow> 'k \<Rightarrow> 'v \<Rightarrow> ('k \<rightharpoonup> 'v)" where
  "map_insert m k v = (case m k of None \<Rightarrow> m(k \<mapsto> v) | Some _ \<Rightarrow> m)"

definition new_session ::
  "(nat \<Rightarrow> byte) \<Rightarrow> session_mgr \<Rightarrow> size_t \<Rightarrow> size_t \<Rightarrow> nat \<times> session_mgr" where
  "new_session junk m recv_buff_size send_buff_size =
     (let sid = curr_id m + 1; ref = length (store m) in
      (ref, m\<lparr>curr_id := sid, store := store m @ [HSSession_new junk sid recv_buff_size send_buff_size],
              sessions := map_insert (sessions m) sid ref\<rparr>))"

definition get_session :: "session_mgr \<Rightarrow> u32 \<Rightarrow> nat option" where
  "get_session m sid = sessions m sid"

definition remove_session :: "session_mgr \<Rightarrow> u32 \<Rightarrow> bool \<times> session_mgr" where
  "remove_session m sid =
     (if sessions m sid = None then (False, m)
      else (True, m\<lparr>sessions := (sessions m)(sid := None)\<rparr>))"

definition new_local_session ::
  "(nat \<Rightarrow> byte) \<Rightarrow> session_mgr \<Rightarrow> u32 \<Rightarrow> size_t \<Rightarrow> size_t \<Rightarrow> nat option \<times> session_mgr" where
  "new_local_session junk m sid recv_buff_size send_buff_size =
     (case local_sessions m sid of
        Some ref \<Rightarrow> if \<not> connected (store m ! ref) then (Some ref, m) else (None, m)
      | None \<Rightarrow>
          let ref = length (store m) in
          (Some ref, m\<lparr>store := store m @ [HSSession_new junk sid recv_buff_size send_buff_size],
                       local_sessions := map_insert (local_sessions m) sid ref\<rparr>))"

definition get_local_session :: "session_mgr \<Rightarrow> u32 \<Rightarrow> nat option" where
  "get_local_session m sid = local_sessions m sid"

definition set_session :: "session_mgr \<Rightarrow> nat \<Rightarrow> session \<Rightarrow> session_mgr" where
  "set_session m ref s = m\<lparr>store := (store m)[ref := s]\<rparr>"

section \<open>The acceptor\<close>

type_synonym endpoint = nat

text \<open>\<open>HS_NET_PACKET_MAX_SIZE * 4\<close> and \<open>HS_NET_PACKET_MAX_SIZE * 4 * 16\<close>.\<close>

abbreviation CLIENT_SESSION_DATA_BUFFER_DEFAULT_SIZE :: size_t where
  "CLIENT_SESSION_DATA_BUFFER_DEFAULT_SIZE \<equiv> 32768"

abbreviation SERVER_SESSION_DATA_BUFFER_DEFAULT_SIZE :: size_t where
  "SERVER_SESSION_DATA_BUFFER_DEFAULT_SIZE \<equiv> 524288"

record acceptor =
  acc_endpoint :: endpoint
  acc_handler :: "nat option"
  acc_session_id :: u32
  acc_pending :: "nat list"

definition HSAcceptor_new :: "endpoint \<Rightarrow> nat option \<Rightarrow> u32 \<Rightarrow> acceptor" where
  "HSAcceptor_new ep handler sid =
     \<lparr>acc_endpoint = ep, acc_handler = handler, acc_session_id = sid, acc_pending = []\<rparr>"

definition acceptor_start ::
  "(nat \<Rightarrow> byte) \<Rightarrow> acceptor \<Rightarrow> session_mgr \<Rightarrow> acceptor \<times> session_mgr" where
  "acceptor_start junk a m =
     (case (if acc_session_id a = 0
            then (case new_session junk m CLIENT_SESSION_DATA_BUFFER_DEFAULT_SIZE CLIENT_SESSION_DATA_BUFFER_DEFAULT_SIZE of (ref, m) \<Rightarrow> (Some ref, m))
            else new_local_session junk m (acc_session_id a)
              SERVER_SESSION_DATA_BUFFER_DEFAULT_SIZE SERVER_SESSION_DATA_BUFFER_DEFAULT_SIZE) of
        (None, m) \<Rightarrow> (a, m)
      | (Some ref, m) \<Rightarrow> (a\<lparr>acc_pending := acc_pending a @ [ref]\<rparr>, m))"

definition handle_accept ::
  "(nat \<Rightarrow> byte) \<Rightarrow> acceptor \<Rightarrow> session_mgr \<Rightarrow> nat \<Rightarrow> bool \<Rightarrow> acceptor \<times> session_mgr \<times> action list" where
  "handle_accept junk a m ref error =
     (case (if \<not> error then
              (case session_connected (attach_eventhandler (store m ! ref) (acc_handler a)) of
                 (s, acts) \<Rightarrow> (set_session m ref s, acts @ session_start s))
            else (m, [])) of
        (m, acts) \<Rightarrow> (case acceptor_start junk a m of (a, m) \<Rightarrow> (a, m, acts)))"

section \<open>The connector\<close>

record hs_connector_state =
  connected_failed :: bool
  conn_handler :: "nat option"
  conn_timers :: nat
  conn_pending :: "nat list"

definition HSConnector_new :: hs_connector_state where
  "HSConnector_new = \<lparr>connected_failed = False, conn_handler = None, conn_timers = 0, conn_pending = []\<rparr>"

definition connector_connect ::
  "(nat \<Rightarrow> byte) \<Rightarrow> hs_connector_state \<Rightarrow> session_mgr \<Rightarrow> u32 \<Rightarrow> nat option \<Rightarrow>
   (hs_connector_state \<times> session_mgr \<times> action list) res" where
  "connector_connect junk k m sid handler =
     (case new_local_session junk m sid SERVER_SESSION_DATA_BUFFER_DEFAULT_SIZE SERVER_SESSION_DATA_BUFFER_DEFAULT_SIZE of
        (None, m) \<Rightarrow> Inl NullDeref
      | (Some ref, m) \<Rightarrow>
          if connected (store m ! ref) then Inr (k, m, [])
          else
            bind_res (session_clear (store m ! ref)) (\<lambda>(s, acts).
              Inr (k\<lparr>conn_timers := conn_timers k + 1, conn_pending := conn_pending k @ [ref],
                     conn_handler := handler, connected_failed := False\<rparr>,
                   set_session m ref (attach_eventhandler s handler), acts)))"

definition handle_timeout :: "hs_connector_state \<Rightarrow> hs_connector_state" where
  "handle_timeout k = k\<lparr>connected_failed := True\<rparr>"

definition handle_connect ::
  "hs_connector_state \<Rightarrow> session_mgr \<Rightarrow> nat \<Rightarrow> bool \<Rightarrow> hs_connector_state \<times> session_mgr \<times> action list" where
  "handle_connect k m ref error =
     (if \<not> error then
        (case session_connected (store m ! ref) of (s, acts) \<Rightarrow> (k, set_session m ref s, acts))
      else (handle_timeout k, m, []))"

section \<open>The channel\<close>

record channel =
  ch_endpoint :: endpoint
  ch_acceptor :: "acceptor option"
  ch_connector :: "hs_connector_state option"
  ch_handler :: "nat option"
  ch_session_id :: u32
  ch_state :: int

definition HSChannel_new :: channel where
  "HSChannel_new =
     \<lparr>ch_endpoint = 0, ch_acceptor = None, ch_connector = None, ch_handler = None,
      ch_session_id = 0, ch_state = 0\<rparr>"

definition channel_clear :: "channel \<Rightarrow> channel" where
  "channel_clear ch =
     ch\<lparr>ch_acceptor := None, ch_connector := None, ch_handler := None, ch_state := 0\<rparr>"

definition channel_init :: "channel \<Rightarrow> endpoint \<Rightarrow> nat option \<Rightarrow> u32 \<Rightarrow> channel" where
  "channel_init ch ep handler sid =
     ch\<lparr>ch_endpoint := ep, ch_handler := handler, ch_session_id := sid\<rparr>"

definition channel_set_endpoint :: "channel \<Rightarrow> endpoint \<Rightarrow> channel" where
  "channel_set_endpoint ch ep = ch\<lparr>ch_endpoint := ep\<rparr>"

definition channel_set_eventhandler :: "channel \<Rightarrow> nat option \<Rightarrow> channel" where
  "channel_set_eventhandler ch handler = ch\<lparr>ch_handler := handler\<rparr>"

definition channel_set_session_id :: "channel \<Rightarrow> u32 \<Rightarrow> channel" where
  "channel_set_session_id ch sid = ch\<lparr>ch_session_id := sid\<rparr>"

definition listen :: "(nat \<Rightarrow> byte) \<Rightarrow> channel \<Rightarrow> session_mgr \<Rightarrow> channel \<times> session_mgr" where
  "listen junk ch m =
     (if ch_session_id ch = 0 \<or> ch_handler ch = None then (ch, m)
      else
        (case acceptor_start junk
                (case ch_acceptor ch of
                   None \<Rightarrow> HSAcceptor_new (ch_endpoint ch) (ch_handler ch) (ch_session_id ch)
                 | Some a \<Rightarrow> a) m of
           (a, m) \<Rightarrow> (ch\<lparr>ch_acceptor := Some a, ch_state := 2\<rparr>, m)))"

definition channel_connect ::
  "(nat \<Rightarrow> byte) \<Rightarrow> channel \<Rightarrow> session_mgr \<Rightarrow> (channel \<times> session_mgr \<times> action list) res" where
  "channel_connect junk ch m =
     (if ch_session_id ch = 0 \<or> ch_handler ch = None then Inr (ch, m, [])
      else
        bind_res (connector_connect junk
                   (case ch_connector ch of None \<Rightarrow> HSConnector_new | Some k \<Rightarrow> k)
                   m (ch_session_id ch) (ch_handler ch)) (\<lambda>(k, m, acts).
          Inr (ch\<lparr>ch_connector := Some k, ch_state := 1\<rparr>, m, acts)))"

text \<open>
  The completions that \<open>io_service::poll\<close> may run; one that belongs to no operation in progress is not
  run.
\<close>

datatype completion = AcceptDone nat bool | ConnectDone nat bool | TimerDone

fun run_completion ::
  "(nat \<Rightarrow> byte) \<Rightarrow> channel \<times> session_mgr \<times> action list \<Rightarrow> completion \<Rightarrow>
   channel \<times> session_mgr \<times> action list" where
  "run_completion junk (ch, m, acts) (AcceptDone ref error) =
     (case ch_acceptor ch of
        Some a \<Rightarrow>
          if ref \<in> set (acc_pending a) then
            (case handle_accept junk (a\<lparr>acc_pending := remove1 ref (acc_pending a)\<rparr>) m ref error of
               (a, m, acts') \<Rightarrow> (ch\<lparr>ch_acceptor := Some a\<rparr>, m, acts @ acts'))
          else (ch, m, acts)
      | None \<Rightarrow> (ch, m, acts))"
| "run_completion junk (ch, m, acts) (ConnectDone ref error) =
     (case ch_connector ch of
        Some k \<Rightarrow>
          if ref \<in> set (conn_pending k) then
            (case handle_connect (k\<lparr>conn_pending := remove1 ref (conn_pending k)\<rparr>) m ref error of
               (k, m, acts') \<Rightarrow> (ch\<lparr>ch_connector := Some k\<rparr>, m, acts @ acts'))
          else (ch, m, acts)
      | None \<Rightarrow> (ch, m, acts))"
| "run_completion junk (ch, m, acts) TimerDone =
     (case ch_connector ch of
        Some k \<Rightarrow>
          if 0 < conn_timers k
          then (ch\<lparr>ch_connector := Some (handle_timeout (k\<lparr>conn_timers := conn_timers k - 1\<rparr>))\<rparr>, m, acts)
          else (ch, m, acts)
      | None \<Rightarrow> (ch, m, acts))"

text \<open>Both \<open>poll\<close> of the acceptor and of the connector tell their handler when the completions have run.\<close>

definition poll_event :: "nat option \<Rightarrow> action list" where
  "poll_event handler = (case handler of None \<Rightarrow> [] | Some h \<Rightarrow> [OnPoll])"

definition channel_poll ::
  "(nat \<Rightarrow> byte) \<Rightarrow> channel \<Rightarrow> session_mgr \<Rightarrow> completion list \<Rightarrow> channel \<times> session_mgr \<times> action list" where
  "channel_poll junk ch m ready =
     (if ch_state ch = 1 \<and> ch_connector ch \<noteq> None then
        (if connected_failed (the (ch_connector ch))
         then (case listen junk ch m of (ch, m) \<Rightarrow> (ch, m, []))
         else
           (case foldl (run_completion junk) (ch, m, []) ready of
              (ch, m, acts) \<Rightarrow> (ch, m, acts @ poll_event (Option.bind (ch_connector ch) conn_handler))))
      else if ch_state ch = 2 \<and> ch_acceptor ch \<noteq> None then
        (case foldl (run_completion junk) (ch, m, []) ready of
           (ch, m, acts) \<Rightarrow> (ch, m, acts @ poll_event (Option.bind (ch_acceptor ch) acc_handler)))
      else (ch, m, []))"

section \<open>Client server, service manager, singleton\<close>

record client_server =
  srv_handler :: "nat option"
  srv_acceptor :: "acceptor option"

definition server_start ::
  "(nat \<Rightarrow> byte) \<Rightarrow> client_server \<Rightarrow> session_mgr \<Rightarrow> endpoint \<Rightarrow> bool \<times> client_server \<times> session_mgr" where
  "server_start junk srv m ep =
     (case acceptor_start junk (HSAcceptor_new ep (srv_handler srv) 0) m of
        (a, m) \<Rightarrow> (True, srv\<lparr>srv_acceptor := Some a\<rparr>, m))"

definition server_set_eventhandler :: "client_server \<Rightarrow> nat option \<Rightarrow> client_server" where
  "server_set_eventhandler srv handler = srv\<lparr>srv_handler := handler\<rparr>"

definition server_clear :: "client_server \<Rightarrow> client_server" where
  "server_clear srv = srv\<lparr>srv_acceptor := None\<rparr>"

definition MAX_SERVICE_NUM :: nat where "MAX_SERVICE_NUM = 4"

text \<open>The array of \<open>io_service\<close>s is not checked by \<open>get_ios\<close>; an \<open>io_service\<close> is its index.\<close>

definition HSServiceMgr_new :: "nat option list" where
  "HSServiceMgr_new = replicate MAX_SERVICE_NUM None"

definition ios_num :: nat where
  "ios_num = MAX_SERVICE_NUM"

definition get_ios :: "nat \<Rightarrow> nat res" where
  "get_ios index = (if index < MAX_SERVICE_NUM then Inr index else Inl OutOfBounds)"

text \<open>The threads running, one entry per \<open>io_service\<close>; the new thread is the argument.\<close>

definition start_service :: "nat option list \<Rightarrow> nat \<Rightarrow> nat \<Rightarrow> nat option list" where
  "start_service threads index new_thread =
     (if index \<ge> MAX_SERVICE_NUM then threads
      else if threads ! index = None then threads[index := Some new_thread] else threads)"

text \<open>
  \<open>Singleton\<close>: \<open>delete m_pInstance\<close> runs \<open>~T\<close>, which runs \<open>~Singleton\<close>, which is \<open>DestroyInstance\<close>; the
  pointer is reset only afterwards.
\<close>

definition Instance :: "'t option \<Rightarrow> 't \<Rightarrow> 't \<times> 't option" where
  "Instance p new_t = (case p of None \<Rightarrow> (new_t, Some new_t) | Some t \<Rightarrow> (t, p))"

partial_function (option) DestroyInstance :: "'t option \<Rightarrow> 't option option" where
  [code]: "DestroyInstance p =
     (case p of
        None \<Rightarrow> Some None
      | Some _ \<Rightarrow> Option.bind (DestroyInstance p) (\<lambda>_. Some None))"

section \<open>The registry of sessions\<close>

datatype mgr_op = NewSession size_t size_t | RemoveSession u32 | LocalSession u32 size_t size_t

fun mgr_step :: "(nat \<Rightarrow> byte) \<Rightarrow> session_mgr \<Rightarrow> mgr_op \<Rightarrow> session_mgr" where
  "mgr_step junk m (NewSession r w) = snd (new_session junk m r w)"
| "mgr_step junk m (RemoveSession sid) = snd (remove_session m sid)"
| "mgr_step junk m (LocalSession sid r w) = snd (new_local_session junk m sid r w)"

text \<open>Every entry leads to an existing session with its id; no id beyond the counter is in use.\<close>

definition mgr_inv :: "session_mgr \<Rightarrow> bool" where
  "mgr_inv m \<longleftrightarrow>
     (\<forall>sid ref. sessions m sid = Some ref \<longrightarrow>
        ref < length (store m) \<and> session_id (store m ! ref) = sid \<and> sid \<le> curr_id m) \<and>
     (\<forall>sid ref. local_sessions m sid = Some ref \<longrightarrow>
        ref < length (store m) \<and> session_id (store m ! ref) = sid)"

lemma HSSession_new_simps [simp]:
  "session_id (HSSession_new junk sid r w) = sid" "\<not> connected (HSSession_new junk sid r w)"
  by (simp_all add: HSSession_new_def)

lemma nth_append_old: "i < length xs \<Longrightarrow> (xs @ ys) ! i = xs ! i"
  by (simp add: nth_append)

lemma mgr_inv_new:
  assumes inv: "mgr_inv m" and room: "unat (curr_id m) + 1 < 2 ^ 32"
  shows "mgr_inv (snd (new_session junk m r w))" "sessions m (curr_id m + 1) = None"
    and "unat (curr_id (snd (new_session junk m r w))) = unat (curr_id m) + 1"
proof -
  have u: "unat (curr_id m + 1) = unat (curr_id m) + 1" using room by (simp add: unat_add_no_wrap)
  then have lt: "curr_id m < curr_id m + 1" by (simp add: word_less_nat_alt)
  show none: "sessions m (curr_id m + 1) = None"
  proof (rule ccontr)
    assume "sessions m (curr_id m + 1) \<noteq> None"
    then have "curr_id m + 1 \<le> curr_id m" using inv by (auto simp: mgr_inv_def)
    then show False using lt by simp
  qed
  show "mgr_inv (snd (new_session junk m r w))"
    using inv none lt
    by (auto simp: mgr_inv_def new_session_def Let_def map_insert_def nth_append)
      (meson order_trans less_imp_le less_SucI)+
  show "unat (curr_id (snd (new_session junk m r w))) = unat (curr_id m) + 1"
    using u by (simp add: new_session_def Let_def)
qed

lemma mgr_inv_remove: "mgr_inv m \<Longrightarrow> mgr_inv (snd (remove_session m sid))"
  by (auto simp: mgr_inv_def remove_session_def)

lemma mgr_inv_local: "mgr_inv m \<Longrightarrow> mgr_inv (snd (new_local_session junk m sid r w))"
  by (auto simp: mgr_inv_def new_local_session_def Let_def map_insert_def nth_append
      split: option.splits) (meson less_SucI)+

lemma curr_id_other [simp]:
  "curr_id (snd (remove_session m sid)) = curr_id m"
  "curr_id (snd (new_local_session junk m sid r w)) = curr_id m"
  by (auto simp: remove_session_def new_local_session_def Let_def split: option.splits)

lemma mgr_run_inv:
  "mgr_inv m \<Longrightarrow> unat (curr_id m) + length ops < 2 ^ 32 \<Longrightarrow>
   mgr_inv (foldl (mgr_step junk) m ops) \<and>
   unat (curr_id (foldl (mgr_step junk) m ops)) \<le> unat (curr_id m) + length ops"
proof (induction ops arbitrary: m)
  case (Cons x ops)
  have "mgr_inv (mgr_step junk m x)" "unat (curr_id (mgr_step junk m x)) \<le> unat (curr_id m) + 1"
    using mgr_inv_new [OF Cons.prems(1)] mgr_inv_remove [OF Cons.prems(1)]
      mgr_inv_local [OF Cons.prems(1)] Cons.prems(2) by (cases x; fastforce)+
  then show ?case using Cons.IH [of "mgr_step junk m x"] Cons.prems(2) by simp
qed simp

section \<open>Channels: what a run of completions does\<close>

lemma run_completion_session_mgr:
  "ch_acceptor ch = None \<Longrightarrow> \<exists>k m' acts'. run_completion junk (ch, m, acts) c =
     (ch\<lparr>ch_connector := k\<rparr>, m', acts @ acts') \<and> (\<forall>off n. AsyncRead off n \<notin> set acts') \<and>
     (k = None \<longleftrightarrow> ch_connector ch = None)"
proof (cases c)
  case (ConnectDone ref error)
  assume "ch_acceptor ch = None"
  then show ?thesis
    using ConnectDone
    by (cases "ch_connector ch")
      (auto simp: handle_connect_def session_connected_def intro!: exI split: option.splits)
next
  case TimerDone
  assume "ch_acceptor ch = None"
  then show ?thesis using TimerDone by (cases "ch_connector ch") (auto intro!: exI)
qed (auto intro!: exI)

lemma run_completions_no_read:
  "ch_acceptor ch = None \<Longrightarrow> (\<forall>off n. AsyncRead off n \<notin> set acts) \<Longrightarrow>
   foldl (run_completion junk) (ch, m, acts) ready = (ch', m', acts') \<Longrightarrow>
   (\<forall>off n. AsyncRead off n \<notin> set acts') \<and> ch_acceptor ch' = None"
proof (induction ready arbitrary: ch m acts)
  case (Cons c ready)
  obtain k m1 acts1 where r: "run_completion junk (ch, m, acts) c = (ch\<lparr>ch_connector := k\<rparr>, m1, acts @ acts1)"
    "\<forall>off n. AsyncRead off n \<notin> set acts1"
    using run_completion_session_mgr [OF Cons.prems(1)] by blast
  show ?case
    by (rule Cons.IH [of "ch\<lparr>ch_connector := k\<rparr>" "acts @ acts1" m1]) (use Cons.prems r in auto)
qed simp

text \<open>Whether a channel has its acceptor and connector never changes through completions, nor its state.\<close>

lemma run_completion_shape:
  "run_completion junk (ch, m, acts) c = (ch', m', acts') \<Longrightarrow>
   ch_state ch' = ch_state ch \<and> (ch_acceptor ch' = None \<longleftrightarrow> ch_acceptor ch = None) \<and>
   (ch_connector ch' = None \<longleftrightarrow> ch_connector ch = None)"
  by (cases c) (auto split: option.splits if_splits prod.splits)

lemma run_completions_shape:
  "foldl (run_completion junk) (ch, m, acts) ready = (ch', m', acts') \<Longrightarrow>
   ch_state ch' = ch_state ch \<and> (ch_acceptor ch' = None \<longleftrightarrow> ch_acceptor ch = None) \<and>
   (ch_connector ch' = None \<longleftrightarrow> ch_connector ch = None)"
proof (induction ready arbitrary: ch m acts)
  case (Cons c ready)
  obtain ch1 m1 acts1 where r: "run_completion junk (ch, m, acts) c = (ch1, m1, acts1)"
    by (cases "run_completion junk (ch, m, acts) c")
  then have "foldl (run_completion junk) (ch1, m1, acts1) ready = (ch', m', acts')"
    using Cons.prems by simp
  from Cons.IH [OF this] run_completion_shape [OF r] show ?case by simp
qed simp

section \<open>Properties\<close>

text \<open>C29: sessions get unique ids. After any sequence of fewer than 2^32 - 1 operations of the manager, a new
  session has an id that no registered session has, is found under it, and leaves every other entry as
  it was.\<close>

theorem new_session_unique:
  assumes "m = foldl (mgr_step junk) HSSessionMgr_new ops" and "length ops < 2 ^ 32 - 1"
    and "new_session junk m r w = (ref, m')"
  shows "get_session m (curr_id m') = None \<and> get_session m' (curr_id m') = Some ref \<and>
    session_id (store m' ! ref) = curr_id m' \<and> \<not> connected (store m' ! ref) \<and>
    (\<forall>sid. sid \<noteq> curr_id m' \<longrightarrow> get_session m' sid = get_session m sid)"
proof -
  have "mgr_inv HSSessionMgr_new" "curr_id HSSessionMgr_new = 0"
    by (simp_all add: mgr_inv_def HSSessionMgr_new_def)
  then have "mgr_inv m" "unat (curr_id m) + 1 < 2 ^ 32"
    using mgr_run_inv [of HSSessionMgr_new ops junk] assms(1,2) by auto
  from mgr_inv_new(2) [OF this] assms(3) show ?thesis
    by (auto simp: new_session_def Let_def get_session_def map_insert_def)
qed

text \<open>Ids collide after the counter wraps. When the next id is still registered, the new session carries
  that id too but is not registered: the id leads to the old session.\<close>

theorem new_session_collision:
  assumes "get_session m (curr_id m + 1) = Some old" and "old < length (store m)"
    and "new_session junk m r w = (ref, m')"
  shows "session_id (store m' ! ref) = curr_id m + 1 \<and> get_session m' (curr_id m + 1) = Some old \<and> ref \<noteq> old"
  using assms by (auto simp: new_session_def Let_def get_session_def map_insert_def)

text \<open>The acceptor for clients stays armed. When a connection is accepted, its session is connected,
  reported to the handler and reading, and a further accept is pending on a fresh session.\<close>

theorem client_acceptor_rearms:
  assumes "acc_session_id a = 0" and "acc_handler a = Some h" and "ref < length (store m)"
    and "handle_accept junk a m ref False = (a', m', acts)"
  shows "acc_pending a' = acc_pending a @ [length (store m)] \<and>
    connected (store m' ! ref) \<and> event_handler (store m' ! ref) = Some h \<and>
    acts = [OnConnect (session_id (store m ! ref)),
      AsyncRead (in_offset (recv_buffer (store m ! ref))) (GetLeftInSize (recv_buffer (store m ! ref)))] \<and>
    \<not> connected (store m' ! length (store m))"
  using assms
  by (auto simp: handle_accept_def session_connected_def attach_eventhandler_def session_start_def
      acceptor_start_def new_session_def Let_def set_session_def nth_append)


text \<open>The connecting side never reads. However many completions a channel that connects runs in a poll,
  no read is ever started: \<open>handle_connect\<close> reports the connection but does not call \<open>start\<close>.\<close>

theorem connecting_channel_never_reads:
  assumes "ch_acceptor ch = None" and "channel_poll junk ch m ready = (ch', m', acts)"
  shows "AsyncRead off n \<notin> set acts"
  using assms run_completions_no_read [OF assms(1), of "[]" junk m ready ch' m']
  by (auto simp: channel_poll_def poll_event_def split: if_splits prod.splits option.splits)


text \<open>A channel whose connect failed waits for its peer instead: the next poll makes it a listener that
  has an accept pending on the very session of the channel.\<close>

theorem failed_channel_listens:
  assumes "ch_state ch = 1" and "ch_connector ch = Some k" and "ch_acceptor ch = None"
    and "ch_session_id ch \<noteq> 0" and "ch_handler ch = Some h"
    and "ref \<in> set (conn_pending k)" and "\<not> connected_failed k"
    and "local_sessions m (ch_session_id ch) = Some ref" and "\<not> connected (store m ! ref)"
  shows "\<exists>ch1 m1 acts ch2 m2 a. channel_poll junk ch m [ConnectDone ref True] = (ch1, m1, acts) \<and>
    channel_poll junk ch1 m1 [] = (ch2, m2, []) \<and> ch_state ch2 = 2 \<and> ch_acceptor ch2 = Some a \<and>
    acc_pending a = [ref] \<and> acc_handler a = Some h \<and> acc_session_id a = ch_session_id ch"
  using assms
  by (simp add: channel_poll_def handle_connect_def handle_timeout_def
      listen_def acceptor_start_def new_local_session_def HSAcceptor_new_def)

text \<open>Connecting a channel whose session is connected dereferences a null pointer:
  \<open>new_local_session\<close> answers with the null pointer and \<open>HSConnector::connect\<close> does not check it.\<close>

theorem reconnect_dereferences_null:
  assumes "ch_session_id ch \<noteq> 0" and "ch_handler ch \<noteq> None"
    and "get_local_session m (ch_session_id ch) = Some ref" and "connected (store m ! ref)"
  shows "channel_connect junk ch m = Inl NullDeref"
  using assms
  by (simp add: channel_connect_def connector_connect_def new_local_session_def get_local_session_def)

text \<open>Destroying a singleton that exists never returns: \<open>DestroyInstance\<close> deletes the object before it
  resets the pointer, and the destructor of the object calls \<open>DestroyInstance\<close> again.\<close>

theorem DestroyInstance_diverges: "DestroyInstance (Some x) = None"
proof -
  have "p = None" if "DestroyInstance p = Some y" for p :: "'a option" and y
    using that by (rule DestroyInstance.raw_induct [rotated]) (auto split: option.splits bind_splits)
  then show ?thesis by (metis option.distinct(1) option.exhaust)
qed

text \<open>Starting services: a thread that runs is never replaced.\<close>

lemma start_service_keeps:
  "threads ! i = Some t \<Longrightarrow> start_service threads index new_thread ! i = Some t"
  by (cases "i = index") (auto simp: start_service_def)

section \<open>Witnesses\<close>

definition ex_mgr :: "bool \<Rightarrow> session_mgr" where
  "ex_mgr c = \<lparr>sessions = [0 \<mapsto> 0], local_sessions = [7 \<mapsto> 0], curr_id = - 1,
     store = [(HSSession_new (\<lambda>_. 0) 7 16 16)\<lparr>connected := c\<rparr>]\<rparr>"

definition ex_channel :: channel where
  "ex_channel = \<lparr>ch_endpoint = 0, ch_acceptor = None,
     ch_connector = Some \<lparr>connected_failed = False, conn_handler = Some 1, conn_timers = 1, conn_pending = [0]\<rparr>,
     ch_handler = Some 1, ch_session_id = 7, ch_state = 1\<rparr>"

theorem new_session_unique_witness:
  "get_session HSSessionMgr_new 1 = None \<and>
   get_session (snd (new_session (\<lambda>_. 0) HSSessionMgr_new 8 8)) 1 = Some 0"
  using new_session_unique [of HSSessionMgr_new "\<lambda>_. 0" "[]" 8 8 0
      "snd (new_session (\<lambda>_. 0) HSSessionMgr_new 8 8)"]
  by (simp add: new_session_def HSSessionMgr_new_def Let_def)

theorem new_session_collision_witness:
  "session_id (store (snd (new_session (\<lambda>_. 0) (ex_mgr True) 8 8)) ! 1) = 0 \<and>
   get_session (snd (new_session (\<lambda>_. 0) (ex_mgr True) 8 8)) 0 = Some 0"
  using new_session_collision [of "ex_mgr True" 0 "\<lambda>_. 0" 8 8 1
      "snd (new_session (\<lambda>_. 0) (ex_mgr True) 8 8)"]
  by (simp add: new_session_def ex_mgr_def Let_def get_session_def)

theorem client_acceptor_rearms_witness:
  "\<exists>a' m' acts. handle_accept (\<lambda>_. 0) (HSAcceptor_new 0 (Some 1) 0) (ex_mgr False) 0 False = (a', m', acts) \<and>
     acc_pending a' = [1] \<and> connected (store m' ! 0)"
proof -
  obtain a' m' acts where
    h: "handle_accept (\<lambda>_. 0) (HSAcceptor_new 0 (Some 1) 0) (ex_mgr False) 0 False = (a', m', acts)"
    by (rule prod_cases3)
  from client_acceptor_rearms [OF _ _ _ h, of 1] h show ?thesis
    by (simp add: HSAcceptor_new_def ex_mgr_def)
qed


theorem connecting_channel_never_reads_witness:
  "\<exists>ch m acts. channel_poll (\<lambda>_. 0) ex_channel (ex_mgr False) [ConnectDone 0 False] = (ch, m, acts) \<and>
     connected (store m ! 0) \<and> AsyncRead 0 16 \<notin> set acts"
proof -
  obtain ch m acts where
    p: "channel_poll (\<lambda>_. 0) ex_channel (ex_mgr False) [ConnectDone 0 False] = (ch, m, acts)"
    by (rule prod_cases3)
  have "connected (store m ! 0)"
    using p by (auto simp: channel_poll_def ex_channel_def ex_mgr_def handle_connect_def
        session_connected_def set_session_def HSSession_new_def)
  with connecting_channel_never_reads [OF _ p] p show ?thesis by (simp add: ex_channel_def)
qed


theorem failed_channel_listens_witness:
  "\<exists>ch1 m1 acts ch2 m2 a.
    channel_poll (\<lambda>_. 0) ex_channel (ex_mgr False) [ConnectDone 0 True] = (ch1, m1, acts) \<and>
    channel_poll (\<lambda>_. 0) ch1 m1 [] = (ch2, m2, []) \<and> ch_state ch2 = 2 \<and> ch_acceptor ch2 = Some a \<and>
    acc_pending a = [0] \<and> acc_handler a = Some 1 \<and> acc_session_id a = ch_session_id ex_channel"
  by (rule failed_channel_listens [where k = "the (ch_connector ex_channel)"]) (simp_all add: ex_channel_def ex_mgr_def)

theorem reconnect_dereferences_null_witness:
  "channel_connect (\<lambda>_. 0) ex_channel (ex_mgr True) = Inl NullDeref"
  by (rule reconnect_dereferences_null [where ref = 0])
    (simp_all add: ex_channel_def ex_mgr_def get_local_session_def)

end
