(* ===== verification/HS_ClientServer.thy ===== *)
theory HS_ClientServer
  imports HS_SessionMgr
begin

text \<open>
  The server for clients (\<open>hs_server.h\<close>) with its acceptor (\<open>hs_acceptor.h\<close>), the registry of sessions
  (\<open>hs_sessionmgr\<close>) and the start of a session together. A completed accept is the session it was started
  for and whether it failed; one that belongs to no accept in progress is not run.
\<close>

section \<open>Running and polling the server\<close>

fun run_accept ::
  "(nat \<Rightarrow> byte) \<Rightarrow> client_server \<times> session_mgr \<times> action list \<Rightarrow> nat \<times> bool \<Rightarrow>
   client_server \<times> session_mgr \<times> action list" where
  "run_accept junk (srv, m, acts) (ref, error) =
     (case srv_acceptor srv of
        None \<Rightarrow> (srv, m, acts)
      | Some a \<Rightarrow>
          if ref \<in> set (acc_pending a) then
            (case handle_accept junk (a\<lparr>acc_pending := remove1 ref (acc_pending a)\<rparr>) m ref error of
               (a, m, acts') \<Rightarrow> (srv\<lparr>srv_acceptor := Some a\<rparr>, m, acts @ acts'))
          else (srv, m, acts))"

definition server_run ::
  "(nat \<Rightarrow> byte) \<Rightarrow> client_server \<Rightarrow> session_mgr \<Rightarrow> (nat \<times> bool) list \<Rightarrow> client_server \<times> session_mgr \<times> action list" where
  "server_run junk srv m ready =
     (if srv_acceptor srv \<noteq> None then foldl (run_accept junk) (srv, m, []) ready else (srv, m, []))"

definition server_poll ::
  "(nat \<Rightarrow> byte) \<Rightarrow> client_server \<Rightarrow> session_mgr \<Rightarrow> (nat \<times> bool) list \<Rightarrow> client_server \<times> session_mgr \<times> action list" where
  "server_poll junk srv m ready =
     (if srv_acceptor srv \<noteq> None then
        (case foldl (run_accept junk) (srv, m, []) ready of
           (srv, m, acts) \<Rightarrow> (srv, m, acts @ poll_event (Option.bind (srv_acceptor srv) acc_handler)))
      else (srv, m, []))"

text \<open>A program that polls its server again and again.\<close>

fun server_polls ::
  "(nat \<Rightarrow> byte) \<Rightarrow> client_server \<Rightarrow> session_mgr \<Rightarrow> (nat \<times> bool) list list \<Rightarrow> client_server \<times> session_mgr \<times> action list" where
  "server_polls junk srv m [] = (srv, m, [])"
| "server_polls junk srv m (ready # rest) =
     (case server_poll junk srv m ready of
        (srv, m, acts) \<Rightarrow> (case server_polls junk srv m rest of (srv, m, acts') \<Rightarrow> (srv, m, acts @ acts')))"

section \<open>The invariant of an accepting server\<close>

text \<open>The ids of the clients that were reported to the handler.\<close>

fun client_ids :: "action list \<Rightarrow> u32 list" where
  "client_ids [] = []"
| "client_ids (OnConnect sid # acts) = sid # client_ids acts"
| "client_ids (_ # acts) = client_ids acts"

lemma client_ids_append [simp]: "client_ids (acts @ acts') = client_ids acts @ client_ids acts'"
  by (induction acts rule: client_ids.induct) simp_all

lemma client_ids_poll [simp]: "client_ids (poll_event h) = []"
  by (simp add: poll_event_def split: option.splits)

text \<open>No byte has come from or gone to any of the clients yet.\<close>

definition fresh_client :: "session \<Rightarrow> bool" where
  "fresh_client s \<longleftrightarrow> wf_session s \<and> \<not> handle_sending s \<and> pending (recv_buffer s) = [] \<and>
     buf_length (recv_buffer s) = 32768 \<and> GetLeftInSize (recv_buffer s) = 32768 \<and>
     buf_length (send_buffer s) = 32768 \<and> in_offset (send_buffer s) = 0 \<and> (connected s \<longrightarrow> event_handler s \<noteq> None)"

lemma fresh_client_new: "fresh_client (HSSession_new junk sid 32768 32768)"
  using wf_HSSession_new [of 32768 32768 junk sid]
  by (simp add: fresh_client_def HSSession_new_def new_abs)
    (simp add: HSRecvBuffer_new_def HSSendBuffer_new_def HSBuffer_new_def GetLeftInSize_def hs_buffer.defs hs_recv_buffer.defs hs_send_buffer.defs)

text \<open>One accept is pending, on the newest session, which is registered but not connected; the clients
  reported so far are registered under ids of their own and connected.\<close>

definition serving :: "nat \<Rightarrow> client_server \<Rightarrow> session_mgr \<Rightarrow> u32 list \<Rightarrow> bool" where
  "serving h srv m ids \<longleftrightarrow> mgr_inv m \<and>
     (\<exists>a ref. srv_acceptor srv = Some a \<and> acc_session_id a = 0 \<and> acc_handler a = Some h \<and>
       acc_pending a = [ref] \<and> sessions m (curr_id m) = Some ref \<and> \<not> connected (store m ! ref)) \<and>
     distinct ids \<and> (\<forall>sid\<in>set ids. \<exists>ref. sid < curr_id m \<and> sessions m sid = Some ref \<and> connected (store m ! ref) \<and>
       event_handler (store m ! ref) = Some h) \<and> (\<forall>s\<in>set (store m). fresh_client s)"

lemma servingD:
  assumes "serving h srv m ids"
  obtains a ref where "srv_acceptor srv = Some a" "acc_session_id a = 0" "acc_handler a = Some h" "acc_pending a = [ref]"
    "get_session m (curr_id m) = Some ref" "ref < length (store m)" "session_id (store m ! ref) = curr_id m"
    "\<not> connected (store m ! ref)"
  using assms unfolding serving_def mgr_inv_def get_session_def by blast

lemma mgr_inv_set_session:
  assumes "mgr_inv m" "session_id s = session_id (store m ! ref)"
  shows "mgr_inv (set_session m ref s)"
proof -
  have "session_id ((store m)[ref := s] ! i) = session_id (store m ! i)" for i
    using assms(2) by (cases "ref < length (store m)"; cases "i = ref") (simp_all add: list_update_beyond)
  then show ?thesis using assms(1) by (simp add: mgr_inv_def set_session_def)
qed

lemma set_session_simps [simp]:
  "curr_id (set_session m ref s) = curr_id m" "sessions (set_session m ref s) = sessions m"
  "length (store (set_session m ref s)) = length (store m)"
  "ref < length (store m) \<Longrightarrow> store (set_session m ref s) ! i = (if i = ref then s else store m ! i)"
  by (auto simp: set_session_def nth_list_update)

lemma new_session_result:
  assumes "mgr_inv m" "unat (curr_id m) + 1 < 2 ^ 32" "new_session junk m r w = (ref, m')"
  shows "ref = length (store m)" "mgr_inv m'" "curr_id m' = curr_id m + 1" "curr_id m < curr_id m'"
    "sessions m' = (sessions m)(curr_id m + 1 \<mapsto> ref)" "unat (curr_id m') = unat (curr_id m) + 1"
    "store m' = store m @ [HSSession_new junk (curr_id m + 1) r w]"
proof -
  note fresh = mgr_inv_new(1) [OF assms(1,2), of junk r w] mgr_inv_new(2) [OF assms(1,2)]
    mgr_inv_new(3) [OF assms(1,2), of junk r w]
  show "ref = length (store m)" "curr_id m' = curr_id m + 1" "sessions m' = (sessions m)(curr_id m + 1 \<mapsto> ref)"
    "store m' = store m @ [HSSession_new junk (curr_id m + 1) r w]"
    using assms(3) fresh(2) by (auto simp: new_session_def Let_def map_insert_def)
  show "mgr_inv m'" "unat (curr_id m') = unat (curr_id m) + 1" using fresh(1,3) assms(3) by simp_all
  then show "curr_id m < curr_id m'" by (simp add: word_less_nat_alt)
qed

text \<open>A registry with one more client, or with none after a failed accept, and the next accept.\<close>

lemma serving_next:
  assumes inv: "mgr_inv m" and room: "unat (curr_id m) + 1 < 2 ^ 32"
    and a: "acc_session_id a = 0" "acc_handler a = Some h" "acc_pending a = []"
    and ids: "distinct ids" "\<forall>sid\<in>set ids. \<exists>ref. sid \<le> curr_id m \<and> sessions m sid = Some ref \<and>
      connected (store m ! ref) \<and> event_handler (store m ! ref) = Some h"
    and fresh: "\<forall>s\<in>set (store m). fresh_client s" and start: "acceptor_start junk a m = (a', m')"
  shows "serving h (srv\<lparr>srv_acceptor := Some a'\<rparr>) m' ids \<and> unat (curr_id m') \<le> unat (curr_id m) + 1"
proof -
  obtain ref where new: "new_session junk m 32768 32768 = (ref, m')" and a': "a' = a\<lparr>acc_pending := [ref]\<rparr>"
    using start a by (auto simp: acceptor_start_def split: prod.splits)
  note r = new_session_result [OF inv room new]
  have old: "\<exists>ref. sid < curr_id m' \<and> sessions m' sid = Some ref \<and> connected (store m' ! ref) \<and>
      event_handler (store m' ! ref) = Some h" if sid: "sid \<in> set ids" for sid
  proof -
    obtain i where i: "sid \<le> curr_id m" "sessions m sid = Some i" "connected (store m ! i)"
      "event_handler (store m ! i) = Some h" using bspec [OF ids(2) sid] by (elim exE conjE)
    then have "i < length (store m)" using inv by (auto simp: mgr_inv_def)
    moreover have "sid < curr_id m'" using i(1) r(4) by (rule le_less_trans)
    moreover have "sid \<noteq> curr_id m + 1" using calculation(2) r(3) by auto
    ultimately have "sid < curr_id m'" "sessions m' sid = Some i" "store m' ! i = store m ! i"
      using i(2) r(5,7) by (simp_all add: nth_append)
    then show ?thesis using i(3,4) by auto
  qed
  moreover have "\<forall>s\<in>set (store m'). fresh_client s" using fresh r(7) fresh_client_new by simp
  ultimately show ?thesis using ids(1) a a' r by (auto simp: serving_def)
qed

lemma serving_accept:
  assumes serving: "serving h srv m ids" and room: "unat (curr_id m) + 1 < 2 ^ 32"
  shows "\<exists>srv' m' acts'. run_accept junk (srv, m, acts) x = (srv', m', acts @ acts') \<and>
    serving h srv' m' (ids @ client_ids acts') \<and> unat (curr_id m') \<le> unat (curr_id m) + 1"
proof -
  obtain a ref where a: "srv_acceptor srv = Some a" "acc_session_id a = 0" "acc_handler a = Some h" "acc_pending a = [ref]"
    "get_session m (curr_id m) = Some ref" "ref < length (store m)" "session_id (store m ! ref) = curr_id m"
    using servingD [OF serving] by metis
  have inv: "mgr_inv m" "distinct ids" and ids: "\<forall>sid\<in>set ids. \<exists>ref. sid < curr_id m \<and> sessions m sid = Some ref \<and>
      connected (store m ! ref) \<and> event_handler (store m ! ref) = Some h" and fresh: "\<forall>s\<in>set (store m). fresh_client s"
    using serving by (auto simp: serving_def)
  let ?a = "a\<lparr>acc_pending := []\<rparr>"
  obtain i error where x: "x = (i, error)" by (cases x)
  show ?thesis
  proof (cases "i = ref")
    case False
    then show ?thesis using a x serving by (intro exI [of _ srv] exI [of _ m] exI [of _ "[]"]) simp
  next
    case True
    show ?thesis
    proof (cases error)
      case True
      obtain a' m' where start: "acceptor_start junk ?a m = (a', m')" by fastforce
      have "\<forall>sid\<in>set ids. \<exists>ref. sid \<le> curr_id m \<and> sessions m sid = Some ref \<and>
          connected (store m ! ref) \<and> event_handler (store m ! ref) = Some h" using ids less_imp_le by blast
      from serving_next [OF inv(1) room _ _ _ inv(2) this fresh start, of srv] show ?thesis
        using \<open>i = ref\<close> True a x start
        by (intro exI [of _ "srv\<lparr>srv_acceptor := Some a'\<rparr>"] exI [of _ m'] exI [of _ "[]"]) (simp add: handle_accept_def)
    next
      case False
      let ?s = "(store m ! ref)\<lparr>event_handler := Some h, connected := True\<rparr>"
      let ?m = "set_session m ref ?s"
      obtain a' m' where start: "acceptor_start junk ?a ?m = (a', m')" by fastforce
      have inv': "mgr_inv ?m" by (rule mgr_inv_set_session [OF inv(1)]) simp
      have "curr_id m \<notin> set ids" using ids by auto
      then have dist: "distinct (ids @ [curr_id m])" using inv(2) by simp
      have old: "\<forall>sid\<in>set (ids @ [curr_id m]). \<exists>i. sid \<le> curr_id ?m \<and> sessions ?m sid = Some i \<and>
          connected (store ?m ! i) \<and> event_handler (store ?m ! i) = Some h"
        using ids a(5,6) by (fastforce simp: get_session_def)
      have "fresh_client ?s" using fresh nth_mem [OF a(6)] by (auto simp: fresh_client_def wf_session_def)
      then have fresh': "\<forall>s\<in>set (store ?m). fresh_client s"
        using fresh set_update_subset_insert [of "store m" ref ?s] by (auto simp: set_session_def)
      from serving_next [OF inv' _ _ _ _ dist old fresh' start, of srv] show ?thesis
        using \<open>i = ref\<close> False a x start room
        by (intro exI [of _ "srv\<lparr>srv_acceptor := Some a'\<rparr>"] exI [of _ m']
            exI [of _ "OnConnect (curr_id m) # session_start ?s"])
          (simp add: handle_accept_def session_connected_def attach_eventhandler_def session_start_def)
    qed
  qed
qed

lemma serving_accepts:
  assumes "serving h srv m ids" and "unat (curr_id m) + length ready < 2 ^ 32"
  shows "\<exists>srv' m' acts'. foldl (run_accept junk) (srv, m, acts) ready = (srv', m', acts @ acts') \<and>
    serving h srv' m' (ids @ client_ids acts') \<and> unat (curr_id m') \<le> unat (curr_id m) + length ready"
  using assms
proof (induction ready arbitrary: srv m ids acts)
  case Nil
  then show ?case by (intro exI [of _ srv] exI [of _ m] exI [of _ "[]"]) simp
next
  case (Cons x ready)
  have "unat (curr_id m) + 1 < 2 ^ 32" using Cons.prems(2) by simp
  from serving_accept [OF Cons.prems(1) this, of junk acts x]
  obtain srv1 m1 acts1 where 1: "run_accept junk (srv, m, acts) x = (srv1, m1, acts @ acts1)"
    "serving h srv1 m1 (ids @ client_ids acts1)" "unat (curr_id m1) \<le> unat (curr_id m) + 1" by blast
  have "unat (curr_id m1) + length ready < 2 ^ 32" using 1(3) Cons.prems(2) by simp
  from Cons.IH [OF 1(2) this, of "acts @ acts1"]
  obtain srv2 m2 acts2 where "foldl (run_accept junk) (srv1, m1, acts @ acts1) ready = (srv2, m2, (acts @ acts1) @ acts2)"
    "serving h srv2 m2 ((ids @ client_ids acts1) @ client_ids acts2)"
    "unat (curr_id m2) \<le> unat (curr_id m1) + length ready" by blast
  then show ?case using 1 by (intro exI [of _ srv2] exI [of _ m2] exI [of _ "acts1 @ acts2"]) simp
qed

lemma serving_polls:
  assumes "serving h srv m ids" and "unat (curr_id m) + length (concat readys) < 2 ^ 32"
  shows "\<exists>srv' m' acts. server_polls junk srv m readys = (srv', m', acts) \<and>
    serving h srv' m' (ids @ client_ids acts)"
  using assms
proof (induction readys arbitrary: srv m ids)
  case (Cons ready readys)
  have "unat (curr_id m) + length ready < 2 ^ 32" using Cons.prems(2) by simp
  from serving_accepts [OF Cons.prems(1) this, of junk "[]"]
  obtain srv1 m1 acts1 where 1: "foldl (run_accept junk) (srv, m, []) ready = (srv1, m1, acts1)"
    "serving h srv1 m1 (ids @ client_ids acts1)" "unat (curr_id m1) \<le> unat (curr_id m) + length ready" by auto
  have "srv_acceptor srv \<noteq> None" using Cons.prems(1) by (auto simp: serving_def)
  then obtain acts2 where p: "server_poll junk srv m ready = (srv1, m1, acts1 @ acts2)" "client_ids acts2 = []"
    using 1(1) by (simp add: server_poll_def)
  have "unat (curr_id m1) + length (concat readys) < 2 ^ 32" using 1(3) Cons.prems(2) by simp
  from Cons.IH [OF 1(2) this] p show ?case by fastforce
qed simp

text \<open>A server that was started and polled.\<close>

lemma server_serving:
  assumes "server_start junk (server_set_eventhandler srv0 (Some h)) HSSessionMgr_new ep = (ok, srv1, m1)"
    and "length (concat readys) < 2 ^ 32 - 1" and "server_polls junk srv1 m1 readys = (srv, m, acts)"
  shows "serving h srv m (client_ids acts)"
proof -
  have "mgr_inv HSSessionMgr_new" "unat (curr_id HSSessionMgr_new) + 1 < 2 ^ 32"
    by (simp_all add: mgr_inv_def HSSessionMgr_new_def)
  from serving_next [OF this, of "HSAcceptor_new ep (Some h) 0" h "[]" junk] assms(1)
  have "serving h srv1 m1 []" "unat (curr_id m1) \<le> 1"
    by (auto simp: server_start_def server_set_eventhandler_def HSAcceptor_new_def HSSessionMgr_new_def split: prod.splits)
  then show ?thesis using serving_polls [of h srv1 m1 "[]" readys junk] assms(2,3) by auto
qed

section \<open>Property\<close>



end
