(* ===== verification/HS_SessionStream.thy ===== *)
theory HS_SessionStream
  imports HS_Session "HOL-Library.Sublist"
begin

text \<open>
  A session at work. \<open>net_run\<close> drives the receiving side: the socket completes one read after the
  other, each with as many bytes as the schedule asks for, the window of the buffer allows and the
  stream still has. \<open>write_step\<close> is the sending side: calls of \<open>send\<close> interleaved with completions of
  the asynchronous writes, in any order.
\<close>

section \<open>Receiving a whole stream\<close>

fun messages :: "action list \<Rightarrow> byte list list" where
  "messages [] = []"
| "messages (OnReceive _ m # acts) = m # messages acts"
| "messages (_ # acts) = messages acts"

lemma messages_append [simp]: "messages (xs @ ys) = messages xs @ messages ys"
  by (induction xs rule: messages.induct) auto

lemma messages_received [simp]: "messages (received (Some h) sid ms) = ms"
  by (simp add: received_Some, induction ms) auto

lemma messages_start [simp]: "messages (session_start s) = []"
  by (simp add: session_start_def)

fun net_run ::
  "(u32 \<Rightarrow> u32) \<Rightarrow> size_t option \<Rightarrow> session \<Rightarrow> byte list \<Rightarrow> nat list \<Rightarrow>
   (size_t option \<times> session \<times> action list \<times> byte list) res option" where
  "net_run ntoh limit s stream [] = Some (Inr (limit, s, [], stream))"
| "net_run ntoh limit s stream (k # ks) =
     (let n = min (Suc k) (min (length stream) (unat (GetLeftInSize (recv_buffer s)))) in
      if n = 0 then Some (Inr (limit, s, [], stream))
      else
        (case socket_read s (take n stream) of
           Inl e \<Rightarrow> Some (Inl e)
         | Inr s \<Rightarrow>
             (case handle_read ntoh limit s None (of_nat n) of
                None \<Rightarrow> None
              | Some (Inl e) \<Rightarrow> Some (Inl e)
              | Some (Inr (limit, s, acts)) \<Rightarrow>
                  if CloseSocket \<in> set acts then Some (Inr (limit, s, acts, drop n stream))
                  else
                    (case net_run ntoh limit s (drop n stream) ks of
                       Some (Inr (limit, s, acts', stream')) \<Rightarrow>
                         Some (Inr (limit, s, acts @ acts', stream'))
                     | r \<Rightarrow> r))))"

lemma net_run_good:
  assumes "net_order hton ntoh"
  shows "wf_session s \<Longrightarrow> event_handler s = Some h \<Longrightarrow> limit_ok s limit \<Longrightarrow>
    0 < unat (GetLeftInSize (recv_buffer s)) \<Longrightarrow>
    unframe (frame ntoh) (pending (recv_buffer s)) = ([], pending (recv_buffer s), False) \<Longrightarrow>
    unframe (frame ntoh) (pending (recv_buffer s) @ stream) = (ms, [], False) \<Longrightarrow>
    \<exists>limit' s' acts rem ms'. net_run ntoh limit s stream ks = Some (Inr (limit', s', acts, rem)) \<and>
      wf_session s' \<and> CloseSocket \<notin> set acts \<and> ms = messages acts @ ms' \<and>
      unframe (frame ntoh) (pending (recv_buffer s')) = ([], pending (recv_buffer s'), False) \<and>
      unframe (frame ntoh) (pending (recv_buffer s') @ rem) = (ms', [], False) \<and>
      length rem \<le> length stream - length ks"
proof (induction ks arbitrary: limit s stream ms)
  case Nil
  then show ?case by simp
next
  case (Cons k ks)
  obtain n where n_def: "n = min (Suc k) (min (length stream) (unat (GetLeftInSize (recv_buffer s))))"
    by simp
  show ?case
  proof (cases "stream = []")
    case True
    then show ?thesis using Cons.prems by simp
  next
    case False
    then have n: "0 < n" using Cons.prems(4) n_def by simp
    let ?xs = "take n stream"
    have xs: "?xs \<noteq> []" "length ?xs \<le> unat (GetLeftInSize (recv_buffer s))" "length ?xs = n"
      using n n_def by auto
    have "unframe (frame ntoh) (pending (recv_buffer s) @ ?xs @ drop n stream) = (ms, [], False)"
      using Cons.prems(6) by simp
    then obtain ms1 r1 ms2 where
      sp: "unframe (frame ntoh) (pending (recv_buffer s) @ ?xs) = (ms1, r1, False)"
      "unframe (frame ntoh) (r1 @ drop n stream) = (ms2, [], False)" "ms = ms1 @ ms2"
      "unframe (frame ntoh) r1 = ([], r1, False)"
      by (rule net_order.stream_split [OF assms])
    obtain s1 limit1 b where h: "socket_read s ?xs = Inr s1"
      "handle_read ntoh limit s1 None (of_nat (length ?xs)) = Some (Inr (limit1,
        s\<lparr>recv_buffer := b\<rparr>, received (Some h) (session_id s) ms1 @
        session_start (s\<lparr>recv_buffer := b\<rparr>)))"
      "wf_session (s\<lparr>recv_buffer := b\<rparr>)" "pending b = r1" "limit_ok (s\<lparr>recv_buffer := b\<rparr>) limit1"
      "0 < unat (GetLeftInSize b)"
      using handle_read_good [OF Cons.prems(1) xs(1,2) sp(1) Cons.prems(3)] Cons.prems(2) by metis
    let ?acts = "received (Some h) (session_id s) ms1 @ session_start (s\<lparr>recv_buffer := b\<rparr>)"
    have no_close: "CloseSocket \<notin> set ?acts" by (auto simp: received_Some session_start_def)
    obtain limit' s' acts rem ms' where
      ih: "net_run ntoh limit1 (s\<lparr>recv_buffer := b\<rparr>) (drop n stream) ks =
        Some (Inr (limit', s', acts, rem))" "wf_session s'" "CloseSocket \<notin> set acts"
      "ms2 = messages acts @ ms'"
      "unframe (frame ntoh) (pending (recv_buffer s')) = ([], pending (recv_buffer s'), False)"
      "unframe (frame ntoh) (pending (recv_buffer s') @ rem) = (ms', [], False)"
      "length rem \<le> length (drop n stream) - length ks"
      using Cons.IH [of "s\<lparr>recv_buffer := b\<rparr>" limit1 "drop n stream" ms2] h(3-6) sp(2,4)
        Cons.prems(2) by auto
    have "net_run ntoh limit s stream (k # ks) = Some (Inr (limit', s', ?acts @ acts, rem))"
      using n h(1,2) ih(1) no_close xs(3) by (simp add: Let_def flip: n_def)
    moreover have "length rem \<le> length stream - length (k # ks)" using ih(7) n by simp
    ultimately show ?thesis using ih(2-6) no_close sp(3)
      by (intro exI [of _ limit'] exI [of _ s'] exI [of _ "?acts @ acts"] exI [of _ rem]
          exI [of _ ms']) simp
  qed
qed

text \<open>The stream of a good peer.\<close>

lemma stream_received:
  assumes "net_order hton ntoh" "wf_session s" "event_handler s = Some h" "limit_ok s limit"
    and "pending (recv_buffer s) = []" "0 < unat (GetLeftInSize (recv_buffer s))"
    and "\<forall>m\<in>set ms. length m \<le> 8184"
    and "length (concat (map (packet hton) ms)) \<le> length ks"
  shows "\<exists>limit' s' acts. net_run ntoh limit s (concat (map (packet hton) ms)) ks =
      Some (Inr (limit', s', acts, [])) \<and> messages acts = ms \<and> CloseSocket \<notin> set acts \<and>
      pending (recv_buffer s') = []"
proof -
  let ?stream = "concat (map (packet hton) ms)"
  have "list_all packet_ok ms" using assms(7) by (simp add: list_all_iff packet_ok_def)
  then have "unframe (frame ntoh) (pending (recv_buffer s) @ ?stream) = (ms, [], False)"
    using net_order.stream_packets [OF assms(1)] assms(5) by simp
  moreover have "unframe (frame ntoh) (pending (recv_buffer s)) = ([], pending (recv_buffer s), False)"
    using net_order.stream_Nil [OF assms(1)] assms(5) by simp
  ultimately obtain limit' s' acts rem ms' where
    r: "net_run ntoh limit s ?stream ks = Some (Inr (limit', s', acts, rem))" "wf_session s'"
    "CloseSocket \<notin> set acts" "ms = messages acts @ ms'"
    "unframe (frame ntoh) (pending (recv_buffer s')) = ([], pending (recv_buffer s'), False)"
    "unframe (frame ntoh) (pending (recv_buffer s') @ rem) = (ms', [], False)"
    "length rem \<le> length ?stream - length ks"
    using net_run_good [OF assms(1-4,6), of ?stream ms ks] by blast
  have "rem = []" using r(7) assms(8) by simp
  then have "ms' = [] \<and> pending (recv_buffer s') = []" using r(5,6) by simp
  with \<open>rem = []\<close> show ?thesis using r by simp
qed

text \<open>C1: receiving. A session whose peer sends any sequence of packets delivers exactly their user
  data to its event handler, in order, however the network cuts the stream into reads, once the
  schedule has room for the bytes; it never drops the connection and keeps nothing back.\<close>

theorem session_receives_stream:
  assumes "net_order hton ntoh" "wf_session s" "event_handler s = Some h" "limit_ok s limit"
    and "pending (recv_buffer s) = []" "0 < unat (GetLeftInSize (recv_buffer s))"
    and "\<forall>m\<in>set ms. length m \<le> 8184"
    and "length (concat (map (packet hton) ms)) \<le> length ks"
  shows "\<exists>limit' s' acts. net_run ntoh limit s (concat (map (packet hton) ms)) ks =
      Some (Inr (limit', s', acts, [])) \<and> messages acts = ms \<and> CloseSocket \<notin> set acts \<and>
      pending (recv_buffer s') = []"
  using stream_received [OF assms] .

section \<open>Sending\<close>

lemma handle_write_result:
  assumes "wf_session s"
  shows "handle_write s =
    (if unsent (send_buffer s) = [] \<or> handle_sending s then Inr (s, [])
     else Inr (s\<lparr>handle_sending := True\<rparr>, [AsyncWrite (unsent (send_buffer s))]))"
proof -
  let ?b = "send_buffer s"
  have wf: "wf_send ?b" using assms by (simp add: wf_session_def)
  have len: "length (unsent ?b) < 2 ^ 32"
    using length_unsent [OF wf] unat_lt_2p32 [of "in_offset ?b - sent_offset ?b"] by simp
  have "unat (sent_offset ?b) + length (unsent ?b) = length (filled ?b)"
    using wf by (simp add: wf_send_def length_filled unsent_def word_le_nat_alt)
  then have "mem_read (buffer ?b) (unat (sent_offset ?b)) (length (unsent ?b)) = Inr (unsent ?b)"
    using mem_read_filled [of "unat (sent_offset ?b)" "length (unsent ?b)" ?b]
    by (simp add: unsent_def)
  then show ?thesis
    using len by (simp add: handle_write_def GetCanSendSize_wf [OF wf] GetCanSendBuffer_def
        word_unat_eq_iff unat_of_nat_small del: unat_eq_0)
qed

definition has_room :: "session \<Rightarrow> byte list \<Rightarrow> bool" where
  "has_room s d \<longleftrightarrow> length d + 8 \<le> unat (GetLeftInSize (send_buffer s))"

text \<open>The three branches of \<open>send\<close>.\<close>

lemma send_too_long:
  "8184 < length d \<Longrightarrow> length d < 2 ^ 32 - 8 \<Longrightarrow>
   send hton s d (of_nat (length d)) = Inr (False, s, [])"
  by (simp add: send_def EncodePacket_too_long unat_of_nat_small)

lemma send_no_room:
  assumes "wf_session s" "packet_ok d" "\<not> has_room s d"
  shows "send hton s d (of_nat (length d)) =
    (case handle_write s of Inl e \<Rightarrow> Inl e | Inr (s', acts) \<Rightarrow> Inr (True, s', acts))"
  using assms
  by (simp add: send_def EncodePacket_no_room unat_of_nat_small packet_ok_def has_room_def
      handle_write_result)

lemma send_queued:
  assumes wf: "wf_session s" and ok: "packet_ok d" and room: "has_room s d"
  obtains b where "send hton s d (of_nat (length d)) =
      (case handle_write (s\<lparr>send_buffer := b\<rparr>) of
         Inl e \<Rightarrow> Inl e | Inr (s', acts) \<Rightarrow> Inr (True, s', acts))"
    "wf_session (s\<lparr>send_buffer := b\<rparr>)" "unsent b = unsent (send_buffer s) @ packet hton d"
    "unat (in_offset b) = unat (in_offset (send_buffer s)) + length (packet hton d)"
    "buf_length b = buf_length (send_buffer s)"
proof -
  let ?b = "send_buffer s"
  have wfs: "wf_send ?b" and wfb: "wf_buffer ?b" using wf by (auto simp: wf_session_def wf_sendD)
  have fits: "unat (in_offset ?b) + length (packet hton d) \<le> unat (buf_length ?b)"
    using room wf_buffer_in_le [OF wfb] unat_GetLeftInSize [OF wfb] by (simp add: has_room_def)
  have "unat (in_offset ?b) + length d + 8 \<le> length (block_bytes (buffer ?b))"
    using fits wfb by (simp add: wf_buffer_def)
  then obtain q where q: "EncodePacket hton d (of_nat (length d)) (buffer ?b, in_offset ?b)
        (GetLeftInSize ?b) = Inr (Encoded q (of_nat (length (packet hton d))))"
    "length (block_bytes q) = length (block_bytes (buffer ?b))"
    "take (unat (in_offset ?b) + length (packet hton d)) (block_bytes q) =
      take (unat (in_offset ?b)) (block_bytes (buffer ?b)) @ packet hton d" "q \<noteq> Wild"
    using EncodePacket_packet [OF ok] room by (metis has_room_def)
  have n: "unat (of_nat (length (packet hton d)) :: size_t) = length (packet hton d)"
    using ok by (subst unat_of_nat_small) (simp_all add: packet_ok_def)
  note a = append_in_place [OF wfb n fits q(2,4,3)]
  note w = send_append [OF wfs a(3,4,2)]
  show ?thesis
    by (rule that [of "?b\<lparr>buffer := q, in_offset := in_offset ?b + of_nat (length (packet hton d))\<rparr>"])
      (use q(1) a(1,2) w wf in \<open>auto simp: send_def GetInOffsetData_def wf_session_def bind_res_def
        Let_def split: sum.splits\<close>)
qed

text \<open>A completed write of \<open>n\<close> bytes. While it runs, \<open>handle_sending_\<close> is set, so nothing new starts.\<close>

lemma write_result_done:
  assumes wf: "wf_session s" and sending: "handle_sending s"
    and n: "0 < n" "n \<le> length (unsent (send_buffer s))"
  obtains b where "write_result s None (of_nat n) =
      Inr (s\<lparr>send_buffer := b, handle_sending := False\<rparr>, [])"
    "wf_session (s\<lparr>send_buffer := b, handle_sending := False\<rparr>)"
    "unsent b = drop n (unsent (send_buffer s))" "in_offset b \<le> in_offset (send_buffer s)"
    "buf_length b = buf_length (send_buffer s)"
proof -
  let ?b = "send_buffer s"
  have wfs: "wf_send ?b" using wf by (simp add: wf_session_def)
  have "n < 2 ^ 32"
    using n(2) length_unsent [OF wfs] unat_lt_2p32 [of "in_offset ?b - sent_offset ?b"] by simp
  then have u: "unat (of_nat n :: size_t) = n" by (simp add: unat_of_nat_small)
  then have n0: "(of_nat n :: size_t) \<noteq> 0" using n(1) by (metis unat_0 less_irrefl)
  obtain b where b: "Sent ?b (of_nat n) False = Inr (True, b)" "wf_send b"
    "unsent b = drop n (unsent ?b)" "buf_length b = buf_length ?b"
    using Sent_result [OF wfs, of "of_nat n" False] n u by metis
  have "sent_out_reset b" and in_le: "in_offset b \<le> in_offset ?b"
    using b(1) wf by (auto simp: Sent_def Let_def wf_session_def split: if_splits)
  then have wf': "wf_session (s\<lparr>send_buffer := b\<rparr>)" using wf b(2,4) by (simp add: wf_session_def)
  have "handle_write (s\<lparr>send_buffer := b\<rparr>) = Inr (s\<lparr>send_buffer := b\<rparr>, [])"
    using handle_write_result [OF wf'] sending by simp
  then have "write_result s None (of_nat n) = Inr (s\<lparr>send_buffer := b, handle_sending := False\<rparr>, [])"
    using n0 b(1) GetCanSendSize_wf [OF b(2)] by (simp add: write_result_def Let_def)
  then show ?thesis using that wf' b(3,4) in_le by (simp add: wf_session_def)
qed

lemma write_result_blocked:
  assumes "wf_session s" "handle_sending s"
  shows "write_result s (Some 10035) n = Inr (s\<lparr>handle_sending := False\<rparr>, [])"
  using handle_write_result [OF assms(1)] assms(2) by (simp add: write_result_def handle_error_def)

subsection \<open>Sends and completions, interleaved\<close>

text \<open>
  The state of the sending side: the session, the asynchronous write that has not completed
  (Boost.Asio allows one at a time), the bytes that reached the wire, and the messages for which
  \<open>send\<close> found room.
\<close>

record write_sys =
  sess :: session
  outstanding :: "byte list option"
  wire :: "byte list"
  accepted :: "byte list list"

fun started :: "action list \<Rightarrow> byte list option \<Rightarrow> byte list option" where
  "started [] prev = prev"
| "started (AsyncWrite xs # acts) prev = started acts (Some xs)"
| "started (_ # acts) prev = started acts prev"

lemma started_append [simp]: "started (a @ a') prev = started a' (started a prev)"
  by (induction a prev rule: started.induct) simp_all

inductive write_step :: "(u32 \<Rightarrow> u32) \<Rightarrow> write_sys \<Rightarrow> write_sys \<Rightarrow> bool" for hton where
  call_send: "length d < 2 ^ 32 - 8 \<Longrightarrow>
    send hton (sess w) d (of_nat (length d)) = Inr (ok, s', acts) \<Longrightarrow>
    write_step hton w (w\<lparr>sess := s', outstanding := started acts (outstanding w),
      accepted := accepted w @ (if ok \<and> has_room (sess w) d then [d] else [])\<rparr>)"
| write_done: "outstanding w = Some xs \<Longrightarrow> 0 < n \<Longrightarrow> n \<le> length xs \<Longrightarrow>
    write_result (sess w) None (of_nat n) = Inr (s', acts) \<Longrightarrow>
    write_step hton w (w\<lparr>sess := s', outstanding := started acts None,
      wire := wire w @ take n xs\<rparr>)"
| write_blocked: "outstanding w = Some xs \<Longrightarrow>
    write_result (sess w) (Some 10035) n = Inr (s', acts) \<Longrightarrow>
    write_step hton w (w\<lparr>sess := s', outstanding := started acts None\<rparr>)"

definition write_start :: "session \<Rightarrow> write_sys" where
  "write_start s = \<lparr>sess = s, outstanding = None, wire = [], accepted = []\<rparr>"

definition write_inv :: "(u32 \<Rightarrow> u32) \<Rightarrow> write_sys \<Rightarrow> bool" where
  "write_inv hton w \<longleftrightarrow>
     wf_session (sess w) \<and> (handle_sending (sess w) \<longleftrightarrow> outstanding w \<noteq> None) \<and>
     (\<forall>xs. outstanding w = Some xs \<longrightarrow> (\<exists>ys. unsent (send_buffer (sess w)) = xs @ ys)) \<and>
     wire w @ unsent (send_buffer (sess w)) = concat (map (packet hton) (accepted w)) \<and>
     list_all packet_ok (accepted w)"

lemma write_inv_handle_write:
  assumes "write_inv hton (w\<lparr>sess := s\<rparr>)" "handle_write s = Inr (s', acts)"
  shows "write_inv hton (w\<lparr>sess := s', outstanding := started acts (outstanding w)\<rparr>)"
  using assms by (auto simp: write_inv_def handle_write_result wf_session_def split: if_splits)

lemma write_step_inv: "write_step hton w w' \<Longrightarrow> write_inv hton w \<Longrightarrow> write_inv hton w'"
proof (induction rule: write_step.induct)
  case (call_send d w ok s' acts)
  have wf: "wf_session (sess w)" using call_send.prems by (simp add: write_inv_def)
  consider (long) "8184 < length d" | (full) "packet_ok d" "\<not> has_room (sess w) d"
    | (queued) "packet_ok d" "has_room (sess w) d"
    unfolding packet_ok_def by (meson leI)
  then show ?case
  proof cases
    case long
    then show ?thesis using call_send send_too_long [of d hton "sess w"] by (auto simp: write_inv_def)
  next
    case full
    then have "handle_write (sess w) = Inr (s', acts)"
      using call_send(2) send_no_room [OF wf full, of hton] by (auto split: sum.splits)
    from write_inv_handle_write [OF _ this, of hton w] call_send.prems full show ?thesis by simp
  next
    case queued
    obtain b where b: "send hton (sess w) d (of_nat (length d)) =
        (case handle_write ((sess w)\<lparr>send_buffer := b\<rparr>) of
           Inl e \<Rightarrow> Inl e | Inr (s', acts) \<Rightarrow> Inr (True, s', acts))"
      "wf_session ((sess w)\<lparr>send_buffer := b\<rparr>)"
      "unsent b = unsent (send_buffer (sess w)) @ packet hton d"
      using send_queued [OF wf queued, of hton] by metis
    then have hw: "handle_write ((sess w)\<lparr>send_buffer := b\<rparr>) = Inr (s', acts)" "ok"
      using call_send(2) by (auto split: sum.splits)
    let ?w = "w\<lparr>accepted := accepted w @ [d]\<rparr>"
    have "write_inv hton (?w\<lparr>sess := (sess w)\<lparr>send_buffer := b\<rparr>\<rparr>)"
      using call_send.prems b(2,3) queued(1) by (auto simp: write_inv_def)
    from write_inv_handle_write [OF this hw(1)] hw(2) queued show ?thesis by (simp add: write_inv_def)
  qed
next
  case (write_done w xs n s' acts)
  then obtain ys where ys: "unsent (send_buffer (sess w)) = xs @ ys" "handle_sending (sess w)"
    "wf_session (sess w)" by (auto simp: write_inv_def)
  have "n \<le> length (unsent (send_buffer (sess w)))" using write_done(3) ys(1) by simp
  from write_result_done [OF ys(3,2) write_done(2) this] obtain b where
    b: "write_result (sess w) None (of_nat n) =
      Inr ((sess w)\<lparr>send_buffer := b, handle_sending := False\<rparr>, [])"
    "wf_session ((sess w)\<lparr>send_buffer := b, handle_sending := False\<rparr>)"
    "unsent b = drop n (unsent (send_buffer (sess w)))" by metis
  then have s': "s' = (sess w)\<lparr>send_buffer := b, handle_sending := False\<rparr>" "acts = []"
    using write_done(4) by simp_all
  have "take n xs @ unsent b = unsent (send_buffer (sess w))"
    using b(3) ys(1) write_done(3) by simp
  then show ?case
    using write_done(5) b(2) unfolding s' write_inv_def by simp
next
  case (write_blocked w xs n s' acts)
  then have wf: "wf_session (sess w)" "handle_sending (sess w)" by (auto simp: write_inv_def)
  then have s': "s' = (sess w)\<lparr>handle_sending := False\<rparr>" "acts = []"
    using write_result_blocked [OF wf, of n] write_blocked(2) by simp_all
  show ?case
    using write_blocked(3) unfolding s' write_inv_def by (simp add: wf_session_def)
qed

lemma write_reach_inv:
  "(write_step hton)\<^sup>*\<^sup>* w w' \<Longrightarrow> write_inv hton w \<Longrightarrow> write_inv hton w'"
  by (induction rule: rtranclp_induct) (auto intro: write_step_inv)

lemma write_start_inv:
  "wf_session s \<Longrightarrow> \<not> handle_sending s \<Longrightarrow> unsent (send_buffer s) = [] \<Longrightarrow>
   write_inv hton (write_start s)"
  by (simp add: write_inv_def write_start_def)

text \<open>When everything accepted is on the wire, a session that reads it gets the accepted messages.\<close>

lemma wire_delivered:
  assumes "net_order hton ntoh" "write_inv hton w" "unsent (send_buffer (sess w)) = []"
    and "wf_session r" "event_handler r = Some h" "limit_ok r limit"
    and "pending (recv_buffer r) = []" "0 < unat (GetLeftInSize (recv_buffer r))"
  shows "\<exists>limit' r' acts rem. net_run ntoh limit r (wire w) ks = Some (Inr (limit', r', acts, rem)) \<and>
    prefix (messages acts) (accepted w) \<and> CloseSocket \<notin> set acts \<and>
    (length (wire w) \<le> length ks \<longrightarrow> messages acts = accepted w)"
proof -
  have "wire w = concat (map (packet hton) (accepted w))" "list_all packet_ok (accepted w)"
    using assms(2,3) by (simp_all add: write_inv_def)
  then have "unframe (frame ntoh) (pending (recv_buffer r) @ wire w) = (accepted w, [], False)"
    using net_order.stream_packets [OF assms(1)] assms(7) by simp
  moreover have "unframe (frame ntoh) (pending (recv_buffer r)) = ([], pending (recv_buffer r), False)"
    using net_order.stream_Nil [OF assms(1)] assms(7) by simp
  ultimately obtain limit' r' acts rem ms' where
    n: "net_run ntoh limit r (wire w) ks = Some (Inr (limit', r', acts, rem))"
    "CloseSocket \<notin> set acts" "accepted w = messages acts @ ms'"
    "unframe (frame ntoh) (pending (recv_buffer r')) = ([], pending (recv_buffer r'), False)"
    "unframe (frame ntoh) (pending (recv_buffer r') @ rem) = (ms', [], False)"
    "length rem \<le> length (wire w) - length ks"
    using net_run_good [OF assms(1,4,5,6,8), of "wire w" "accepted w" ks] by blast
  have "messages acts = accepted w" if "length (wire w) \<le> length ks"
  proof -
    have "rem = []" using n(6) that by simp
    then have "ms' = []" using n(4,5) by simp
    then show ?thesis using n(3) by simp
  qed
  then show ?thesis using n(1,2,3) by (intro exI conjI) auto
qed

section \<open>Properties of one connection\<close>

text \<open>C2: sending. However calls of \<open>send\<close> interleave with completions of the asynchronous writes, of any
  sizes and with any blocked ones between, what reached the wire followed by what waits in the buffer
  is exactly the packets of the accepted messages in the order of the calls. At most one write is
  outstanding, and it covers the bytes that are next.\<close>

theorem session_sends_stream:
  assumes "wf_session s" and "\<not> handle_sending s" and "unsent (send_buffer s) = []"
    and "(write_step hton)\<^sup>*\<^sup>* (write_start s) w"
  shows "wire w @ unsent (send_buffer (sess w)) = concat (map (packet hton) (accepted w)) \<and>
    (\<forall>xs. outstanding w = Some xs \<longrightarrow> prefix xs (unsent (send_buffer (sess w)))) \<and>
    (handle_sending (sess w) \<longleftrightarrow> outstanding w \<noteq> None)"
  using write_reach_inv [OF assms(4) write_start_inv [OF assms(1-3)]]
  by (auto simp: write_inv_def prefix_def)

text \<open>C10: a completed read always ends and never faults. For every well-formed session, every chunk that
  fits the window and whatever bytes it holds, the loop of \<open>handle_read\<close> returns, the session is
  well-formed again, and it either reads on or closes the socket.\<close>

theorem handle_read_total:
  assumes "wf_session s" and "xs \<noteq> []" and "length xs \<le> unat (GetLeftInSize (recv_buffer s))"
    and "limit_ok s limit"
  shows "\<exists>s1 limit' s' acts. socket_read s xs = Inr s1 \<and>
    handle_read ntoh limit s1 None (of_nat (length xs)) = Some (Inr (limit', s', acts)) \<and>
    wf_session s' \<and> limit_ok s' limit' \<and>
    (last acts = CloseSocket \<and> \<not> connected s' \<or>
     (\<exists>off n. last acts = AsyncRead off n \<and> n \<noteq> 0 \<and> CloseSocket \<notin> set acts))"
proof -
  obtain ms rest bad where u: "unframe (frame ntoh) (pending (recv_buffer s) @ xs) = (ms, rest, bad)"
    by (cases "unframe (frame ntoh) (pending (recv_buffer s) @ xs)")
  have closing: "CloseSocket \<notin> set (received h sid ms)" for h sid
    using received_cases [of h sid ms] by auto
  show ?thesis
  proof (cases bad)
    case True
    then obtain s1 s' where r: "socket_read s xs = Inr s1"
      "handle_read ntoh limit s1 None (of_nat (length xs)) =
        Some (Inr (limit, s', received (event_handler s) (session_id s) ms @ [CloseSocket]))"
      "wf_session s'" "pending (recv_buffer s') = []" "\<not> connected s'"
      "buf_length (recv_buffer s') = buf_length (recv_buffer s)"
      using handle_read_bad [OF assms(1-3)] u by metis
    then have "limit_ok s' limit" using assms(4) by (simp add: limit_ok_def)
    then show ?thesis using r by (intro exI conjI) auto
  next
    case False
    then obtain s1 limit' b where r: "socket_read s xs = Inr s1"
      "handle_read ntoh limit s1 None (of_nat (length xs)) =
        Some (Inr (limit', s\<lparr>recv_buffer := b\<rparr>, received (event_handler s) (session_id s) ms @
          session_start (s\<lparr>recv_buffer := b\<rparr>)))"
      "wf_session (s\<lparr>recv_buffer := b\<rparr>)" "limit_ok (s\<lparr>recv_buffer := b\<rparr>) limit'"
      "0 < unat (GetLeftInSize b)"
      using handle_read_good [OF assms(1-3) _ assms(4)] u by metis
    have "GetLeftInSize b \<noteq> 0" using r(5) by auto
    then show ?thesis
      using r(1-4) closing by (intro exI conjI) (auto simp: session_start_def)
  qed
qed

text \<open>C22: a malformed packet ends the connection. The messages that came before it are delivered, then the
  socket is closed and both buffers are emptied; the event handler is not told.\<close>

theorem malformed_packet_closes:
  assumes "wf_session s" and "xs \<noteq> []" and "length xs \<le> unat (GetLeftInSize (recv_buffer s))"
    and "unframe (frame ntoh) (pending (recv_buffer s) @ xs) = (ms, rest, True)"
  shows "\<exists>s1 s'. socket_read s xs = Inr s1 \<and>
    handle_read ntoh limit s1 None (of_nat (length xs)) =
      Some (Inr (limit, s', received (event_handler s) (session_id s) ms @ [CloseSocket])) \<and>
    pending (recv_buffer s') = [] \<and> \<not> connected s' \<and>
    OnDisconnect (session_id s) \<notin> set (received (event_handler s) (session_id s) ms @ [CloseSocket])"
proof -
  have "OnDisconnect (session_id s) \<notin> set (received h sid ms @ [CloseSocket])" for h sid
    using received_cases [of h sid ms] by auto
  then show ?thesis using handle_read_bad [OF assms] by metis
qed

text \<open>C23: the limit for compaction is a static of the whole process. When a session with a larger buffer
  fixed it first, a session that fills its buffer with the start of a packet at the end never moves the
  unused bytes: its next read has a window of 0 bytes, although the buffer is not full of them.\<close>

theorem stale_limit_stalls:
  assumes "wf_session s" and "xs \<noteq> []" and "length xs = unat (GetLeftInSize (recv_buffer s))"
    and "unframe (frame ntoh) (pending (recv_buffer s) @ xs) = (ms, rest, False)" and "rest \<noteq> []"
    and "buf_length (recv_buffer s) < m"
  shows "\<exists>s1 s'. socket_read s xs = Inr s1 \<and>
    handle_read ntoh (Some m) s1 None (of_nat (length xs)) = Some (Inr (Some m, s',
      received (event_handler s) (session_id s) ms @ [AsyncRead (buf_length (recv_buffer s)) 0])) \<and>
    pending (recv_buffer s') = rest"
proof -
  have "length xs \<le> unat (GetLeftInSize (recv_buffer s))" using assms(3) by simp
  from read_then_loop [OF assms(1,2) this assms(4)] obtain p r b where
    b: "socket_read s xs = Inr (s\<lparr>recv_buffer := (recv_buffer s)\<lparr>buffer := p\<rparr>\<rparr>)"
    "of_nat (length xs) \<noteq> (0 :: size_t)"
    "handle_read_loop ntoh (on_receive (event_handler s) (session_id s))
       (snd (DataIn ((recv_buffer s)\<lparr>buffer := p\<rparr>) (of_nat (length xs)))) [] =
       Some (Inr (r, b, received (event_handler s) (session_id s) ms))"
    "wf_session (s\<lparr>recv_buffer := b\<rparr>)" "buf_length b = buf_length (recv_buffer s)"
    "pending b = rest" "\<not> r < 0" "0 < r \<longrightarrow> in_offset b = 0"
    "r = 0 \<longrightarrow> unat (in_offset b) = unat (in_offset (recv_buffer s)) + length xs" by metis
  have wfb: "wf_buffer (recv_buffer s)" and wfr: "wf_recv b"
    using assms(1) b(4) by (auto simp: wf_session_def wf_recv_def)
  have r0: "r = 0"
  proof (rule ccontr)
    assume "r \<noteq> 0"
    then have "in_offset b = 0" using b(7,8) by simp
    then have "pending b = []" by (simp add: pending_def filled_def)
    then show False using b(6) assms(5) by simp
  qed
  have "unat (in_offset b) = unat (buf_length (recv_buffer s))"
    using b(9) r0 assms(3) unat_GetLeftInSize [OF wfb] wf_buffer_in_le [OF wfb] by simp
  then have full: "in_offset b = buf_length (recv_buffer s)" by (simp add: word_unat_eq_iff)
  then have "\<not> m \<le> in_offset b" using assms(6) by simp
  then have "handle_read ntoh (Some m) (s\<lparr>recv_buffer := (recv_buffer s)\<lparr>buffer := p\<rparr>\<rparr>) None
      (of_nat (length xs)) = Some (Inr (Some m, s\<lparr>recv_buffer := b\<rparr>,
        received (event_handler s) (session_id s) ms @ [AsyncRead (buf_length (recv_buffer s)) 0]))"
    using b(2,3,5) r0 full
    by (simp add: handle_read_def Let_def session_start_def GetLeftInSize_def)
  then show ?thesis using b(1,6) by auto
qed

text \<open>A completed write starts no new one. \<open>handle_sending_\<close> is still set while \<open>write_result\<close> calls
  \<open>handle_write\<close>, so whatever is left after a partial write, and everything after a blocked one, waits
  until somebody calls \<open>send\<close> again.\<close>

theorem completion_never_writes_on:
  assumes "wf_session s" and "handle_sending s" and "0 < n" and "n \<le> length (unsent (send_buffer s))"
    and "error = None \<or> error = Some 10035"
  shows "\<exists>s'. write_result s error (of_nat n) = Inr (s', []) \<and> \<not> handle_sending s' \<and>
    unsent (send_buffer s') = (if error = None then drop n (unsent (send_buffer s))
      else unsent (send_buffer s))"
proof (cases "error = None")
  case True
  from write_result_done [OF assms(1-4)] obtain b where
    "write_result s None (of_nat n) = Inr (s\<lparr>send_buffer := b, handle_sending := False\<rparr>, [])"
    "unsent b = drop n (unsent (send_buffer s))" by metis
  then show ?thesis using True by simp
next
  case False
  then have e: "error = Some 10035" using assms(5) by blast
  show ?thesis using write_result_blocked [OF assms(1,2)] unfolding e by simp
qed

text \<open>C24: a message that does not fit the send buffer is lost silently. \<open>send\<close> says true, as for a message
  that was queued, and the bytes waiting to be sent are the same as before.\<close>

theorem full_send_buffer_loses_message:
  assumes "wf_session s" and "length d \<le> 8184"
    and "unat (GetLeftInSize (send_buffer s)) < length d + 8"
  shows "\<exists>s' acts. send hton s d (of_nat (length d)) = Inr (True, s', acts) \<and>
    unsent (send_buffer s') = unsent (send_buffer s)"
proof -
  have "packet_ok d" "\<not> has_room s d" using assms(2,3) by (simp_all add: packet_ok_def has_room_def)
  from send_no_room [OF assms(1) this, of hton] show ?thesis
    by (simp add: handle_write_result [OF assms(1)])
qed

text \<open>The storage of the handler allocator is never handed out twice. From the moment \<open>allocate\<close> returned
  it, any further allocations and any releases of other memory leave it taken, and the next \<open>allocate\<close>
  goes to the heap; once it is released, a handler that fits gets it again.\<close>

theorem allocator_storage_exclusive:
  assumes "allocate a sz fresh = (Storage, a')"
    and "a'' = fold (\<lambda>(n, f, q) x. deallocate (snd (allocate x n f)) (FreshMemory q)) ops a'"
  shows "fst (allocate a'' sz' fresh') = FreshMemory fresh' \<and>
    (sz' < 1024 \<longrightarrow> fst (allocate (deallocate a'' Storage) sz' fresh') = Storage)"
proof -
  have "in_use a'" using assms(1) by (auto simp: allocate_def split: if_splits)
  moreover have "in_use x \<Longrightarrow>
      in_use (fold (\<lambda>(n, f, q) x. deallocate (snd (allocate x n f)) (FreshMemory q)) ops x)" for x
    by (induction ops arbitrary: x) (auto simp: allocate_def deallocate_def)
  ultimately have "in_use a''" using assms(2) by simp
  then show ?thesis by (simp add: allocate_def deallocate_def)
qed

text \<open>The memory of pending handlers: operations of sessions start, taking memory for their handler from the session's
  allocator, and complete, giving it back. A pending operation is named by its session and a number; \<open>operator new\<close>
  returns memory that no pending handler has.\<close>

inductive handler_step ::
  "handler_allocator list \<times> (nat \<times> nat \<Rightarrow> alloc_ptr option) \<Rightarrow> handler_allocator list \<times> (nat \<times> nat \<Rightarrow> alloc_ptr option) \<Rightarrow> bool"
  where
  operation_starts: "i < length as \<Longrightarrow> mem (i, k) = None \<Longrightarrow> FreshMemory fresh \<notin> ran mem \<Longrightarrow>
    asio_handler_allocate as sz (make_custom_alloc_handler i (h :: unit \<Rightarrow> unit)) fresh = (p, as') \<Longrightarrow>
    handler_step (as, mem) (as', mem((i, k) \<mapsto> p))"
| operation_completes: "mem (i, k) = Some p \<Longrightarrow>
    handler_step (as, mem) (asio_handler_deallocate as p (make_custom_alloc_handler i (h :: unit \<Rightarrow> unit)), mem((i, k) := None))"

definition handler_memory_ok :: "handler_allocator list \<times> (nat \<times> nat \<Rightarrow> alloc_ptr option) \<Rightarrow> bool" where
  "handler_memory_ok s \<longleftrightarrow> (case s of (as, mem) \<Rightarrow>
     (\<forall>i k. mem (i, k) \<noteq> None \<longrightarrow> i < length as) \<and>
     (\<forall>i k i' k' p. mem (i, k) = Some p \<and> mem (i', k') = Some p \<and> (i, k) \<noteq> (i', k') \<longrightarrow> p = Storage \<and> i \<noteq> i') \<and>
     (\<forall>i<length as. in_use (as ! i) \<longleftrightarrow> (\<exists>k. mem (i, k) = Some Storage)))"

lemma handler_memory_okD:
  assumes "handler_memory_ok (as, mem)"
  shows "mem (i, k) = Some p \<Longrightarrow> i < length as"
    and "mem (i, k) = Some p \<Longrightarrow> mem (i', k') = Some p \<Longrightarrow> (i, k) \<noteq> (i', k') \<Longrightarrow> p = Storage \<and> i \<noteq> i'"
    and "i < length as \<Longrightarrow> in_use (as ! i) \<longleftrightarrow> (\<exists>k. mem (i, k) = Some Storage)"
  using assms unfolding handler_memory_ok_def prod.case by blast+

lemma handler_memory_okI:
  assumes "\<And>i k p. mem (i, k) = Some p \<Longrightarrow> i < length as"
    and "\<And>i k i' k' p. mem (i, k) = Some p \<Longrightarrow> mem (i', k') = Some p \<Longrightarrow> (i, k) \<noteq> (i', k') \<Longrightarrow> p = Storage \<and> i \<noteq> i'"
    and "\<And>i. i < length as \<Longrightarrow> in_use (as ! i) \<longleftrightarrow> (\<exists>k. mem (i, k) = Some Storage)"
  shows "handler_memory_ok (as, mem)"
  unfolding handler_memory_ok_def prod.case using assms by blast

text \<open>What the two steps do to memory: one more pending handler, or one less.\<close>

lemma handler_memory_add:
  assumes "handler_memory_ok (as, mem)" and i: "i < length as" "mem (i, k) = None"
    and p: "p \<noteq> Storage \<Longrightarrow> p \<notin> ran mem" "p = Storage \<Longrightarrow> \<not> in_use (as ! i)"
  shows "handler_memory_ok (if p = Storage then as[i := (as ! i)\<lparr>in_use := True\<rparr>] else as, mem((i, k) \<mapsto> p))"
proof -
  note ok = handler_memory_okD [OF assms(1)]
  have other: "p = Storage \<and> i \<noteq> j" if "mem (j, l) = Some p" for j l
  proof -
    have "p = Storage" using p(1) that by (auto simp: ran_def)
    moreover have "i \<noteq> j" using p(2) ok(3) [OF i(1)] that \<open>p = Storage\<close> by blast
    ultimately show ?thesis ..
  qed
  show ?thesis
  proof (rule handler_memory_okI)
    fix j l j' l' q
    assume a: "(mem((i, k) \<mapsto> p)) (j, l) = Some q" "(mem((i, k) \<mapsto> p)) (j', l') = Some q" "(j, l) \<noteq> (j', l')"
    consider "(j, l) = (i, k)" | "(j', l') = (i, k)" | "(j, l) \<noteq> (i, k)" "(j', l') \<noteq> (i, k)" by blast
    then show "q = Storage \<and> j \<noteq> j'"
    proof cases
      case 1
      then show ?thesis using a other [of j' l'] by auto
    next
      case 2
      then show ?thesis using a other [of j l] by auto
    next
      case 3
      then have "mem (j, l) = Some q" "mem (j', l') = Some q" using a(1,2) by (auto split: if_splits)
      then show ?thesis using a(3) by (rule ok(2))
    qed
  next
    fix j assume "j < length (if p = Storage then as[i := (as ! i)\<lparr>in_use := True\<rparr>] else as)"
    then have j: "j < length as" by (simp split: if_splits)
    show "in_use ((if p = Storage then as[i := (as ! i)\<lparr>in_use := True\<rparr>] else as) ! j) \<longleftrightarrow>
        (\<exists>l. (mem((i, k) \<mapsto> p)) (j, l) = Some Storage)"
    proof (cases "j = i \<and> p = Storage")
      case False
      then have "(mem((i, k) \<mapsto> p)) (j, l) = Some Storage \<longleftrightarrow> mem (j, l) = Some Storage" for l using i by auto
      then show ?thesis using ok(3) [OF j] False by auto
    qed (use j in auto)
  qed (use i ok(1) in \<open>auto split: if_splits\<close>)
qed

lemma handler_memory_remove:
  assumes "handler_memory_ok (as, mem)" and held: "mem (i, k) = Some p"
  shows "handler_memory_ok (if p = Storage then as[i := (as ! i)\<lparr>in_use := False\<rparr>] else as, mem((i, k) := None))"
proof -
  note ok = handler_memory_okD [OF assms(1)]
  have alone: "mem (i, l) \<noteq> Some Storage" if "p = Storage" "l \<noteq> k" for l
    using ok(2) [of i k Storage i l] held that by auto
  show ?thesis
  proof (rule handler_memory_okI)
    fix j l j' l' q
    assume "(mem((i, k) := None)) (j, l) = Some q" "(mem((i, k) := None)) (j', l') = Some q" "(j, l) \<noteq> (j', l')"
    then show "q = Storage \<and> j \<noteq> j'" using ok(2) [of j l q j' l'] by (auto split: if_splits)
  next
    fix j assume "j < length (if p = Storage then as[i := (as ! i)\<lparr>in_use := False\<rparr>] else as)"
    then have j: "j < length as" by (simp split: if_splits)
    show "in_use ((if p = Storage then as[i := (as ! i)\<lparr>in_use := False\<rparr>] else as) ! j) \<longleftrightarrow>
        (\<exists>l. (mem((i, k) := None)) (j, l) = Some Storage)"
    proof (cases "j = i \<and> p = Storage")
      case False
      then have "(mem((i, k) := None)) (j, l) = Some Storage \<longleftrightarrow> mem (j, l) = Some Storage" for l using held by auto
      then show ?thesis using ok(3) [OF j] False by auto
    qed (use j alone in auto)
  qed (use ok(1) in \<open>auto split: if_splits\<close>)
qed

lemma handler_step_ok: "handler_step s s' \<Longrightarrow> handler_memory_ok s \<Longrightarrow> handler_memory_ok s'"
proof (induction rule: handler_step.induct)
  case (operation_starts i as mem k fresh sz h p as')
  have p: "p = (if \<not> in_use (as ! i) \<and> sz < 1024 then Storage else FreshMemory fresh)"
    "as' = (if p = Storage then as[i := (as ! i)\<lparr>in_use := True\<rparr>] else as)"
    using operation_starts(4)
    by (auto simp: asio_handler_allocate_def make_custom_alloc_handler_def allocate_def split: if_splits)
  show ?case unfolding p(2)
    by (rule handler_memory_add [OF operation_starts(5,1,2)]) (use p(1) operation_starts(3) in \<open>auto split: if_splits\<close>)
next
  case (operation_completes mem i k p as h)
  have "asio_handler_deallocate as p (make_custom_alloc_handler i h) =
      (if p = Storage then as[i := (as ! i)\<lparr>in_use := False\<rparr>] else as)"
    by (simp add: asio_handler_deallocate_def make_custom_alloc_handler_def deallocate_def)
  then show ?case using handler_memory_remove [OF operation_completes(2,1)] by simp
qed

text \<open>C27: handlers never share memory. Whatever asynchronous operations of whatever sessions start and complete, in any
  order, no two pending handlers have the same heap memory, at most one handler of a session is in the session's
  storage, and the flag of the allocator says whether one is.\<close>

theorem handler_memory_exclusive:
  assumes "handler_step\<^sup>*\<^sup>* (replicate n \<lparr>in_use = False\<rparr>, Map.empty) (as, mem)"
  shows "(\<forall>i k i' k' p. mem (i, k) = Some p \<and> mem (i', k') = Some p \<and> (i, k) \<noteq> (i', k') \<longrightarrow> p = Storage \<and> i \<noteq> i') \<and>
    (\<forall>i<length as. in_use (as ! i) \<longleftrightarrow> (\<exists>k. mem (i, k) = Some Storage))"
proof -
  have "handler_memory_ok (replicate n \<lparr>in_use = False\<rparr>, Map.empty)" by (simp add: handler_memory_ok_def)
  with assms have "handler_memory_ok (as, mem)"
    by (induction rule: rtranclp_induct) (auto intro: handler_step_ok)
  then show ?thesis unfolding handler_memory_ok_def prod.case by blast
qed

text \<open>A session that is well-formed can be destroyed; one that was made with a buffer of length 0 deletes an
  uninitialised pointer.\<close>

lemma session_destroyed: "wf_session s \<Longrightarrow> HSSession_delete s = Inr ()"
  by (auto simp: HSSession_delete_def wf_session_def wf_recv_def wf_send_def wf_buffer_def delete_buffers)

lemma empty_session_delete: "HSSession_delete (HSSession_new junk sid 0 n) = Inl WildDeref"
  by (simp add: HSSession_delete_def HSSession_new_def delete_empty_buffers)

section \<open>Witnesses\<close>

theorem handler_memory_exclusive_witness:
  "\<exists>as mem. handler_step\<^sup>*\<^sup>* (replicate 1 \<lparr>in_use = False\<rparr>, Map.empty) (as, mem) \<and> mem (0, 0) = Some Storage \<and>
     mem (0, 1) = Some (FreshMemory 9) \<and> in_use (as ! 0) \<and>
     (\<forall>i k i' k' p. mem (i, k) = Some p \<and> mem (i', k') = Some p \<and> (i, k) \<noteq> (i', k') \<longrightarrow> p = Storage \<and> i \<noteq> i')"
proof -
  let ?as = "[\<lparr>in_use = True\<rparr>]" and ?m1 = "[(0, 0) \<mapsto> Storage]" and ?m2 = "[(0, 0) \<mapsto> Storage, (0, 1) \<mapsto> FreshMemory 9]"
  have "handler_step (replicate 1 \<lparr>in_use = False\<rparr>, Map.empty) (?as, ?m1)"
    using operation_starts [of 0 "replicate 1 \<lparr>in_use = False\<rparr>" Map.empty 0 9 100 "\<lambda>_. ()" Storage ?as]
    by (simp add: asio_handler_allocate_def make_custom_alloc_handler_def allocate_def)
  moreover have "handler_step (?as, ?m1) (?as, ?m2)"
    using operation_starts [of 0 ?as ?m1 1 9 100 "\<lambda>_. ()" "FreshMemory 9" ?as]
    by (simp add: asio_handler_allocate_def make_custom_alloc_handler_def allocate_def)
  ultimately have run: "handler_step\<^sup>*\<^sup>* (replicate 1 \<lparr>in_use = False\<rparr>, Map.empty) (?as, ?m2)"
    by (meson r_into_rtranclp rtranclp_trans)
  show ?thesis
    by (intro exI [of _ ?as] exI [of _ ?m2] conjI run conjunct1 [OF handler_memory_exclusive [OF run]]) simp_all
qed

lemmas session_evals = HSSession_new_def send_def EncodePacket_def packet_consts store_u32_def
  GetInOffsetData_def GetLeftInSize_def handle_write_def write_result_def started.simps
  HS_NET_PACKET_IDENTIFY_NUMBER_def Let_def bind_res_def

definition ex_session :: "size_t \<Rightarrow> session" where
  "ex_session n = attach_eventhandler (HSSession_new (\<lambda>_. 0) 1 n n) (Some 0)"

lemma ex_session_simps:
  "n \<noteq> 0 \<Longrightarrow> wf_session (ex_session n)" "event_handler (ex_session n) = Some 0"
  "\<not> handle_sending (ex_session n)" "pending (recv_buffer (ex_session n)) = []"
  "unsent (send_buffer (ex_session n)) = []" "buf_length (recv_buffer (ex_session n)) = n"
  "GetLeftInSize (recv_buffer (ex_session n)) = n" "GetLeftInSize (send_buffer (ex_session n)) = n"
  "session_id (ex_session n) = 1"
  using wf_HSSession_new [of n n "\<lambda>_. 0" 1]
  by (simp_all add: ex_session_def attach_eventhandler_def wf_session_def HSSession_new_def new_abs)
    (simp_all add: HSRecvBuffer_new_def HSSendBuffer_new_def HSBuffer_new_def hs_buffer.defs
      hs_recv_buffer.defs hs_send_buffer.defs GetLeftInSize_def)

theorem session_receives_stream_witness:
  "\<exists>limit' s' acts.
    net_run swap_u32 None (ex_session 32768) (concat (map (packet swap_u32) [[1, 2], [3]])) (replicate 19 0) =
      Some (Inr (limit', s', acts, [])) \<and> messages acts = [[1, 2], [3]] \<and> CloseSocket \<notin> set acts \<and>
      pending (recv_buffer s') = []"
  by (rule session_receives_stream [OF little_endian.net_order_axioms ex_session_simps(1,2)])
    (simp_all add: ex_session_simps limit_ok_def)

lemma ex_send:
  "send swap_u32 (ex_session 16) [5] (of_nat (length [5 :: byte])) = Inr (True,
     (ex_session 16)\<lparr>send_buffer := \<lparr>buffer = Block ([0, 0, 0, 1, 0x0E, 0xDC, 0xBA, 0x98, 5] @ [0, 0, 0, 0, 0, 0, 0]),
       buf_length = 16, in_offset = 9, out_offset = 0, sent_offset = 0, sent_out_reset = True\<rparr>,
       handle_sending := True\<rparr>, [AsyncWrite [0, 0, 0, 1, 0x0E, 0xDC, 0xBA, 0x98, 5]])"
  by (simp add: ex_session_def attach_eventhandler_def session_evals buffer_evals u32_bytes_def swap_u32_def)

lemma ex_send_step:
  "write_step swap_u32 (write_start (ex_session 16))
     \<lparr>sess = (ex_session 16)\<lparr>send_buffer :=
        \<lparr>buffer = Block ([0, 0, 0, 1, 0x0E, 0xDC, 0xBA, 0x98, 5] @ [0, 0, 0, 0, 0, 0, 0]), buf_length = 16,
          in_offset = 9, out_offset = 0, sent_offset = 0, sent_out_reset = True\<rparr>, handle_sending := True\<rparr>,
      outstanding = Some [0, 0, 0, 1, 0x0E, 0xDC, 0xBA, 0x98, 5], wire = [], accepted = [[5]]\<rparr>"
  using write_step.call_send [of "[5]" swap_u32 "write_start (ex_session 16)", unfolded write_start_def,
      simplified, OF ex_send [simplified]]
  by (simp add: write_start_def has_room_def ex_session_simps)

lemma ex_sent_stream:
  "\<exists>w. (write_step swap_u32)\<^sup>*\<^sup>* (write_start (ex_session 16)) w \<and> unsent (send_buffer (sess w)) = [] \<and>
     accepted w = [[5]] \<and> length (wire w) = 9"
proof -
  let ?w = "\<lparr>sess = (ex_session 16)\<lparr>send_buffer :=
      \<lparr>buffer = Block [0, 0, 0, 1, 0x0E, 0xDC, 0xBA, 0x98, 5, 0, 0, 0, 0, 0, 0, 0], buf_length = 16,
        in_offset = 9, out_offset = 0, sent_offset = 0, sent_out_reset = True\<rparr>, handle_sending := True\<rparr>,
      outstanding = Some [0, 0, 0, 1, 0x0E, 0xDC, 0xBA, 0x98, 5], wire = [], accepted = [[5]]\<rparr>"
  let ?v = "?w\<lparr>sess := (ex_session 16)\<lparr>send_buffer :=
      \<lparr>buffer = Block [0, 0, 0, 1, 0x0E, 0xDC, 0xBA, 0x98, 5, 0, 0, 0, 0, 0, 0, 0], buf_length = 16,
        in_offset = 0, out_offset = 0, sent_offset = 0, sent_out_reset = True\<rparr>, handle_sending := False\<rparr>,
      outstanding := None, wire := [0, 0, 0, 1, 0x0E, 0xDC, 0xBA, 0x98, 5]\<rparr>"
  have "write_step swap_u32 (write_start (ex_session 16)) ?w" using ex_send_step by simp
  moreover have "write_step swap_u32 ?w ?v"
    using write_step.write_done [of ?w "[0, 0, 0, 1, 0x0E, 0xDC, 0xBA, 0x98, 5]" 9
        "sess ?v" "[]" swap_u32]
    by (simp add: session_evals buffer_evals)
  ultimately have steps: "(write_step swap_u32)\<^sup>*\<^sup>* (write_start (ex_session 16)) ?v"
    by (meson r_into_rtranclp rtranclp_trans)
  have "unsent (send_buffer (sess ?v)) = [] \<and> accepted ?v = [[5]] \<and> length (wire ?v) = 9"
    by (simp add: unsent_def filled_def)
  then show ?thesis using steps by blast
qed

theorem session_sends_stream_witness:
  "\<exists>w. (write_step swap_u32)\<^sup>*\<^sup>* (write_start (ex_session 16)) w \<and> accepted w = [[5]] \<and>
     wire w @ unsent (send_buffer (sess w)) = concat (map (packet swap_u32) [[5]])"
proof -
  note r = r_into_rtranclp [of "write_step swap_u32", OF ex_send_step]
  have "wf_session (ex_session 16)" by (rule ex_session_simps(1)) simp
  from session_sends_stream [OF this ex_session_simps(3,5) r] r show ?thesis by fastforce
qed

theorem handle_read_total_witness:
  "\<exists>s1 limit' s' acts. socket_read (ex_session 32768) [1, 2, 3] = Inr s1 \<and>
    handle_read swap_u32 None s1 None (of_nat (length [1, 2, 3 :: byte])) = Some (Inr (limit', s', acts)) \<and>
    wf_session s' \<and> limit_ok s' limit' \<and>
    (last acts = CloseSocket \<and> \<not> connected s' \<or>
     (\<exists>off n. last acts = AsyncRead off n \<and> n \<noteq> 0 \<and> CloseSocket \<notin> set acts))"
  by (rule handle_read_total) (simp_all add: ex_session_simps limit_ok_def)

lemma ex_unframe:
  "unframe (frame swap_u32) [255, 255, 255, 255, 255, 255, 255, 255] = ([], [255, 255, 255, 255, 255, 255, 255, 255], True)"
  "unframe (frame swap_u32) ([0, 0, 0, 9, 0x0E, 0xDC, 0xBA, 0x98, 7, 7, 7, 7, 7, 7, 7, 7]) =
    ([], [0, 0, 0, 9, 0x0E, 0xDC, 0xBA, 0x98, 7, 7, 7, 7, 7, 7, 7, 7], False)"
  by (subst unframe.simps, simp add: frame_def swap_u32_def u32_bytes_def HS_NET_PACKET_IDENTIFY_NUMBER_def)+

theorem malformed_packet_closes_witness:
  "\<exists>s1 s'. socket_read (ex_session 32768) [255, 255, 255, 255, 255, 255, 255, 255] = Inr s1 \<and>
    handle_read swap_u32 None s1 None (of_nat (length [255, 255, 255, 255, 255, 255, 255, 255 :: byte])) =
      Some (Inr (None, s', [CloseSocket])) \<and> \<not> connected s'"
  using malformed_packet_closes [of "ex_session 32768" "[255, 255, 255, 255, 255, 255, 255, 255]" swap_u32 "[]" "[255, 255, 255, 255, 255, 255, 255, 255]" None]
    ex_unframe(1) ex_session_simps(1) [of 32768]
  by (simp add: ex_session_simps) blast

theorem stale_limit_stalls_witness:
  "\<exists>s1 s'. socket_read (ex_session 16) ([0, 0, 0, 9, 0x0E, 0xDC, 0xBA, 0x98, 7, 7, 7, 7, 7, 7, 7, 7]) = Inr s1 \<and>
    handle_read swap_u32 (Some 24576) s1 None
      (of_nat (length ([0, 0, 0, 9, 0x0E, 0xDC, 0xBA, 0x98, 7, 7, 7, 7, 7, 7, 7, 7 :: byte]))) =
      Some (Inr (Some 24576, s', [AsyncRead 16 0]))"
  using stale_limit_stalls [of "ex_session 16" "[0, 0, 0, 9, 0x0E, 0xDC, 0xBA, 0x98, 7, 7, 7, 7, 7, 7, 7, 7]"
      swap_u32 "[]" "[0, 0, 0, 9, 0x0E, 0xDC, 0xBA, 0x98, 7, 7, 7, 7, 7, 7, 7, 7]" 24576]
    ex_unframe(2) ex_session_simps(1) [of 16]
  by (simp add: ex_session_simps) blast

theorem completion_never_writes_on_witness:
  "\<exists>s'. write_result ((ex_session 16)\<lparr>send_buffer := \<lparr>buffer = Block (map (\<lambda>_. 5) [0..<16]), buf_length = 16,
       in_offset = 9, out_offset = 0, sent_offset = 0, sent_out_reset = True\<rparr>, handle_sending := True\<rparr>)
     None (of_nat 4) = Inr (s', []) \<and> unsent (send_buffer s') = [5, 5, 5, 5, 5]"
  using completion_never_writes_on [of "(ex_session 16)\<lparr>send_buffer := \<lparr>buffer = Block (map (\<lambda>_. 5) [0..<16]),
      buf_length = 16, in_offset = 9, out_offset = 0, sent_offset = 0, sent_out_reset = True\<rparr>,
      handle_sending := True\<rparr>" 4 None] ex_session_simps(1) [of 16]
  by (auto simp: wf_session_def wf_send_def wf_buffer_def unsent_def filled_def upt_rec)

theorem full_send_buffer_loses_message_witness:
  "\<exists>s' acts. send swap_u32 (ex_session 4) [9] (of_nat (length [9 :: byte])) = Inr (True, s', acts) \<and>
     unsent (send_buffer s') = []"
  using full_send_buffer_loses_message [of "ex_session 4" "[9]" swap_u32] ex_session_simps(1) [of 4]
  by (simp add: ex_session_simps)

theorem allocator_storage_exclusive_witness:
  "fst (allocate \<lparr>in_use = True\<rparr> 100 8) = FreshMemory 8 \<and>
   (100 < (1024 :: nat) \<longrightarrow> fst (allocate (deallocate \<lparr>in_use = True\<rparr> Storage) 100 8) = Storage)"
  by (rule allocator_storage_exclusive [where a = "\<lparr>in_use = False\<rparr>" and sz = 10 and fresh = 0
      and ops = "[(20, 1, 1)]" and a' = "\<lparr>in_use = True\<rparr>"])
    (simp_all add: allocate_def deallocate_def)

end
