(* ===== verification/HS_Handler.thy ===== *)
theory HS_Handler
  imports HS_SessionStream
begin

text \<open>
  Event handlers that call back. \<open>HS_Session\<close> treats \<open>onReceive\<close> as an event; here it is a program: the loop of
  \<open>handle_read\<close> (\<open>hs_session.cpp\<close>) hands it the id of the session and the user data, and goes on with the state that
  it leaves. The handler may change more than the session that calls it: a \<open>place\<close> says where in the state of
  the program this session is. A handler that only sends is an instance of the locale \<open>reply_handler\<close>: for those
  the loop cuts the stream as before, and the answers are sent in the order of the messages.
\<close>

section \<open>The loop with a handler\<close>

text \<open>Reading and writing the session that runs the loop, and what one of its actions is in the list of all actions.\<close>

record ('st, 'e) place =
  session_of :: "'st \<Rightarrow> session"
  with_session :: "'st \<Rightarrow> session \<Rightarrow> 'st"
  event_of :: "action \<Rightarrow> 'e"

definition own_session :: "(session, action) place" where
  "own_session = \<lparr>session_of = (\<lambda>s. s), with_session = (\<lambda>_ s. s), event_of = (\<lambda>a. a)\<rparr>"

definition recv_of :: "('st, 'e) place \<Rightarrow> 'st \<Rightarrow> hs_recv_buffer" where
  "recv_of P st = recv_buffer (session_of P st)"

definition with_recv :: "('st, 'e) place \<Rightarrow> 'st \<Rightarrow> hs_recv_buffer \<Rightarrow> 'st" where
  "with_recv P st b = with_session P st ((session_of P st)\<lparr>recv_buffer := b\<rparr>)"

lemma own_session_simps [simp]:
  "session_of own_session s = s" "with_session own_session s t = t" "event_of own_session = (\<lambda>a. a)"
  "recv_of own_session s = recv_buffer s" "with_recv own_session s b = s\<lparr>recv_buffer := b\<rparr>"
  by (simp_all add: own_session_def recv_of_def with_recv_def)

type_synonym ('st, 'e) receive_handler = "u32 \<Rightarrow> byte list \<Rightarrow> 'st \<Rightarrow> ('st \<times> 'e list) res"

partial_function (option) callback_loop ::
  "(u32 \<Rightarrow> u32) \<Rightarrow> ('st, 'e) place \<Rightarrow> ('st, 'e) receive_handler \<Rightarrow> 'st \<Rightarrow> 'e list \<Rightarrow> (int \<times> 'st \<times> 'e list) res option" where
  [code]: "callback_loop ntoh P onReceive st acts =
     (case DecodePacket ntoh (GetCanUseBuffer (recv_of P st)) (GetCanUseSize (recv_of P st)) of
        Inl e \<Rightarrow> Some (Inl e)
      | Inr DecodeWait \<Rightarrow> Some (Inr (0, st, acts))
      | Inr DecodeError \<Rightarrow> Some (Inr (- 1, st, acts))
      | Inr (Decoded next_offset out_size) \<Rightarrow>
          let st = with_recv P st (snd (DataUse (recv_of P st) next_offset False)); s = session_of P st in
          (case (case event_handler s of
                   None \<Rightarrow> Inr (st, acts)
                 | Some _ \<Rightarrow>
                     bind_res (mem_read (buffer (recv_of P st)) (unat (in_used_offset (recv_of P st))) (unat out_size)) (\<lambda>data.
                     bind_res (onReceive (session_id s) data st) (\<lambda>(st', a).
                     Inr (st', acts @ event_of P (OnReceive (session_id s) data) # a)))) of
             Inl e \<Rightarrow> Some (Inl e)
           | Inr (st, acts) \<Rightarrow>
               let st = with_recv P st (snd (DataUse (recv_of P st) out_size False)) in
               if in_offset (recv_of P st) = GetUsedSize (recv_of P st) then Some (Inr (1, st, acts))
               else callback_loop ntoh P onReceive st acts))"

lemma callback_stops:
  "DecodePacket ntoh (GetCanUseBuffer (recv_of P st)) (GetCanUseSize (recv_of P st)) = Inr DecodeWait \<Longrightarrow>
   callback_loop ntoh P onReceive st acts = Some (Inr (0, st, acts))"
  "DecodePacket ntoh (GetCanUseBuffer (recv_of P st)) (GetCanUseSize (recv_of P st)) = Inr DecodeError \<Longrightarrow>
   callback_loop ntoh P onReceive st acts = Some (Inr (- 1, st, acts))"
  by (simp_all add: callback_loop.simps)

definition callback_read ::
  "(u32 \<Rightarrow> u32) \<Rightarrow> ('st, 'e) place \<Rightarrow> ('st, 'e) receive_handler \<Rightarrow> size_t option \<Rightarrow> 'st \<Rightarrow> int option \<Rightarrow> size_t \<Rightarrow>
   (size_t option \<times> 'st \<times> 'e list) res option" where
  "callback_read ntoh P onReceive max_read_length st error bytes_transferred =
     (case error of
        None \<Rightarrow>
          if bytes_transferred = 0 then Some (Inr (max_read_length, st, []))
          else
            (case callback_loop ntoh P onReceive (with_recv P st (snd (DataIn (recv_of P st) bytes_transferred))) [] of
               None \<Rightarrow> None
             | Some (Inl e) \<Rightarrow> Some (Inl e)
             | Some (Inr (r, st, acts)) \<Rightarrow>
                 if r < 0 then
                   Some (bind_res (session_clear (session_of P st)) (\<lambda>(s, a).
                     Inr (max_read_length, with_session P st s, acts @ map (event_of P) a)))
                 else if r = 0 then
                   let limit = (case max_read_length of
                                  None \<Rightarrow> buf_length (recv_of P st) - HS_NET_PACKET_MAX_SIZE
                                | Some m \<Rightarrow> m) in
                   Some (bind_res (if in_offset (recv_of P st) \<ge> limit then MoveUnuseData2Begin (recv_of P st)
                                   else Inr (recv_of P st))
                     (\<lambda>b. let st = with_recv P st b in
                           Inr (Some limit, st, acts @ map (event_of P) (session_start (session_of P st)))))
                 else Some (Inr (max_read_length, st, acts @ map (event_of P) (session_start (session_of P st)))))
      | Some v \<Rightarrow>
          (case handle_read ntoh max_read_length (session_of P st) (Some v) bytes_transferred of
             None \<Rightarrow> None
           | Some r \<Rightarrow> Some (bind_res r (\<lambda>(limit, s, a). Inr (limit, with_session P st s, map (event_of P) a)))))"

section \<open>Handlers that only send\<close>

text \<open>The handler is called for one message after the other.\<close>

fun replies ::
  "('st, 'e) place \<Rightarrow> ('st, 'e) receive_handler \<Rightarrow> byte list list \<Rightarrow> 'st \<Rightarrow> ('st \<times> 'e list) res" where
  "replies P onReceive [] st = Inr (st, [])"
| "replies P onReceive (m # ms) st =
     bind_res (onReceive (session_id (session_of P st)) m st) (\<lambda>(st', a).
     bind_res (replies P onReceive ms st') (\<lambda>(st'', a').
     Inr (st'', event_of P (OnReceive (session_id (session_of P st)) m) # a @ a')))"

text \<open>A place in states that satisfy \<open>ok\<close>: what is written there is read, and nothing else changes.\<close>

locale session_place =
  fixes P :: "('st, 'e) place" and ok :: "'st \<Rightarrow> bool"
  assumes get_put: "ok st \<Longrightarrow> session_of P (with_session P st s) = s"
    and put_put: "with_session P (with_session P st s) t = with_session P st t"
    and ok_put: "ok st \<Longrightarrow> ok (with_session P st s)"
begin

lemma with_recv_simps:
  "ok st \<Longrightarrow> ok (with_recv P st b)" "ok st \<Longrightarrow> session_of P (with_recv P st b) = (session_of P st)\<lparr>recv_buffer := b\<rparr>"
  "ok st \<Longrightarrow> recv_of P (with_recv P st b) = b" "ok st \<Longrightarrow> with_recv P (with_recv P st b) c = with_recv P st c"
  by (simp_all add: with_recv_def recv_of_def get_put put_put ok_put)

end

text \<open>What the loop relies on: the handler leaves the receive buffer and the identity of the session alone, and does not
  look at the receive buffer.\<close>

locale reply_handler = session_place P ok for P :: "('st, 'e) place" and ok :: "'st \<Rightarrow> bool" +
  fixes onReceive :: "('st, 'e) receive_handler"
  assumes keeps: "ok st \<Longrightarrow> onReceive i m st = Inr (st', a) \<Longrightarrow>
      ok st' \<and> recv_of P st' = recv_of P st \<and> session_id (session_of P st') = session_id (session_of P st) \<and>
      event_handler (session_of P st') = event_handler (session_of P st)"
    and blind: "ok st \<Longrightarrow> onReceive i m (with_recv P st b) =
      bind_res (onReceive i m st) (\<lambda>(st', a). Inr (with_recv P st' b, a))"
begin

lemma replies_keeps:
  "ok st \<Longrightarrow> replies P onReceive ms st = Inr (st', a) \<Longrightarrow>
   ok st' \<and> recv_of P st' = recv_of P st \<and> session_id (session_of P st') = session_id (session_of P st) \<and>
   event_handler (session_of P st') = event_handler (session_of P st)"
proof (induction ms arbitrary: st a)
  case (Cons m ms)
  obtain t a1 a2 where "onReceive (session_id (session_of P st)) m st = Inr (t, a1)" "replies P onReceive ms t = Inr (st', a2)"
    using Cons.prems(2) by (auto simp: bind_res_Inr_conv)
  then show ?case using keeps [OF Cons.prems(1)] Cons.IH by metis
qed simp

lemma replies_blind:
  "ok st \<Longrightarrow> replies P onReceive ms (with_recv P st b) =
   bind_res (replies P onReceive ms st) (\<lambda>(st', a). Inr (with_recv P st' b, a))"
proof (induction ms arbitrary: st)
  case (Cons m ms)
  let ?i = "session_id (session_of P st)"
  have same: "session_id (session_of P (with_recv P st b)) = ?i" by (simp add: with_recv_simps Cons.prems)
  note handled = blind [OF Cons.prems, of ?i m b]
  show ?case
  proof (cases "onReceive ?i m st")
    case (Inl e)
    then show ?thesis using handled same by simp
  next
    case (Inr r)
    then obtain st' a where r: "onReceive ?i m st = Inr (st', a)" by (cases r) simp
    have "ok st'" using keeps [OF Cons.prems r] by simp
    from Cons.IH [OF this] show ?thesis
      using handled same r by (cases "replies P onReceive ms st'") (auto split: prod.splits)
  qed
qed simp

text \<open>The loop is the loop of \<open>HS_Session\<close>, with the handler run over the messages it finds. First one round.\<close>

lemma callback_round:
  assumes ok: "ok st" and handler: "event_handler (session_of P st) = Some h"
    and next_round: "\<And>b es r b' es' st acts. loop b es = Some (Inr (r, b', es')) \<Longrightarrow> ok st \<Longrightarrow>
      event_handler (session_of P st) = Some h \<Longrightarrow>
      \<exists>ms. es' = es @ map f ms \<and> callback_loop ntoh P onReceive (with_recv P st b) acts =
        Some (bind_res (replies P onReceive ms st) (\<lambda>(st', a). Inr (r, with_recv P st' b', acts @ a)))"
    and decoded: "DecodePacket ntoh (GetCanUseBuffer b) (GetCanUseSize b) = Inr (Decoded off n)"
    and data: "b1 = snd (DataUse b off False)" "mem_read (buffer b1) (unat (in_used_offset b1)) (unat n) = Inr data"
    and rest: "b2 = snd (DataUse b1 n False)"
      "(if in_offset b2 = GetUsedSize b2 then Some (Inr (1, b2, es @ [f data])) else loop b2 (es @ [f data])) = Some (Inr (r, b', es'))"
  shows "\<exists>ms. es' = es @ map f ms \<and> callback_loop ntoh P onReceive (with_recv P st b) acts =
    Some (bind_res (replies P onReceive ms st) (\<lambda>(st', a). Inr (r, with_recv P st' b', acts @ a)))"
proof -
  let ?i = "session_id (session_of P st)"
  have handled: "bind_res (onReceive ?i data (with_recv P st b1)) (\<lambda>(st', a). Inr (st', acts @ event_of P (OnReceive ?i data) # a)) =
      bind_res (onReceive ?i data st) (\<lambda>(st', a). Inr (with_recv P st' b1, acts @ event_of P (OnReceive ?i data) # a))"
    unfolding blind [OF ok] by (cases "onReceive ?i data st") (simp_all add: split_beta)
  have unfold: "callback_loop ntoh P onReceive (with_recv P st b) acts =
      (case onReceive ?i data st of Inl e \<Rightarrow> Some (Inl e)
       | Inr (st', a) \<Rightarrow>
           if in_offset b2 = GetUsedSize b2 then Some (Inr (1, with_recv P st' b2, acts @ event_of P (OnReceive ?i data) # a))
           else callback_loop ntoh P onReceive (with_recv P st' b2) (acts @ event_of P (OnReceive ?i data) # a))"
    using handler decoded data rest(1) ok handled
    by (subst callback_loop.simps) (auto simp: Let_def with_recv_simps dest!: keeps [OF ok] split: sum.splits)
  show ?thesis
  proof (cases "in_offset b2 = GetUsedSize b2")
    case True
    then have "r = 1" "b' = b2" "es' = es @ map f [data]" using rest(2) by auto
    then show ?thesis
      using unfold True by (intro exI [of _ "[data]"]) (auto split: sum.splits)
  next
    case False
    then have l: "loop b2 (es @ [f data]) = Some (Inr (r, b', es'))" using rest(2) by simp
    show ?thesis
    proof (cases "onReceive ?i data st")
      case (Inl e)
      obtain ms where "es' = (es @ [f data]) @ map f ms" using next_round [OF l ok handler] by blast
      then show ?thesis using unfold Inl by (intro exI [of _ "data # ms"]) simp
    next
      case (Inr x)
      obtain st' a where x: "x = (st', a)" by (cases x)
      have k: "ok st'" "event_handler (session_of P st') = Some h" using keeps [OF ok, of ?i data st' a] Inr x handler by simp_all
      from next_round [OF l k, of "acts @ event_of P (OnReceive ?i data) # a"] obtain ms where
        ms: "es' = (es @ [f data]) @ map f ms"
        "callback_loop ntoh P onReceive (with_recv P st' b2) (acts @ event_of P (OnReceive ?i data) # a) =
          Some (bind_res (replies P onReceive ms st') (\<lambda>(st'', a'). Inr (r, with_recv P st'' b',
            (acts @ event_of P (OnReceive ?i data) # a) @ a')))" by blast
      then show ?thesis
        using unfold Inr x False by (intro exI [of _ "data # ms"]) (cases "replies P onReceive ms st'"; auto)
    qed
  qed
qed

lemma callback_loop_replies:
  fixes f :: "byte list \<Rightarrow> 'f"
  assumes "handle_read_loop ntoh (Some f) b es = Some (Inr (r, b', es'))" "ok st" "event_handler (session_of P st) = Some h"
  shows "\<exists>ms. es' = es @ map f ms \<and> callback_loop ntoh P onReceive (with_recv P st b) acts =
    Some (bind_res (replies P onReceive ms st) (\<lambda>(st', a). Inr (r, with_recv P st' b', acts @ a)))"
proof -
  let ?P = "\<lambda>ntoh deliver b es (res :: (int \<times> hs_recv_buffer \<times> 'f list) res). \<forall>f r b' es' st acts. deliver = Some f \<longrightarrow>
    res = Inr (r, b', es') \<longrightarrow> ok st \<longrightarrow> event_handler (session_of P st) = Some h \<longrightarrow>
    (\<exists>ms. es' = es @ map f ms \<and> callback_loop ntoh P onReceive (with_recv P st b) acts =
      Some (bind_res (replies P onReceive ms st) (\<lambda>(st', a). Inr (r, with_recv P st' b', acts @ a))))"
  have "?P ntoh (Some f) b es (Inr (r, b', es'))"
  proof (rule handle_read_loop.raw_induct [of ?P, OF _ assms(1)], intro allI impI)
    fix loop ntoh deliver b es res f r b' es' acts and st :: 'st
    assume ih: "\<And>ntoh deliver b es res. loop ntoh deliver b es = Some res \<Longrightarrow> ?P ntoh deliver b es res"
      and deliver: "deliver = Some f" and res: "res = Inr (r, b', es')"
      and ok: "ok st" and handler: "event_handler (session_of P st) = Some h"
      and body: "(case DecodePacket ntoh (GetCanUseBuffer b) (GetCanUseSize b) of
        Inl e \<Rightarrow> Some (Inl e)
      | Inr DecodeWait \<Rightarrow> Some (Inr (0, b, es))
      | Inr DecodeError \<Rightarrow> Some (Inr (- 1, b, es))
      | Inr (Decoded next_offset out_size) \<Rightarrow>
          let b = snd (DataUse b next_offset False) in
          (case (case deliver of
                   None \<Rightarrow> Inr es
                 | Some onReceive \<Rightarrow>
                     bind_res (mem_read (buffer b) (unat (in_used_offset b)) (unat out_size))
                       (\<lambda>data. Inr (es @ [onReceive data]))) of
             Inl e \<Rightarrow> Some (Inl e)
           | Inr acts \<Rightarrow>
               let b = snd (DataUse b out_size False) in
               if in_offset b = GetUsedSize b then Some (Inr (1, b, acts))
               else loop ntoh deliver b acts)) = Some res"
    have next_round: "\<exists>ms. es' = es @ map f ms \<and> callback_loop ntoh P onReceive (with_recv P st b) acts =
        Some (bind_res (replies P onReceive ms st) (\<lambda>(st', a). Inr (r, with_recv P st' b', acts @ a)))"
      if "loop ntoh (Some f) b es = Some (Inr (r, b', es'))" "ok st" "event_handler (session_of P st) = Some h"
      for b es r b' es' st acts
      using ih [OF that(1)] that(2,3) by blast
    show "\<exists>ms. es' = es @ map f ms \<and> callback_loop ntoh P onReceive (with_recv P st b) acts =
        Some (bind_res (replies P onReceive ms st) (\<lambda>(st', a). Inr (r, with_recv P st' b', acts @ a)))"
    proof (cases "DecodePacket ntoh (GetCanUseBuffer b) (GetCanUseSize b)")
      case (Inr d)
      show ?thesis
      proof (cases d)
        case (Decoded off n)
        let ?b1 = "snd (DataUse b off False)"
        have "\<exists>data. mem_read (buffer ?b1) (unat (in_used_offset ?b1)) (unat n) = Inr data"
          using body deliver res Inr Decoded
          by (cases "mem_read (buffer ?b1) (unat (in_used_offset ?b1)) (unat n)") (simp_all add: Let_def)
        then obtain data where data: "mem_read (buffer ?b1) (unat (in_used_offset ?b1)) (unat n) = Inr data" ..
        show ?thesis
          by (rule callback_round [OF ok handler next_round Inr [unfolded Decoded] refl data refl])
            (use body deliver res Inr Decoded data in \<open>simp_all add: Let_def\<close>)
      qed (use body res Inr ok in \<open>auto simp: callback_stops with_recv_simps\<close>)
    qed (use body res in simp)
  qed
  then show ?thesis using assms(2,3) by blast
qed

text \<open>A completed read that does not close the socket.\<close>

lemma callback_read_replies:
  assumes ok: "ok st" and handler: "event_handler (session_of P st) = Some h" and n: "n \<noteq> 0"
    and plain: "handle_read ntoh limit (session_of P st) None n = Some (Inr (limit', s', acts))" "CloseSocket \<notin> set acts"
  shows "\<exists>ms. acts = map (OnReceive (session_id (session_of P st))) ms @ session_start s' \<and>
    callback_read ntoh P onReceive limit st None n = Some (bind_res (replies P onReceive ms st) (\<lambda>(t, a).
      Inr (limit', with_recv P t (recv_buffer s'), a @ map (event_of P) (session_start s'))))"
proof -
  let ?b = "snd (DataIn (recv_of P st) n)" and ?i = "session_id (session_of P st)"
  have deliver: "on_receive (event_handler (session_of P st)) ?i = Some (OnReceive ?i)"
    using handler by (simp add: on_receive_def)
  obtain r b es where loop: "handle_read_loop ntoh (Some (OnReceive ?i)) ?b [] = Some (Inr (r, b, es))"
    using plain(1) n deliver
    by (cases "handle_read_loop ntoh (Some (OnReceive ?i)) ?b []") (auto simp: handle_read_def recv_of_def split: sum.splits)
  note plain' = plain(1) [unfolded handle_read_def recv_of_def [symmetric]]
  have r: "\<not> r < 0"
    using plain' plain(2) n deliver loop by (auto simp: session_clear_def bind_res_Inr_conv Let_def)
  obtain ms where ms: "es = map (OnReceive ?i) ms"
    "callback_loop ntoh P onReceive (with_recv P st ?b) [] =
      Some (bind_res (replies P onReceive ms st) (\<lambda>(t, a). Inr (r, with_recv P t b, a)))"
    using callback_loop_replies [OF loop ok handler, of "[]"] by auto
  have kept: "ok t" if "replies P onReceive ms st = Inr (t, a)" for t a using replies_keeps [OF ok that] by simp
  let ?move = "\<lambda>limit. if in_offset b \<ge> limit then MoveUnuseData2Begin b else Inr b"
  show ?thesis
  proof (cases "r = 0")
    case True
    then obtain b' where b': "?move limit'' = Inr b'" "limit' = Some limit''"
      "s' = (session_of P st)\<lparr>recv_buffer := b'\<rparr>" "acts = es @ session_start s'"
      if "limit'' = (case limit of None \<Rightarrow> buf_length b - HS_NET_PACKET_MAX_SIZE | Some m \<Rightarrow> m)" for limit''
      using plain' n deliver loop by (auto simp: bind_res_Inr_conv Let_def)
    note b' = b' [OF refl]
    show ?thesis
      using ms n True b' kept
      by (intro exI [of _ ms]) (cases "replies P onReceive ms st"; cases limit;
        auto simp: callback_read_def Let_def session_start_def with_recv_simps)
  next
    case False
    then have "limit' = limit" "s' = (session_of P st)\<lparr>recv_buffer := b\<rparr>" "acts = es @ session_start s'"
      using plain' n deliver loop r by (auto simp: Let_def)
    then show ?thesis
      using ms n False r kept
      by (intro exI [of _ ms]) (cases "replies P onReceive ms st";
        auto simp: callback_read_def Let_def session_start_def with_recv_simps)
  qed
qed

lemma callback_read_good:
  assumes ok: "ok st" and good: "wf_session (session_of P st)" "xs \<noteq> []" "length xs \<le> unat (GetLeftInSize (recv_of P st))"
    and u: "unframe (frame ntoh) (pending (recv_of P st) @ xs) = (ms, rest, False)"
    and limit: "limit_ok (session_of P st) limit" and handler: "event_handler (session_of P st) = Some h"
  obtains s1 limit' b where "socket_read (session_of P st) xs = Inr s1"
    "callback_read ntoh P onReceive limit (with_session P st s1) None (of_nat (length xs)) =
      Some (bind_res (replies P onReceive ms st) (\<lambda>(t, a).
        Inr (limit', with_recv P t b, a @ map (event_of P) (session_start ((session_of P st)\<lparr>recv_buffer := b\<rparr>)))))"
    "wf_session ((session_of P st)\<lparr>recv_buffer := b\<rparr>)" "pending b = rest"
    "limit_ok ((session_of P st)\<lparr>recv_buffer := b\<rparr>) limit'" "0 < unat (GetLeftInSize b)"
    "buf_length b = buf_length (recv_of P st)"
proof -
  let ?s = "session_of P st"
  note good' = good [unfolded recv_of_def] and u' = u [unfolded recv_of_def]
  obtain s1 limit' b where r: "socket_read ?s xs = Inr s1"
    "handle_read ntoh limit s1 None (of_nat (length xs)) =
      Some (Inr (limit', ?s\<lparr>recv_buffer := b\<rparr>,
        received (event_handler ?s) (session_id ?s) ms @ session_start (?s\<lparr>recv_buffer := b\<rparr>)))"
    "wf_session (?s\<lparr>recv_buffer := b\<rparr>)" "pending b = rest" "limit_ok (?s\<lparr>recv_buffer := b\<rparr>) limit'"
    "0 < unat (GetLeftInSize b)" "buf_length b = buf_length (recv_of P st)"
    using handle_read_good [OF good' u' limit] by (metis recv_of_def)
  obtain c where s1: "s1 = ?s\<lparr>recv_buffer := c\<rparr>"
    using r(1) by (auto simp: socket_read_def bind_res_Inr_conv)
  let ?st1 = "with_recv P st c"
  have st1: "with_session P st s1 = ?st1" "session_of P ?st1 = s1" "ok ?st1"
    using s1 by (simp_all add: with_recv_def with_recv_simps(1,2) [OF ok, unfolded with_recv_def])
  have n0: "of_nat (length xs) \<noteq> (0 :: size_t)" using read_then_loop [OF good' u'] by metis
  have h1: "event_handler (session_of P ?st1) = Some h" using handler s1 st1(2) by simp
  have acts: "received (event_handler ?s) (session_id ?s) ms = map (OnReceive (session_id s1)) ms"
    using handler s1 by (simp add: received_Some)
  have no_close: "CloseSocket \<notin> set (received (event_handler ?s) (session_id ?s) ms @ session_start (?s\<lparr>recv_buffer := b\<rparr>))"
    unfolding acts by (auto simp: session_start_def)
  from callback_read_replies [OF st1(3) h1 n0, unfolded st1(2), OF r(2) no_close] obtain ms' where
    ms': "received (event_handler ?s) (session_id ?s) ms @ session_start (?s\<lparr>recv_buffer := b\<rparr>) =
      map (OnReceive (session_id s1)) ms' @ session_start (?s\<lparr>recv_buffer := b\<rparr>)"
    "callback_read ntoh P onReceive limit ?st1 None (of_nat (length xs)) =
      Some (bind_res (replies P onReceive ms' ?st1) (\<lambda>(t, a).
        Inr (limit', with_recv P t b, a @ map (event_of P) (session_start (?s\<lparr>recv_buffer := b\<rparr>)))))"
    by auto
  have "ms' = ms" using ms'(1) by (simp add: acts inj_map_eq_map inj_def)
  moreover have "bind_res (replies P onReceive ms ?st1) (\<lambda>(t, a). Inr (limit', with_recv P t b, a @ e)) =
      bind_res (replies P onReceive ms st) (\<lambda>(t, a). Inr (limit', with_recv P t b, a @ e))" for e
    unfolding replies_blind [OF ok]
    by (cases "replies P onReceive ms st") (auto simp: with_recv_simps dest: replies_keeps [OF ok])
  ultimately show ?thesis using that r ms'(2) st1(1) by simp
qed

text \<open>A completed read with a malformed packet: the messages before it are handled, then the session is closed.\<close>

lemma callback_read_bad:
  assumes ok: "ok st" and good: "wf_session (session_of P st)" "xs \<noteq> []" "length xs \<le> unat (GetLeftInSize (recv_of P st))"
    and u: "unframe (frame ntoh) (pending (recv_of P st) @ xs) = (ms, rest, True)"
    and handler: "event_handler (session_of P st) = Some h"
  obtains s1 b where "socket_read (session_of P st) xs = Inr s1"
    "callback_read ntoh P onReceive limit (with_session P st s1) None (of_nat (length xs)) =
      Some (bind_res (replies P onReceive ms st) (\<lambda>(t, a).
        bind_res (session_clear ((session_of P t)\<lparr>recv_buffer := b\<rparr>)) (\<lambda>(s, a').
          Inr (limit, with_session P t s, a @ map (event_of P) a'))))"
    "wf_session ((session_of P st)\<lparr>recv_buffer := b\<rparr>)" "buf_length b = buf_length (recv_of P st)"
proof -
  let ?s = "session_of P st" and ?i = "session_id (session_of P st)"
  note good' = good [unfolded recv_of_def] and u' = u [unfolded recv_of_def]
  from read_then_loop [OF good' u'] obtain p r b where
    b: "socket_read ?s xs = Inr (?s\<lparr>recv_buffer := (recv_buffer ?s)\<lparr>buffer := p\<rparr>\<rparr>)"
    "of_nat (length xs) \<noteq> (0 :: size_t)"
    "handle_read_loop ntoh (on_receive (event_handler ?s) ?i)
       (snd (DataIn ((recv_buffer ?s)\<lparr>buffer := p\<rparr>) (of_nat (length xs)))) [] =
       Some (Inr (r, b, received (event_handler ?s) ?i ms))"
    "wf_session (?s\<lparr>recv_buffer := b\<rparr>)" "r < 0" "buf_length b = buf_length (recv_buffer ?s)" by metis
  let ?c = "(recv_buffer ?s)\<lparr>buffer := p\<rparr>" and ?n = "of_nat (length xs) :: size_t"
  have deliver: "on_receive (event_handler ?s) ?i = Some (OnReceive ?i)" using handler by (simp add: on_receive_def)
  obtain ms' where ms': "received (event_handler ?s) ?i ms = map (OnReceive ?i) ms'"
    "callback_loop ntoh P onReceive (with_recv P st (snd (DataIn ?c ?n))) [] =
      Some (bind_res (replies P onReceive ms' st) (\<lambda>(t, a). Inr (r, with_recv P t b, a)))"
    using callback_loop_replies [OF b(3) [unfolded deliver] ok handler, of "[]"] by auto
  have "ms' = ms" using ms'(1) handler by (simp add: received_Some inj_map_eq_map inj_def)
  then have "callback_read ntoh P onReceive limit (with_session P st (?s\<lparr>recv_buffer := ?c\<rparr>)) None ?n =
      Some (bind_res (replies P onReceive ms st) (\<lambda>(t, a).
        bind_res (session_clear ((session_of P t)\<lparr>recv_buffer := b\<rparr>)) (\<lambda>(s, a').
          Inr (limit, with_session P t s, a @ map (event_of P) a'))))"
    using ms'(2) b(2,5) ok unfolding with_recv_def [symmetric]
    by (cases "replies P onReceive ms st")
      (auto simp: callback_read_def with_recv_simps get_put put_put with_recv_def [of _ _ b] dest!: replies_keeps [OF ok])
  then show ?thesis using that [OF b(1) _ b(4)] b(6) by (simp add: recv_of_def)
qed

end

section \<open>Answers\<close>

text \<open>A handler that answers a message with any number of messages, sent in order through the same session.\<close>

fun send_all :: "(u32 \<Rightarrow> u32) \<Rightarrow> byte list list \<Rightarrow> session \<Rightarrow> (session \<times> action list) res" where
  "send_all hton [] s = Inr (s, [])"
| "send_all hton (d # ds) s =
     bind_res (send hton s d (of_nat (length d))) (\<lambda>(ok, s, a).
     bind_res (send_all hton ds s) (\<lambda>(s, a').
     Inr (s, a @ a')))"

definition answer :: "(u32 \<Rightarrow> u32) \<Rightarrow> (byte list \<Rightarrow> byte list list) \<Rightarrow> (session, action) receive_handler" where
  "answer hton f i m s = send_all hton (f m) s"

lemma handle_write_keeps:
  "handle_write s = Inr (s', a) \<Longrightarrow>
   recv_buffer s' = recv_buffer s \<and> session_id s' = session_id s \<and> event_handler s' = event_handler s \<and> messages a = [] \<and> CloseSocket \<notin> set a"
  by (auto simp: handle_write_def bind_res_Inr_conv split: if_splits prod.splits)

lemma send_keeps:
  assumes "send hton s d n = Inr (ok, s', a)"
  shows "recv_buffer s' = recv_buffer s \<and> session_id s' = session_id s \<and> event_handler s' = event_handler s \<and> messages a = [] \<and> CloseSocket \<notin> set a"
proof -
  obtain r where r: "EncodePacket hton d n (GetInOffsetData (send_buffer s)) (GetLeftInSize (send_buffer s)) = Inr r"
    using assms by (auto simp: send_def bind_res_Inr_conv)
  show ?thesis
    using assms r by (cases r) (auto simp: send_def bind_res_Inr_conv Let_def dest!: handle_write_keeps)
qed

lemma handle_write_blind:
  "handle_write (s\<lparr>recv_buffer := b\<rparr>) = bind_res (handle_write s) (\<lambda>(s', a). Inr (s'\<lparr>recv_buffer := b\<rparr>, a))"
  by (auto simp: handle_write_def bind_res_def split: sum.splits prod.splits)

lemma send_blind:
  "send hton (s\<lparr>recv_buffer := b\<rparr>) d n = bind_res (send hton s d n) (\<lambda>(ok, s', a). Inr (ok, s'\<lparr>recv_buffer := b\<rparr>, a))"
proof -
  have written: "handle_write (s\<lparr>recv_buffer := b, send_buffer := w\<rparr>) =
      bind_res (handle_write (s\<lparr>send_buffer := w\<rparr>)) (\<lambda>(s', a). Inr (s'\<lparr>recv_buffer := b\<rparr>, a))" for w
    using handle_write_blind [of b "s\<lparr>send_buffer := w\<rparr>"] by (cases s) simp
  have pass: "bind_res (bind_res m (\<lambda>(s', a). Inr (s'\<lparr>recv_buffer := b\<rparr>, a))) (\<lambda>(s, acts). Inr (True, s, acts)) =
      bind_res (bind_res m (\<lambda>(s, acts). Inr (True, s, acts))) (\<lambda>(ok, s', a). Inr (ok, s'\<lparr>recv_buffer := b\<rparr>, a))"
    for m :: "(session \<times> action list) res"
    by (cases m) (auto simp: split_beta)
  show ?thesis
  proof (cases "EncodePacket hton d n (GetInOffsetData (send_buffer s)) (GetLeftInSize (send_buffer s))")
    case (Inr r)
    then show ?thesis by (cases r) (simp_all add: send_def Let_def written handle_write_blind pass)
  qed (simp add: send_def)
qed

lemma send_all_keeps:
  "send_all hton ds s = Inr (s', a) \<Longrightarrow>
   recv_buffer s' = recv_buffer s \<and> session_id s' = session_id s \<and> event_handler s' = event_handler s \<and> messages a = [] \<and> CloseSocket \<notin> set a"
  by (induction ds arbitrary: s a) (auto simp: bind_res_Inr_conv dest!: send_keeps)

lemma send_all_blind:
  "send_all hton ds (s\<lparr>recv_buffer := b\<rparr>) = bind_res (send_all hton ds s) (\<lambda>(s', a). Inr (s'\<lparr>recv_buffer := b\<rparr>, a))"
proof (induction ds arbitrary: s)
  case (Cons d ds)
  then show ?case by (auto simp: send_blind bind_res_def split: sum.splits prod.splits)
qed simp

interpretation answering: reply_handler own_session "\<lambda>_. True" "answer hton f" for hton f
  by unfold_locales (auto simp: answer_def send_all_blind dest: send_all_keeps)

lemmas answering_read = answering.callback_read_good [OF TrueI, unfolded own_session_simps map_ident]

section \<open>A handler that closes the session\<close>

text \<open>Closing from within \<open>onReceive\<close> derails the loop. \<open>clear\<close> sets both offsets of the receive buffer to 0, then
  \<open>handle_read\<close> still uses the data of the message: the use offset passes the end of the data and the difference of
  the two wraps, so the loop goes on decoding almost 4 GB of old bytes for a session that is closed.\<close>

theorem closing_handler_reads_on:
  assumes "wf_session s" and "event_handler s = Some h" and "frame ntoh (pending (recv_buffer s)) = Frame m n" and "m \<noteq> []"
  shows "\<exists>s'. callback_loop ntoh own_session (\<lambda>i data. session_clear) s acts =
      callback_loop ntoh own_session (\<lambda>i data. session_clear) s' (acts @ [OnReceive (session_id s) m, CloseSocket]) \<and>
    \<not> connected s' \<and> GetCanUseSize (recv_buffer s') = - of_nat (length m)"
proof -
  let ?b = "recv_buffer s"
  have wf: "wf_recv ?b" "buf_length ?b \<noteq> 0" using assms(1) by (simp_all add: wf_session_def)
  have dec: "DecodePacket ntoh (GetCanUseBuffer ?b) (GetCanUseSize ?b) = Inr (Decoded 8 (of_nat (length m)))"
    using DecodePacket_pending [OF wf, of ntoh] assms(3) by simp
  let ?b1 = "snd (DataUse ?b 8 False)"
  note m = packet_round(1) [OF wf(1) assms(3)]
  have msg: "mem_read (buffer ?b1) (unat (in_used_offset ?b1)) (unat (of_nat (length m) :: size_t)) = Inr m"
    unfolding m by (rule packet_round(2) [OF wf(1) assms(3)])
  let ?r = "?b1\<lparr>in_offset := 0, out_offset := 0, in_used_offset := 0, used_out_reset := True\<rparr>"
  obtain t where t: "session_clear (s\<lparr>recv_buffer := ?b1\<rparr>) = Inr (t, [CloseSocket])" "recv_buffer t = ?r" "\<not> connected t"
    by (simp add: session_clear_def HSRecvBuffer_Clear_keep HSSendBuffer_Clear_keep)
  have ne: "(of_nat (length m) :: size_t) \<noteq> 0"
    using m assms(4) by (metis length_0_conv unat_0)
  let ?b2 = "snd (DataUse ?r (of_nat (length m)) False)"
  have b2: "in_offset ?b2 = 0" "in_used_offset ?b2 = of_nat (length m)"
    using ne by (simp_all add: DataUse_def Let_def)
  have "callback_loop ntoh own_session (\<lambda>i data. session_clear) s acts =
      callback_loop ntoh own_session (\<lambda>i data. session_clear) (t\<lparr>recv_buffer := ?b2\<rparr>) (acts @ [OnReceive (session_id s) m, CloseSocket])"
    using dec msg t assms(2) b2 ne by (subst callback_loop.simps) (simp add: Let_def GetUsedSize_def)
  moreover have "GetCanUseSize (recv_buffer (t\<lparr>recv_buffer := ?b2\<rparr>)) = - of_nat (length m)"
    using b2 by (simp add: GetCanUseSize_def)
  ultimately show ?thesis using t(3) by (intro exI [of _ "t\<lparr>recv_buffer := ?b2\<rparr>"]) simp
qed

end
