(* ===== verification/HS_Conversation.thy ===== *)
theory HS_Conversation
  imports HS_Handler
begin

text \<open>
  Both directions of a connection. The peer's packets arrive in reads of any size; the handler of the session
  answers each message from within \<open>handle_read\<close>; the answers go out through asynchronous writes that
  complete, partly or not at all, between the reads. The steps of the write side are those of \<open>HS_SessionStream\<close>.
\<close>

section \<open>Sends of a handler\<close>

text \<open>The messages of a list for which \<open>send\<close> finds room.\<close>

fun taken :: "(u32 \<Rightarrow> u32) \<Rightarrow> byte list list \<Rightarrow> session \<Rightarrow> byte list list" where
  "taken hton [] s = []"
| "taken hton (d # ds) s =
     (case send hton s d (of_nat (length d)) of
        Inl e \<Rightarrow> []
      | Inr (ok, s', a) \<Rightarrow> (if ok \<and> has_room s d then [d] else []) @ taken hton ds s')"

lemma send_total:
  assumes "wf_session s" "length d < 2 ^ 32 - 8"
  obtains ok s' a where "send hton s d (of_nat (length d)) = Inr (ok, s', a)"
proof -
  consider (long) "8184 < length d" | (full) "packet_ok d" "\<not> has_room s d" | (queued) "packet_ok d" "has_room s d"
    unfolding packet_ok_def by (meson leI)
  then show ?thesis
  proof cases
    case long
    show ?thesis by (rule that [OF send_too_long [OF long assms(2)]])
  next
    case full
    then show ?thesis using that send_no_room [OF assms(1) full, of hton] by (auto simp: handle_write_result [OF assms(1)] split: if_splits)
  next
    case queued
    then obtain b where b: "send hton s d (of_nat (length d)) =
        (case handle_write (s\<lparr>send_buffer := b\<rparr>) of Inl e \<Rightarrow> Inl e | Inr (s', acts) \<Rightarrow> Inr (True, s', acts))"
      "wf_session (s\<lparr>send_buffer := b\<rparr>)"
      using send_queued [OF assms(1) queued, of hton] by metis
    then show ?thesis using that by (auto simp: handle_write_result [OF b(2)] split: if_splits)
  qed
qed

text \<open>Such a list of sends is a sequence of steps of the write side, and never faults.\<close>

lemma send_all_steps:
  "write_inv hton w \<Longrightarrow> \<forall>d\<in>set ds. length d < 2 ^ 32 - 8 \<Longrightarrow>
   \<exists>s' a. send_all hton ds (sess w) = Inr (s', a) \<and>
     (write_step hton)\<^sup>*\<^sup>* w (w\<lparr>sess := s', outstanding := started a (outstanding w),
       accepted := accepted w @ taken hton ds (sess w)\<rparr>)"
proof (induction ds arbitrary: w)
  case Nil
  then show ?case by simp
next
  case (Cons d ds)
  have wf: "wf_session (sess w)" and len: "length d < 2 ^ 32 - 8" using Cons.prems by (simp_all add: write_inv_def)
  obtain ok s' a where send: "send hton (sess w) d (of_nat (length d)) = Inr (ok, s', a)" using send_total [OF wf len] .
  let ?w = "w\<lparr>sess := s', outstanding := started a (outstanding w),
    accepted := accepted w @ (if ok \<and> has_room (sess w) d then [d] else [])\<rparr>"
  have step: "write_step hton w ?w" using write_step.call_send [OF len send] .
  obtain s'' a' where rest: "send_all hton ds (sess ?w) = Inr (s'', a')"
    "(write_step hton)\<^sup>*\<^sup>* ?w (?w\<lparr>sess := s'', outstanding := started a' (outstanding ?w),
       accepted := accepted ?w @ taken hton ds (sess ?w)\<rparr>)"
    using Cons.IH [OF write_step_inv [OF step Cons.prems(1)]] Cons.prems(2) by auto
  have "(write_step hton)\<^sup>*\<^sup>* w (w\<lparr>sess := s'', outstanding := started (a @ a') (outstanding w),
      accepted := accepted w @ taken hton (d # ds) (sess w)\<rparr>)"
    using converse_rtranclp_into_rtranclp [of "write_step hton", OF step rest(2)] send by simp
  then show ?case using send rest(1) by simp
qed

lemma send_all_append:
  "send_all hton (ds @ ds') s =
     bind_res (send_all hton ds s) (\<lambda>(s', a). bind_res (send_all hton ds' s') (\<lambda>(s'', a'). Inr (s'', a @ a')))"
proof (induction ds arbitrary: s)
  case Nil
  then show ?case by (cases "send_all hton ds' s") auto
next
  case (Cons d ds)
  show ?case
  proof (cases "send hton s d (of_nat (length d))")
    case (Inr r)
    obtain ok s' a where r: "r = (ok, s', a)" by (cases r)
    show ?thesis
    proof (cases "send_all hton ds s'")
      case (Inr r')
      obtain s'' a' where "r' = (s'', a')" by (cases r')
      then show ?thesis using Cons.IH [of s'] Inr \<open>send hton s d (of_nat (length d)) = Inr r\<close> r
        by (cases "send_all hton ds' s''") auto
    qed (use Cons.IH [of s'] Inr r in simp)
  qed simp
qed

text \<open>A handler that answers makes the sends of its answers.\<close>

lemma replies_answer:
  "send_all hton (concat (map f ms)) s = Inr (s', a) \<Longrightarrow>
   \<exists>a'. replies own_session (answer hton f) ms s = Inr (s', a') \<and> messages a' = ms \<and> (\<forall>prev. started a' prev = started a prev)"
proof (induction ms arbitrary: s a)
  case (Cons m ms)
  obtain t a1 a2 where split: "send_all hton (f m) s = Inr (t, a1)"
    "send_all hton (concat (map f ms)) t = Inr (s', a2)" "a = a1 @ a2"
    using Cons.prems by (auto simp: send_all_append bind_res_Inr_conv)
  obtain a' where "replies own_session (answer hton f) ms t = Inr (s', a')" "messages a' = ms"
    "\<And>prev. started a' prev = started a2 prev"
    using Cons.IH [OF split(2)] by blast
  moreover have "answer hton f (session_id s) m s = Inr (t, a1)" using split(1) by (simp add: answer_def)
  ultimately show ?case using split(3) send_all_keeps [OF split(1)] by simp
qed simp

subsection \<open>Room for all answers\<close>

text \<open>The room that messages take in a send buffer.\<close>

definition room_for :: "byte list list \<Rightarrow> nat" where
  "room_for ds = (\<Sum>d\<leftarrow>ds. length d + 8)"

lemma room_for_simps [simp]:
  "room_for [] = 0" "room_for (d # ds) = length d + 8 + room_for ds" "room_for (ds @ ds') = room_for ds + room_for ds'"
  by (simp_all add: room_for_def)

lemma handle_write_buffer: "handle_write s = Inr (s', a) \<Longrightarrow> send_buffer s' = send_buffer s"
  by (auto simp: handle_write_def bind_res_Inr_conv split: if_splits prod.splits)

lemma send_takes_room:
  assumes wf: "wf_session s" and d: "length d \<le> 8184" and room: "has_room s d"
    and send: "send hton s d (of_nat (length d)) = Inr (ok, s', a)"
  shows "ok \<and> wf_session s' \<and> buf_length (send_buffer s') = buf_length (send_buffer s) \<and>
    unat (in_offset (send_buffer s')) = unat (in_offset (send_buffer s)) + length d + 8"
proof -
  have ok: "packet_ok d" using d by (simp add: packet_ok_def)
  obtain b where b: "send hton s d (of_nat (length d)) =
      (case handle_write (s\<lparr>send_buffer := b\<rparr>) of Inl e \<Rightarrow> Inl e | Inr (s', acts) \<Rightarrow> Inr (True, s', acts))"
    "wf_session (s\<lparr>send_buffer := b\<rparr>)" "unat (in_offset b) = unat (in_offset (send_buffer s)) + length (packet hton d)"
    "buf_length b = buf_length (send_buffer s)"
    using send_queued [OF wf ok room, of hton] by metis
  then have w: "handle_write (s\<lparr>send_buffer := b\<rparr>) = Inr (s', a)" "ok" using send by (auto split: sum.splits)
  have "wf_session s'" using w(1) b(2) by (auto simp: handle_write_result wf_session_def split: if_splits)
  then show ?thesis using w b(3,4) handle_write_buffer [OF w(1)] by simp
qed

lemma has_room_iff:
  assumes "wf_session s"
  shows "has_room s d \<longleftrightarrow> unat (in_offset (send_buffer s)) + length d + 8 \<le> unat (buf_length (send_buffer s))"
proof -
  have "wf_buffer (send_buffer s)" using assms by (auto simp: wf_session_def wf_sendD)
  then show ?thesis using unat_GetLeftInSize [of "send_buffer s"] wf_buffer_in_le [of "send_buffer s"] by (auto simp: has_room_def)
qed

lemma all_taken:
  "wf_session s \<Longrightarrow> \<forall>d\<in>set ds. length d \<le> 8184 \<Longrightarrow>
   unat (in_offset (send_buffer s)) + room_for ds \<le> unat (buf_length (send_buffer s)) \<Longrightarrow>
   send_all hton ds s = Inr (s', a) \<Longrightarrow>
   taken hton ds s = ds \<and> buf_length (send_buffer s') = buf_length (send_buffer s) \<and>
   unat (in_offset (send_buffer s')) = unat (in_offset (send_buffer s)) + room_for ds"
proof (induction ds arbitrary: s a)
  case (Cons d ds)
  obtain ok t a1 a2 where send: "send hton s d (of_nat (length d)) = Inr (ok, t, a1)" "send_all hton ds t = Inr (s', a2)"
    using Cons.prems(4) by (auto simp: bind_res_Inr_conv)
  have room: "has_room s d" using Cons.prems(3) by (simp add: has_room_iff [OF Cons.prems(1)])
  have d: "length d \<le> 8184" using Cons.prems(2) by simp
  note t = send_takes_room [OF Cons.prems(1) d room send(1)]
  have "taken hton ds t = ds \<and> buf_length (send_buffer s') = buf_length (send_buffer t) \<and>
      unat (in_offset (send_buffer s')) = unat (in_offset (send_buffer t)) + room_for ds"
    using Cons.IH [OF _ _ _ send(2)] Cons.prems(2,3) t by simp
  then show ?case using t send(1) room by simp
qed simp

lemma taken_subseq: "subseq (taken hton ds s) ds"
proof (induction ds arbitrary: s)
  case (Cons d ds)
  show ?case
  proof (cases "send hton s d (of_nat (length d))")
    case (Inr r)
    then show ?thesis using Cons.IH by (cases r) (auto intro: subseq_Cons')
  qed simp
qed simp

section \<open>Both directions\<close>

text \<open>The write side, the bytes of the peer that have not been read, the compaction limit and the messages that the
  handler got.\<close>

record duplex =
  traffic :: write_sys
  incoming :: "byte list"
  move_limit :: "size_t option"
  got :: "byte list list"

definition after_read ::
  "(u32 \<Rightarrow> u32) \<Rightarrow> (byte list \<Rightarrow> byte list list) \<Rightarrow> duplex \<Rightarrow> byte list \<Rightarrow> size_t option \<Rightarrow> session \<Rightarrow> action list \<Rightarrow> duplex" where
  "after_read hton f d rest limit s acts =
     \<lparr>traffic = (traffic d)\<lparr>sess := s, outstanding := started acts (outstanding (traffic d)),
        accepted := accepted (traffic d) @ taken hton (concat (map f (messages acts))) (sess (traffic d))\<rparr>,
      incoming = rest, move_limit = limit, got = got d @ messages acts\<rparr>"

inductive duplex_step ::
  "(u32 \<Rightarrow> u32) \<Rightarrow> (u32 \<Rightarrow> u32) \<Rightarrow> (byte list \<Rightarrow> byte list list) \<Rightarrow> duplex \<Rightarrow> duplex \<Rightarrow> bool" for hton ntoh f where
  duplex_read: "incoming d = xs @ rest \<Longrightarrow> xs \<noteq> [] \<Longrightarrow>
    length xs \<le> unat (GetLeftInSize (recv_buffer (sess (traffic d)))) \<Longrightarrow>
    socket_read (sess (traffic d)) xs = Inr s1 \<Longrightarrow>
    callback_read ntoh own_session (answer hton f) (move_limit d) s1 None (of_nat (length xs)) = Some (Inr (limit', s', acts)) \<Longrightarrow>
    duplex_step hton ntoh f d (after_read hton f d rest limit' s' acts)"
| duplex_done: "outstanding (traffic d) = Some xs \<Longrightarrow> 0 < n \<Longrightarrow> n \<le> length xs \<Longrightarrow>
    write_result (sess (traffic d)) None (of_nat n) = Inr (s', acts) \<Longrightarrow>
    duplex_step hton ntoh f d (d\<lparr>traffic := (traffic d)\<lparr>sess := s', outstanding := started acts None,
      wire := wire (traffic d) @ take n xs\<rparr>\<rparr>)"
| duplex_blocked: "outstanding (traffic d) = Some xs \<Longrightarrow>
    write_result (sess (traffic d)) (Some 10035) n = Inr (s', acts) \<Longrightarrow>
    duplex_step hton ntoh f d (d\<lparr>traffic := (traffic d)\<lparr>sess := s', outstanding := started acts None\<rparr>\<rparr>)"

definition duplex_start :: "session \<Rightarrow> size_t option \<Rightarrow> byte list \<Rightarrow> duplex" where
  "duplex_start s limit stream = \<lparr>traffic = write_start s, incoming = stream, move_limit = limit, got = []\<rparr>"

text \<open>The answers to the peer's messages \<open>ms\<close> fit a send buffer of \<open>n\<close> bytes, even if nothing leaves it.\<close>

definition answers_fit :: "(byte list \<Rightarrow> byte list list) \<Rightarrow> byte list list \<Rightarrow> size_t \<Rightarrow> bool" where
  "answers_fit f ms n \<longleftrightarrow> (\<forall>m\<in>set ms. \<forall>d\<in>set (f m). length d \<le> 8184) \<and> room_for (concat (map f ms)) \<le> unat n"

definition read_inv :: "(u32 \<Rightarrow> u32) \<Rightarrow> byte list list \<Rightarrow> duplex \<Rightarrow> bool" where
  "read_inv ntoh ms d \<longleftrightarrow>
     (let s = sess (traffic d); b = recv_buffer s in
      event_handler s \<noteq> None \<and> limit_ok s (move_limit d) \<and> 0 < unat (GetLeftInSize b) \<and>
      unframe (frame ntoh) (pending b) = ([], pending b, False) \<and>
      (\<exists>ms'. ms = got d @ ms' \<and> unframe (frame ntoh) (pending b @ incoming d) = (ms', [], False)))"

definition answer_inv :: "(byte list \<Rightarrow> byte list list) \<Rightarrow> size_t \<Rightarrow> byte list list \<Rightarrow> duplex \<Rightarrow> bool" where
  "answer_inv f n ms d \<longleftrightarrow>
     subseq (accepted (traffic d)) (concat (map f (got d))) \<and>
     (answers_fit f ms n \<longrightarrow> buf_length (send_buffer (sess (traffic d))) = n \<and>
        accepted (traffic d) = concat (map f (got d)) \<and>
        unat (in_offset (send_buffer (sess (traffic d)))) \<le> room_for (concat (map f (got d))))"

text \<open>A read.\<close>

lemma answer_inv_read:
  assumes inv: "answer_inv f n ms d" and wf: "wf_session (sess (traffic d))" and ms: "ms = got d @ ms1 @ ms2"
    and sent: "send_all hton (concat (map f ms1)) (sess (traffic d)) = Inr (t, a)"
    and acts: "messages acts = ms1" and s': "send_buffer s' = send_buffer t"
  shows "answer_inv f n ms (after_read hton f d rest limit' s' acts)"
proof -
  let ?s = "sess (traffic d)" and ?answers = "concat (map f ms1)"
  have sub: "subseq (accepted (traffic d) @ taken hton ?answers ?s) (concat (map f (got d)) @ ?answers)"
    using inv taken_subseq by (auto simp: answer_inv_def intro: list_emb_append_mono)
  have "buf_length (send_buffer s') = n \<and> taken hton ?answers ?s = ?answers \<and>
      unat (in_offset (send_buffer s')) \<le> room_for (concat (map f (got d))) + room_for ?answers"
    if fit: "answers_fit f ms n"
  proof -
    have short: "\<forall>d\<in>set ?answers. length d \<le> 8184" using fit by (auto simp: answers_fit_def ms)
    have "unat (in_offset (send_buffer ?s)) + room_for ?answers \<le> unat (buf_length (send_buffer ?s))"
      using fit inv by (simp add: answers_fit_def answer_inv_def ms)
    from all_taken [OF wf short this sent] show ?thesis using inv fit s' by (simp add: answer_inv_def)
  qed
  then show ?thesis using inv sub acts by (auto simp: answer_inv_def after_read_def)
qed

lemma read_works:
  assumes net: "net_order hton ntoh" and short: "\<forall>m\<in>set ms. \<forall>d\<in>set (f m). length d < 2 ^ 32 - 8"
    and inv: "write_inv hton (traffic d)" "read_inv ntoh ms d" "answer_inv f n ms d"
    and xs: "incoming d = xs @ rest" "xs \<noteq> []" "length xs \<le> unat (GetLeftInSize (recv_buffer (sess (traffic d))))"
  obtains s1 limit' s' acts where "socket_read (sess (traffic d)) xs = Inr s1"
    "callback_read ntoh own_session (answer hton f) (move_limit d) s1 None (of_nat (length xs)) = Some (Inr (limit', s', acts))"
    "write_inv hton (traffic (after_read hton f d rest limit' s' acts))"
    "read_inv ntoh ms (after_read hton f d rest limit' s' acts)"
    "answer_inv f n ms (after_read hton f d rest limit' s' acts)"
proof -
  let ?s = "sess (traffic d)"
  have wf: "wf_session ?s" using inv(1) by (simp add: write_inv_def)
  note reads = inv(2) [unfolded read_inv_def Let_def xs(1)]
  obtain h where h: "event_handler ?s = Some h" using reads by (elim conjE) blast
  obtain ms' where ms': "ms = got d @ ms'" "unframe (frame ntoh) (pending (recv_buffer ?s) @ xs @ rest) = (ms', [], False)"
    using reads by (elim conjE exE)
  have lim: "limit_ok ?s (move_limit d)" using reads by (elim conjE)
  obtain ms1 r1 ms2 where sp: "unframe (frame ntoh) (pending (recv_buffer ?s) @ xs) = (ms1, r1, False)"
    "unframe (frame ntoh) (r1 @ rest) = (ms2, [], False)" "ms' = ms1 @ ms2" "unframe (frame ntoh) r1 = ([], r1, False)"
    by (rule net_order.stream_split [OF net ms'(2)])
  obtain s1 limit' b where r: "socket_read ?s xs = Inr s1"
    "callback_read ntoh own_session (answer hton f) (move_limit d) s1 None (of_nat (length xs)) =
      Some (bind_res (replies own_session (answer hton f) ms1 ?s) (\<lambda>(t, a).
        Inr (limit', t\<lparr>recv_buffer := b\<rparr>, a @ session_start (?s\<lparr>recv_buffer := b\<rparr>))))"
    "wf_session (?s\<lparr>recv_buffer := b\<rparr>)" "pending b = r1" "limit_ok (?s\<lparr>recv_buffer := b\<rparr>) limit'"
    "0 < unat (GetLeftInSize b)"
    by (rule answering_read [OF wf xs(2,3) sp(1) lim h])
  have "\<forall>d\<in>set (concat (map f ms1)). length d < 2 ^ 32 - 8" using short ms'(1) sp(3) by auto
  from send_all_steps [OF inv(1) this] obtain t a where sent: "send_all hton (concat (map f ms1)) ?s = Inr (t, a)"
    "(write_step hton)\<^sup>*\<^sup>* (traffic d) ((traffic d)\<lparr>sess := t, outstanding := started a (outstanding (traffic d)),
       accepted := accepted (traffic d) @ taken hton (concat (map f ms1)) ?s\<rparr>)" by blast
  obtain a' where a': "replies own_session (answer hton f) ms1 ?s = Inr (t, a')" "messages a' = ms1"
    "\<And>prev. started a' prev = started a prev"
    using replies_answer [OF sent(1)] by blast
  let ?t = "t\<lparr>recv_buffer := b\<rparr>" and ?acts = "a' @ session_start (?s\<lparr>recv_buffer := b\<rparr>)"
  let ?d = "after_read hton f d rest limit' ?t ?acts"
  have acts: "messages ?acts = ms1" "started ?acts prev = started a prev" for prev
    using a' by (simp_all add: session_start_def)
  have keep: "event_handler t = event_handler ?s" using send_all_keeps [OF sent(1)] by simp
  have "write_inv hton ((traffic d)\<lparr>sess := t, outstanding := started a (outstanding (traffic d)),
      accepted := accepted (traffic d) @ taken hton (concat (map f ms1)) ?s\<rparr>)"
    by (rule write_reach_inv [OF sent(2) inv(1)])
  then have "write_inv hton (traffic ?d)"
    using acts r(3) by (simp add: write_inv_def after_read_def wf_session_def)
  moreover have "read_inv ntoh ms ?d"
    using r(4-6) sp h ms'(1) acts keep by (simp add: read_inv_def after_read_def Let_def limit_ok_def)
  moreover have "answer_inv f n ms ?d"
    using answer_inv_read [OF inv(3) wf _ sent(1) acts(1), of ms2] ms'(1) sp(3) by simp
  moreover have "callback_read ntoh own_session (answer hton f) (move_limit d) s1 None (of_nat (length xs)) = Some (Inr (limit', ?t, ?acts))"
    using r(2) a'(1) by simp
  ultimately show ?thesis using that r(1) by blast
qed

text \<open>A completion.\<close>

lemma completion_keeps:
  assumes inv: "write_inv hton w" and out: "outstanding w = Some xs"
    and fin: "(0 < n \<and> n \<le> length xs \<and> write_result (sess w) None (of_nat n) = Inr (s', acts)) \<or>
      write_result (sess w) (Some 10035) m = Inr (s', acts)"
  shows "recv_buffer s' = recv_buffer (sess w) \<and> event_handler s' = event_handler (sess w) \<and>
    buf_length (send_buffer s') = buf_length (send_buffer (sess w)) \<and> in_offset (send_buffer s') \<le> in_offset (send_buffer (sess w))"
proof -
  obtain ys where ys: "unsent (send_buffer (sess w)) = xs @ ys" "handle_sending (sess w)" "wf_session (sess w)"
    using inv out by (auto simp: write_inv_def)
  from fin show ?thesis
  proof (elim disjE conjE)
    assume n: "0 < n" "n \<le> length xs" "write_result (sess w) None (of_nat n) = Inr (s', acts)"
    then have "n \<le> length (unsent (send_buffer (sess w)))" using ys(1) by simp
    from write_result_done [OF ys(3,2) n(1) this] obtain b where
      "write_result (sess w) None (of_nat n) = Inr ((sess w)\<lparr>send_buffer := b, handle_sending := False\<rparr>, [])"
      "in_offset b \<le> in_offset (send_buffer (sess w))" "buf_length b = buf_length (send_buffer (sess w))" by metis
    then show ?thesis using n(3) by auto
  next
    assume "write_result (sess w) (Some 10035) m = Inr (s', acts)"
    then show ?thesis using write_result_blocked [OF ys(3,2), of m] by auto
  qed
qed

lemma completion_inv:
  assumes "read_inv ntoh ms d" "answer_inv f n ms d"
    and "recv_buffer s' = recv_buffer (sess (traffic d)) \<and> event_handler s' = event_handler (sess (traffic d)) \<and>
      buf_length (send_buffer s') = buf_length (send_buffer (sess (traffic d))) \<and>
      in_offset (send_buffer s') \<le> in_offset (send_buffer (sess (traffic d)))"
    and w: "sess w = s'" "accepted w = accepted (traffic d)"
  shows "read_inv ntoh ms (d\<lparr>traffic := w\<rparr>) \<and> answer_inv f n ms (d\<lparr>traffic := w\<rparr>)"
proof -
  have "unat (in_offset (send_buffer s')) \<le> unat (in_offset (send_buffer (sess (traffic d))))"
    using assms(3) by (simp add: word_le_nat_alt)
  then show ?thesis
    using assms by (auto simp: read_inv_def answer_inv_def Let_def limit_ok_def intro: order_trans)
qed

lemma duplex_step_inv:
  assumes net: "net_order hton ntoh" and short: "\<forall>m\<in>set ms. \<forall>d\<in>set (f m). length d < 2 ^ 32 - 8"
    and step: "duplex_step hton ntoh f d d'"
    and inv: "write_inv hton (traffic d)" "read_inv ntoh ms d" "answer_inv f n ms d"
  shows "write_inv hton (traffic d') \<and> read_inv ntoh ms d' \<and> answer_inv f n ms d'"
  using step
proof (cases rule: duplex_step.cases)
  case (duplex_read xs rest s1 limit' s' acts)
  obtain t1 limit'' t' acts' where r: "socket_read (sess (traffic d)) xs = Inr t1"
    "callback_read ntoh own_session (answer hton f) (move_limit d) t1 None (of_nat (length xs)) = Some (Inr (limit'', t', acts'))"
    "write_inv hton (traffic (after_read hton f d rest limit'' t' acts'))"
    "read_inv ntoh ms (after_read hton f d rest limit'' t' acts')"
    "answer_inv f n ms (after_read hton f d rest limit'' t' acts')"
    by (rule read_works [OF net short inv duplex_read(2-4)])
  have "t1 = s1" using r(1) duplex_read(5) by simp
  then have "limit'' = limit'" "t' = s'" "acts' = acts" using r(2) duplex_read(6) by simp_all
  then show ?thesis using r(3-5) duplex_read(1) by simp
next
  case (duplex_done xs k s' acts)
  then have "write_inv hton (traffic d')"
    using write_step_inv [OF write_step.write_done inv(1)] by simp
  moreover have "read_inv ntoh ms d' \<and> answer_inv f n ms d'"
    unfolding duplex_done(1)
    by (rule completion_inv [OF inv(2,3) completion_keeps [OF inv(1) duplex_done(2)], of k s' acts])
      (use duplex_done(3-5) in simp_all)
  ultimately show ?thesis by blast
next
  case (duplex_blocked xs k s' acts)
  then have "write_inv hton (traffic d')"
    using write_step_inv [OF write_step.write_blocked inv(1)] by simp
  moreover have "read_inv ntoh ms d' \<and> answer_inv f n ms d'"
    unfolding duplex_blocked(1)
    by (rule completion_inv [OF inv(2,3) completion_keeps [OF inv(1) duplex_blocked(2)], of 0 s' acts k])
      (use duplex_blocked(3) in simp_all)
  ultimately show ?thesis by blast
qed

lemma duplex_run_inv:
  assumes net: "net_order hton ntoh" and short: "\<forall>m\<in>set ms. \<forall>d\<in>set (f m). length d < 2 ^ 32 - 8"
  shows "(duplex_step hton ntoh f)\<^sup>*\<^sup>* d d' \<Longrightarrow> write_inv hton (traffic d) \<and> read_inv ntoh ms d \<and> answer_inv f n ms d \<Longrightarrow>
    write_inv hton (traffic d') \<and> read_inv ntoh ms d' \<and> answer_inv f n ms d'"
proof (induction rule: rtranclp_induct)
  case (step d' d'')
  then show ?case using duplex_step_inv [OF net short step(2)] by blast
qed

text \<open>A session that may start a conversation.\<close>

definition ready :: "session \<Rightarrow> size_t option \<Rightarrow> bool" where
  "ready s limit \<longleftrightarrow> wf_session s \<and> event_handler s \<noteq> None \<and> limit_ok s limit \<and> pending (recv_buffer s) = [] \<and>
     0 < unat (GetLeftInSize (recv_buffer s)) \<and> \<not> handle_sending s \<and> in_offset (send_buffer s) = 0"

lemma duplex_start_inv:
  assumes net: "net_order hton ntoh" and s: "ready s limit" and ms: "\<forall>m\<in>set ms. length m \<le> 8184"
  shows "write_inv hton (traffic (duplex_start s limit (concat (map (packet hton) ms)))) \<and>
    read_inv ntoh ms (duplex_start s limit (concat (map (packet hton) ms))) \<and>
    answer_inv f (buf_length (send_buffer s)) ms (duplex_start s limit (concat (map (packet hton) ms)))"
proof -
  have "list_all packet_ok ms" using ms by (simp add: list_all_iff packet_ok_def)
  then have "unframe (frame ntoh) (concat (map (packet hton) ms)) = (ms, [], False)"
    by (rule net_order.stream_packets [OF net])
  moreover have "unsent (send_buffer s) = []" using s by (simp add: ready_def unsent_def filled_def)
  ultimately show ?thesis
    using s write_start_inv [of s hton] net_order.stream_Nil [OF net]
    by (simp add: ready_def duplex_start_def write_start_def read_inv_def answer_inv_def)
qed

section \<open>Properties\<close>

text \<open>C6: a conversation. The peer sends a sequence of messages; the handler of the session answers each of them, from
  within \<open>handle_read\<close>, by any number of calls of \<open>send\<close>. However the stream is cut into reads and the reads
  interleave with whole, partial and blocked writes: the handler gets a prefix of the messages; what went out
  and what waits to go out are the packets of answers, in the order of the messages, none twice and none cut;
  no answer is lost if the buffer has room for all; as long as bytes of the peer are left, the session reads on.\<close>

theorem conversation:
  assumes "net_order hton ntoh" and "ready s limit" and "\<forall>m\<in>set ms. length m \<le> 8184"
    and "\<forall>m\<in>set ms. \<forall>a\<in>set (f m). length a < 2 ^ 32 - 8"
    and "(duplex_step hton ntoh f)\<^sup>*\<^sup>* (duplex_start s limit (concat (map (packet hton) ms))) d"
  shows "prefix (got d) ms \<and> (incoming d = [] \<longrightarrow> got d = ms) \<and>
    wire (traffic d) @ unsent (send_buffer (sess (traffic d))) = concat (map (packet hton) (accepted (traffic d))) \<and>
    subseq (accepted (traffic d)) (concat (map f (got d))) \<and>
    (answers_fit f ms (buf_length (send_buffer s)) \<longrightarrow> accepted (traffic d) = concat (map f (got d))) \<and>
    0 < unat (GetLeftInSize (recv_buffer (sess (traffic d)))) \<and>
    (\<forall>k. 0 < k \<and> k \<le> length (incoming d) \<and> k \<le> unat (GetLeftInSize (recv_buffer (sess (traffic d)))) \<longrightarrow>
       (\<exists>d'. duplex_step hton ntoh f d d' \<and> incoming d' = drop k (incoming d)))"
proof -
  let ?n = "buf_length (send_buffer s)"
  have inv: "write_inv hton (traffic d)" "read_inv ntoh ms d" "answer_inv f ?n ms d"
    using duplex_run_inv [OF assms(1,4,5) duplex_start_inv [OF assms(1-3)]] by blast+
  note reads = inv(2) [unfolded read_inv_def Let_def]
  obtain ms' where ms': "ms = got d @ ms'" "unframe (frame ntoh) (pending (recv_buffer (sess (traffic d))) @ incoming d) = (ms', [], False)"
    using reads by (elim conjE exE)
  have "ms' = []" if "incoming d = []" using reads ms'(2) that by simp
  moreover have "\<exists>d'. duplex_step hton ntoh f d d' \<and> incoming d' = drop k (incoming d)"
    if k: "0 < k" "k \<le> length (incoming d)" "k \<le> unat (GetLeftInSize (recv_buffer (sess (traffic d))))" for k
  proof -
    have xs: "incoming d = take k (incoming d) @ drop k (incoming d)" "take k (incoming d) \<noteq> []"
      "length (take k (incoming d)) \<le> unat (GetLeftInSize (recv_buffer (sess (traffic d))))" using k by auto
    obtain s1 limit' s' acts where "socket_read (sess (traffic d)) (take k (incoming d)) = Inr s1"
      "callback_read ntoh own_session (answer hton f) (move_limit d) s1 None (of_nat (length (take k (incoming d)))) = Some (Inr (limit', s', acts))"
      by (rule read_works [OF assms(1,4) inv xs])
    from duplex_read [OF xs this] show ?thesis by (auto simp: after_read_def)
  qed
  moreover have "0 < unat (GetLeftInSize (recv_buffer (sess (traffic d))))" using reads by (elim conjE)
  ultimately show ?thesis using inv(1,3) ms'(1) by (auto simp: write_inv_def answer_inv_def)
qed


section \<open>Witnesses\<close>

lemma ex_ready: "ready (ex_session 32768) None"
  using ex_session_simps(1) [of 32768]
  by (simp add: ready_def ex_session_simps limit_ok_def)
    (simp add: ex_session_def attach_eventhandler_def HSSession_new_def HSSendBuffer_new_def HSBuffer_new_def
      hs_buffer.defs hs_send_buffer.defs)

lemma ex_echo:
  "\<exists>d. (duplex_step swap_u32 swap_u32 (\<lambda>m. [m]))\<^sup>*\<^sup>*
      (duplex_start (ex_session 32768) None (concat (map (packet swap_u32) [[5]]))) d \<and>
    incoming d = [] \<and> unsent (send_buffer (sess (traffic d))) = [] \<and> length (wire (traffic d)) = 9"
proof -
  let ?s = "ex_session 32768" and ?p = "packet swap_u32 [5]" and ?echo = "\<lambda>m :: byte list. [m]"
  let ?d0 = "duplex_start ?s None ?p"
  have wf: "wf_session ?s" by (rule ex_session_simps(1)) simp
  have ok: "packet_ok [5]" by (simp add: packet_ok_def)
  have u: "unframe (frame swap_u32) (pending (recv_buffer ?s) @ ?p) = ([[5]], [], False)"
    using net_order.stream_packets [OF little_endian.net_order_axioms, of "[[5]]"] ok by (simp add: ex_session_simps)
  have xs: "?p \<noteq> []" "length ?p \<le> unat (GetLeftInSize (recv_buffer ?s))"
    by (simp_all add: ex_session_simps flip: length_greater_0_conv)
  have lim: "limit_ok ?s None" using ex_ready by (simp add: ready_def)
  obtain s1 limit' b where read: "socket_read ?s ?p = Inr s1"
    "callback_read swap_u32 own_session (answer swap_u32 ?echo) None s1 None (of_nat (length ?p)) =
      Some (bind_res (replies own_session (answer swap_u32 ?echo) [[5]] ?s) (\<lambda>(t, a).
        Inr (limit', t\<lparr>recv_buffer := b\<rparr>, a @ session_start (?s\<lparr>recv_buffer := b\<rparr>))))"
    "wf_session (?s\<lparr>recv_buffer := b\<rparr>)"
    by (rule answering_read [OF wf xs u lim ex_session_simps(2)])
  have room: "has_room ?s [5]" by (simp add: has_room_def ex_session_simps)
  obtain w where w: "send swap_u32 ?s [5] (of_nat (length [5 :: byte])) =
      (case handle_write (?s\<lparr>send_buffer := w\<rparr>) of Inl e \<Rightarrow> Inl e | Inr (s', acts) \<Rightarrow> Inr (True, s', acts))"
    "wf_session (?s\<lparr>send_buffer := w\<rparr>)" "unsent w = ?p"
    using send_queued [OF wf ok room, of swap_u32] by (metis append_Nil ex_session_simps(5))
  let ?t = "?s\<lparr>send_buffer := w, handle_sending := True\<rparr>"
  have "handle_write (?s\<lparr>send_buffer := w\<rparr>) = Inr (?t, [AsyncWrite ?p])"
    using handle_write_result [OF w(2)] w(3) xs(1) by (simp add: ex_session_simps)
  then have "replies own_session (answer swap_u32 ?echo) [[5]] ?s = Inr (?t, [OnReceive 1 [5], AsyncWrite ?p])"
    using w(1) by (simp add: answer_def ex_session_simps)
  then have cb: "callback_read swap_u32 own_session (answer swap_u32 ?echo) None s1 None (of_nat (length ?p)) =
      Some (Inr (limit', ?t\<lparr>recv_buffer := b\<rparr>, [OnReceive 1 [5], AsyncWrite ?p] @ session_start (?s\<lparr>recv_buffer := b\<rparr>)))"
    using read(2) by simp
  let ?acts = "[OnReceive 1 [5], AsyncWrite ?p] @ session_start (?s\<lparr>recv_buffer := b\<rparr>)"
  let ?d1 = "after_read swap_u32 ?echo ?d0 [] limit' (?t\<lparr>recv_buffer := b\<rparr>) ?acts"
  have "duplex_step swap_u32 swap_u32 ?echo ?d0 ?d1"
    by (rule duplex_read [of _ ?p]) (use xs read(1) cb in \<open>simp_all add: duplex_start_def write_start_def\<close>)
  moreover have wf1: "wf_session (?t\<lparr>recv_buffer := b\<rparr>)" using w(2) read(3) by (simp add: wf_session_def)
  obtain w' where w': "write_result (?t\<lparr>recv_buffer := b\<rparr>) None (of_nat (length ?p)) =
      Inr (?t\<lparr>recv_buffer := b, send_buffer := w', handle_sending := False\<rparr>, [])"
    "unsent w' = drop (length ?p) (unsent w)"
    using write_result_done [OF wf1, of "length ?p"] w(3) by auto
  let ?d2 = "?d1\<lparr>traffic := (traffic ?d1)\<lparr>sess := ?t\<lparr>recv_buffer := b, send_buffer := w', handle_sending := False\<rparr>,
    outstanding := started [] None, wire := wire (traffic ?d1) @ take (length ?p) ?p\<rparr>\<rparr>"
  have "duplex_step swap_u32 swap_u32 ?echo ?d1 ?d2"
    by (rule duplex_done) (use w'(1) in \<open>simp_all add: after_read_def session_start_def\<close>)
  ultimately have "(duplex_step swap_u32 swap_u32 ?echo)\<^sup>*\<^sup>* ?d0 ?d2" by (meson r_into_rtranclp rtranclp_trans)
  moreover have "incoming ?d2 = [] \<and> unsent (send_buffer (sess (traffic ?d2))) = [] \<and> length (wire (traffic ?d2)) = 9"
    using w'(2) w(3) by (simp add: after_read_def duplex_start_def write_start_def)
  ultimately show ?thesis by auto
qed

theorem conversation_witness:
  "\<exists>d. (duplex_step swap_u32 swap_u32 (\<lambda>m. [m]))\<^sup>*\<^sup>*
      (duplex_start (ex_session 32768) None (concat (map (packet swap_u32) [[5]]))) d \<and>
    got d = [[5]] \<and> accepted (traffic d) = [[5]] \<and> wire (traffic d) = packet swap_u32 [5]"
proof -
  obtain d where d: "(duplex_step swap_u32 swap_u32 (\<lambda>m. [m]))\<^sup>*\<^sup>*
      (duplex_start (ex_session 32768) None (concat (map (packet swap_u32) [[5]]))) d"
    "incoming d = []" "unsent (send_buffer (sess (traffic d))) = []"
    using ex_echo by blast
  have "answers_fit (\<lambda>m. [m]) [[5 :: byte]] (buf_length (send_buffer (ex_session 32768)))"
    by (simp add: answers_fit_def ex_session_def attach_eventhandler_def HSSession_new_def HSSendBuffer_new_def HSBuffer_new_def
      hs_buffer.defs hs_send_buffer.defs)
  with conversation [OF little_endian.net_order_axioms ex_ready _ _ d(1)] d show ?thesis by auto
qed


end
