(* ===== verification/HS_Relay.thy ===== *)
theory HS_Relay
  imports HS_ClientServer HS_Conversation
begin

text \<open>
  A server with many clients. The handler of the server (\<open>hs_server.h\<close>) gets the id of a session and a message; it
  finds the sessions that it wants to write to in the registry (\<open>hs_sessionmgr\<close>) and calls their \<open>send\<close>. Reads,
  completed, partial and blocked writes and failing sockets of all clients interleave; they share the compaction
  limit of \<open>handle_read\<close>, a static variable.
\<close>

section \<open>A handler that writes to registered sessions\<close>

fun send_to :: "(u32 \<Rightarrow> u32) \<Rightarrow> (u32 \<times> byte list) list \<Rightarrow> session_mgr \<Rightarrow> (session_mgr \<times> (nat \<times> action) list) res" where
  "send_to hton [] m = Inr (m, [])"
| "send_to hton ((sid, d) # ds) m =
     (case get_session m sid of
        None \<Rightarrow> send_to hton ds m
      | Some ref \<Rightarrow>
          bind_res (send hton (store m ! ref) d (of_nat (length d))) (\<lambda>(ok, s, a).
          bind_res (send_to hton ds (set_session m ref s)) (\<lambda>(m, a').
          Inr (m, map (Pair ref) a @ a'))))"

definition route_handler ::
  "(u32 \<Rightarrow> u32) \<Rightarrow> (u32 \<Rightarrow> byte list \<Rightarrow> (u32 \<times> byte list) list) \<Rightarrow> (session_mgr, nat \<times> action) receive_handler" where
  "route_handler hton route sid data m = send_to hton (route sid data) m"

text \<open>A session in the registry, its actions among those of all sessions, and the messages for it in a list of sends.\<close>

definition stored :: "nat \<Rightarrow> (session_mgr, nat \<times> action) place" where
  "stored ref = \<lparr>session_of = (\<lambda>m. store m ! ref), with_session = (\<lambda>m s. set_session m ref s), event_of = Pair ref\<rparr>"

definition acts_of :: "nat \<Rightarrow> (nat \<times> action) list \<Rightarrow> action list" where
  "acts_of ref evs = map snd (filter (\<lambda>e. fst e = ref) evs)"

definition addressed :: "session_mgr \<Rightarrow> nat \<Rightarrow> (u32 \<times> byte list) list \<Rightarrow> byte list list" where
  "addressed m ref ds = map snd (filter (\<lambda>(sid, d). get_session m sid = Some ref) ds)"

lemma stored_simps [simp]:
  "session_of (stored ref) m = store m ! ref" "with_session (stored ref) m s = set_session m ref s"
  "event_of (stored ref) = Pair ref" "recv_of (stored ref) m = recv_buffer (store m ! ref)"
  "with_recv (stored ref) m b = set_session m ref ((store m ! ref)\<lparr>recv_buffer := b\<rparr>)"
  by (simp_all add: stored_def recv_of_def with_recv_def)

lemma acts_of_simps [simp]:
  "acts_of ref [] = []" "acts_of ref (evs @ evs') = acts_of ref evs @ acts_of ref evs'"
  "acts_of ref ((i, a) # evs) = (if i = ref then [a] else []) @ acts_of ref evs"
  "acts_of ref (map (Pair i) acts) = (if i = ref then acts else [])"
  by (auto simp: acts_of_def comp_def)

lemma addressed_simps [simp]:
  "addressed m ref [] = []" "addressed m ref (ds @ ds') = addressed m ref ds @ addressed m ref ds'"
  "addressed m ref ((sid, d) # ds) = (if get_session m sid = Some ref then [d] else []) @ addressed m ref ds"
  by (simp_all add: addressed_def)

lemma addressed_same: "sessions m = sessions m' \<Longrightarrow> addressed m = addressed m'"
  by (simp add: addressed_def get_session_def fun_eq_iff)

lemma get_session_set [simp]: "get_session (set_session m ref s) = get_session m"
  by (simp add: get_session_def fun_eq_iff)

lemma set_session_twice [simp]: "set_session (set_session m ref s) ref t = set_session m ref t"
  by (simp add: set_session_def)

lemma set_session_swap: "i \<noteq> j \<Longrightarrow> set_session (set_session m i s) j t = set_session (set_session m j t) i s"
  by (simp add: set_session_def list_update_swap)

lemma set_session_other: "i \<noteq> j \<Longrightarrow> store (set_session m i s) ! j = store m ! j"
  by (simp add: set_session_def)

text \<open>The fields of a session that a call of \<open>send\<close> leaves alone.\<close>

definition same_client :: "session \<Rightarrow> session \<Rightarrow> bool" where
  "same_client s t \<longleftrightarrow> recv_buffer s = recv_buffer t \<and> session_id s = session_id t \<and> event_handler s = event_handler t"

lemma send_to_keeps:
  "send_to hton ds m = Inr (m', a) \<Longrightarrow> m' = m\<lparr>store := store m'\<rparr> \<and> length (store m') = length (store m) \<and>
   (\<forall>j. same_client (store m' ! j) (store m ! j)) \<and> messages (acts_of j a) = [] \<and> CloseSocket \<notin> set (acts_of j a)"
proof (induction ds arbitrary: m a)
  case (Cons x ds)
  obtain sid d where x: "x = (sid, d)" by (cases x)
  show ?case
  proof (cases "get_session m sid")
    case None
    then show ?thesis using Cons x by simp
  next
    case (Some ref)
    then obtain ok s a1 a2 where s: "send hton (store m ! ref) d (of_nat (length d)) = Inr (ok, s, a1)"
      "send_to hton ds (set_session m ref s) = Inr (m', a2)" "a = map (Pair ref) a1 @ a2"
      using Cons.prems x by (auto simp: bind_res_Inr_conv)
    have "same_client (store (set_session m ref s) ! i) (store m ! i)" for i
      using send_keeps [OF s(1)]
      by (cases "i = ref"; cases "ref < length (store m)")
        (simp_all add: same_client_def set_session_other set_session_def list_update_beyond)
    moreover have "m' = m\<lparr>store := store m'\<rparr>"
      using Cons.IH [OF s(2)] by (cases m) (simp add: set_session_def)
    ultimately show ?thesis using Cons.IH [OF s(2)] send_keeps [OF s(1)] s(3) by (simp add: same_client_def)
  qed
qed (simp add: same_client_def)

text \<open>A session that nothing is sent to stays as it is.\<close>

lemma send_to_silent:
  "send_to hton ds m = Inr (m', a) \<Longrightarrow> addressed m j ds = [] \<Longrightarrow> store m' ! j = store m ! j \<and> acts_of j a = []"
proof (induction ds arbitrary: m a)
  case (Cons x ds)
  obtain sid d where x: "x = (sid, d)" by (cases x)
  show ?case
  proof (cases "get_session m sid")
    case None
    then show ?thesis using Cons x by simp
  next
    case (Some ref)
    then obtain ok s a1 a2 where s: "send_to hton ds (set_session m ref s) = Inr (m', a2)" "a = map (Pair ref) a1 @ a2"
      using Cons.prems x by (auto simp: bind_res_Inr_conv)
    have j: "ref \<noteq> j" "addressed (set_session m ref s) j ds = []"
      using Cons.prems(2) x Some addressed_same [of "set_session m ref s" m]
      by (auto simp: set_session_def split: if_splits)
    from Cons.IH [OF s(1) j(2)] j(1) s(2) show ?thesis by (simp add: set_session_other)
  qed
qed simp

lemma send_to_blind:
  "ref < length (store m) \<Longrightarrow> send_to hton ds (set_session m ref ((store m ! ref)\<lparr>recv_buffer := b\<rparr>)) =
   bind_res (send_to hton ds m) (\<lambda>(m', a). Inr (set_session m' ref ((store m' ! ref)\<lparr>recv_buffer := b\<rparr>), a))"
proof (induction ds arbitrary: m)
  case (Cons x ds)
  obtain sid d where x: "x = (sid, d)" by (cases x)
  show ?case
  proof (cases "get_session m sid")
    case None
    then show ?thesis using Cons x by simp
  next
    case (Some i)
    let ?m = "set_session m ref ((store m ! ref)\<lparr>recv_buffer := b\<rparr>)"
    show ?thesis
    proof (cases "send hton (store m ! i) d (of_nat (length d))")
      case (Inl e)
      then show ?thesis using x Some Cons.prems
        by (cases "i = ref") (simp_all add: send_blind set_session_other)
    next
      case (Inr r)
      obtain ok s a where r: "r = (ok, s, a)" by (cases r)
      let ?n = "set_session m i s"
      have len: "ref < length (store ?n)" using Cons.prems by simp
      have "send_to hton (x # ds) ?m =
          bind_res (send_to hton ds (set_session ?n ref ((store ?n ! ref)\<lparr>recv_buffer := b\<rparr>))) (\<lambda>(m', a').
            Inr (m', map (Pair i) a @ a'))"
      proof (cases "i = ref")
        case True
        then show ?thesis using x Some Inr r Cons.prems by (simp add: send_blind)
      next
        case False
        then show ?thesis using x Some Inr r Cons.prems set_session_swap [of ref i m] by (simp add: set_session_other)
      qed
      then show ?thesis using x Some Inr r Cons.IH [OF len]
        by (cases "send_to hton ds ?n") (auto split: prod.splits)
    qed
  qed
qed simp

text \<open>So the handler only sends, wherever its session is.\<close>

interpretation routing: reply_handler "stored ref" "\<lambda>m. ref < length (store m)" "route_handler hton route" for ref hton route
  by unfold_locales
    (auto simp: route_handler_def send_to_blind same_client_def dest: send_to_keeps)

lemmas routing_read = routing.callback_read_good [unfolded stored_simps]
lemmas routing_read_bad = routing.callback_read_bad [unfolded stored_simps]

text \<open>For every session, a list of sends to all is the list of sends to it.\<close>

lemma send_wf:
  assumes "wf_session s" "length d < 2 ^ 32 - 8" "send hton s d (of_nat (length d)) = Inr (ok, s', a)"
  shows "wf_session s'"
proof -
  have keep: "wf_session t'" if "wf_session t" "handle_write t = Inr (t', b)" for t t' b
    using that by (auto simp: handle_write_result wf_session_def split: if_splits)
  consider (long) "8184 < length d" | (full) "packet_ok d" "\<not> has_room s d" | (queued) "packet_ok d" "has_room s d"
    unfolding packet_ok_def by (meson leI)
  then show ?thesis
  proof cases
    case long
    then show ?thesis using assms send_too_long [OF long assms(2), of hton s] by simp
  next
    case full
    then show ?thesis using assms send_no_room [OF assms(1) full, of hton] keep by (auto split: sum.splits)
  next
    case queued
    then obtain b where b: "send hton s d (of_nat (length d)) =
        (case handle_write (s\<lparr>send_buffer := b\<rparr>) of Inl e \<Rightarrow> Inl e | Inr (s', acts) \<Rightarrow> Inr (True, s', acts))"
      "wf_session (s\<lparr>send_buffer := b\<rparr>)"
      using send_queued [OF assms(1) queued, of hton] by metis
    then show ?thesis using assms(3) keep [OF b(2)] by (auto split: sum.splits)
  qed
qed

lemma send_to_result:
  "\<forall>sid ref. sessions m sid = Some ref \<longrightarrow> ref < length (store m) \<Longrightarrow> \<forall>s\<in>set (store m). wf_session s \<Longrightarrow>
   \<forall>(sid, d)\<in>set ds. length d < 2 ^ 32 - 8 \<Longrightarrow>
   \<exists>m' a. send_to hton ds m = Inr (m', a) \<and> (\<forall>s\<in>set (store m'). wf_session s) \<and>
     (\<forall>j<length (store m). send_all hton (addressed m j ds) (store m ! j) = Inr (store m' ! j, acts_of j a))"
proof (induction ds arbitrary: m)
  case (Cons x ds)
  obtain sid d where x: "x = (sid, d)" by (cases x)
  have d: "length d < 2 ^ 32 - 8" using Cons.prems(3) x by simp
  show ?case
  proof (cases "get_session m sid")
    case None
    then show ?thesis using Cons x by simp
  next
    case (Some ref)
    then have ref: "ref < length (store m)" using Cons.prems(1) by (simp add: get_session_def)
    then have wf: "wf_session (store m ! ref)" using Cons.prems(2) by simp
    obtain ok s a where s: "send hton (store m ! ref) d (of_nat (length d)) = Inr (ok, s, a)"
      using send_total [OF wf d] .
    let ?m = "set_session m ref s"
    have same: "addressed ?m = addressed m" by (rule addressed_same) (simp add: set_session_def)
    have "\<forall>s\<in>set (store ?m). wf_session s"
      using Cons.prems(2) send_wf [OF wf d s] set_update_subset_insert [of "store m" ref s]
      by (auto simp: set_session_def)
    from Cons.IH [OF _ this, unfolded same] Cons.prems(1,3) obtain m' a' where
      r: "send_to hton ds ?m = Inr (m', a')" "\<forall>s\<in>set (store m'). wf_session s"
      "\<And>j. j < length (store m) \<Longrightarrow> send_all hton (addressed m j ds) (store ?m ! j) = Inr (store m' ! j, acts_of j a')"
      by auto
    have "send_all hton (addressed m j (x # ds)) (store m ! j) = Inr (store m' ! j, acts_of j (map (Pair ref) a @ a'))"
      if j: "j < length (store m)" for j
      using r(3) [OF j] s x Some ref by (cases "j = ref") (auto simp: set_session_other)
    then show ?thesis using x Some s r(1,2) by auto
  qed
qed simp

text \<open>What the handler does for a number of messages is one list of sends, with the messages between them.\<close>

lemma send_to_append:
  "send_to hton (ds @ ds') m =
     bind_res (send_to hton ds m) (\<lambda>(m', a). bind_res (send_to hton ds' m') (\<lambda>(m'', a'). Inr (m'', a @ a')))"
proof (induction ds arbitrary: m)
  case Nil
  then show ?case by (cases "send_to hton ds' m") auto
next
  case (Cons x ds)
  obtain sid d where x: "x = (sid, d)" by (cases x)
  show ?case
  proof (cases "get_session m sid")
    case None
    then show ?thesis using Cons x by simp
  next
    case (Some i)
    show ?thesis
    proof (cases "send hton (store m ! i) d (of_nat (length d))")
      case (Inr r)
      obtain ok s a where r: "r = (ok, s, a)" by (cases r)
      have h: "send hton (store m ! i) d (of_nat (length d)) = Inr (ok, s, a)" using Inr r by simp
      show ?thesis
      proof (cases "send_to hton ds (set_session m i s)")
        case (Inr r')
        obtain m' a' where "r' = (m', a')" by (cases r')
        then show ?thesis using Cons.IH [of "set_session m i s"] Inr h x Some
          by (cases "send_to hton ds' m'") auto
      qed (use Cons.IH [of "set_session m i s"] h x Some in simp)
    qed (use x Some in simp)
  qed
qed

lemma replies_route:
  "ref < length (store m) \<Longrightarrow> session_id (store m ! ref) = i \<Longrightarrow> send_to hton (concat (map (route i) ms)) m = Inr (m', a) \<Longrightarrow>
   \<exists>a'. replies (stored ref) (route_handler hton route) ms m = Inr (m', a') \<and>
     (\<forall>j. messages (acts_of j a') = (if j = ref then ms else []) \<and> CloseSocket \<notin> set (acts_of j a') \<and>
       (\<forall>prev. started (acts_of j a') prev = started (acts_of j a) prev))"
proof (induction ms arbitrary: m a)
  case (Cons msg ms)
  obtain t a1 a2 where split: "send_to hton (route i msg) m = Inr (t, a1)"
    "send_to hton (concat (map (route i) ms)) t = Inr (m', a2)" "a = a1 @ a2"
    using Cons.prems(3) by (auto simp: send_to_append bind_res_Inr_conv)
  note k = send_to_keeps [OF split(1)]
  have t: "ref < length (store t)" "session_id (store t ! ref) = i" using k Cons.prems(1,2) by (simp_all add: same_client_def)
  obtain a' where a': "replies (stored ref) (route_handler hton route) ms t = Inr (m', a')"
    "\<And>j. messages (acts_of j a') = (if j = ref then ms else []) \<and> CloseSocket \<notin> set (acts_of j a')"
    "\<And>j prev. started (acts_of j a') prev = started (acts_of j a2) prev"
    using Cons.IH [OF t split(2)] by blast
  have "route_handler hton route i msg m = Inr (t, a1)" using split(1) by (simp add: route_handler_def)
  then show ?case using a' split(3) k Cons.prems(2) by simp
qed simp

end
