(* ===== verification/HS_ServerTraffic.thy ===== *)
theory HS_ServerTraffic
  imports HS_Relay
begin

text \<open>
  A server at work: a step relation over its acceptor, the registry and the connections of all clients. Clients are
  accepted at any time; each sends a stream of its own, well formed or not; the handler of \<open>HS_Relay\<close> writes to the
  clients it has been told of; sockets fail. The messages in the order in which the handler got them, with what it
  sent for each, are a part of the state, \<open>handled\<close>: what goes out to each client is what it would be if the
  messages had been handled one at a time. Here is the invariant of the steps, and that a read keeps it;
  \<open>HS_ServerRuns\<close> has the other steps and what follows for the runs of a server.
\<close>

section \<open>Steps of the server\<close>

text \<open>The session \<open>j\<close> of the store has the link \<open>links h j\<close>: the write in flight, the bytes that went out, the messages
  that \<open>send\<close> queued and the bytes that the client has still to send. It is waiting until the accept of its session
  has completed, malformed when the server closed it because of a malformed packet, and down when the socket
  failed.\<close>

datatype connection_state = Waiting | Open | Malformed | Down

record link =
  in_flight :: "byte list option"
  sent :: "byte list"
  queued :: "byte list list"
  to_read :: "byte list"
  cstate :: connection_state

definition waiting_link :: "byte list \<Rightarrow> link" where
  "waiting_link stream = \<lparr>in_flight = None, sent = [], queued = [], to_read = stream, cstate = Waiting\<rparr>"

text \<open>What a handler sends for a message depends on the clients that \<open>onConnect\<close> has told it of.\<close>

type_synonym relay = "u32 \<Rightarrow> byte list \<Rightarrow> (u32 \<times> byte list) list"

record hub =
  server :: client_server
  mgr :: session_mgr
  links :: "nat \<Rightarrow> link"
  clients :: "u32 list"
  shared_limit :: "size_t option"
  handled :: "(nat \<times> byte list \<times> (u32 \<times> byte list) list) list"

definition hub_after_read ::
  "(u32 \<Rightarrow> u32) \<Rightarrow> relay \<Rightarrow> hub \<Rightarrow> nat \<Rightarrow> byte list \<Rightarrow> size_t option \<Rightarrow> session_mgr \<Rightarrow> (nat \<times> action) list \<Rightarrow> hub" where
  "hub_after_read hton route h i rest limit m evs =
     (let ms = messages (acts_of i evs); out = route (session_id (store (mgr h) ! i)); ds = concat (map out ms) in
      h\<lparr>mgr := m,
       links := (\<lambda>j. let l = links h j in
         l\<lparr>in_flight := started (acts_of j evs) (in_flight l),
           queued := queued l @ taken hton (addressed (mgr h) j ds) (store (mgr h) ! j),
           to_read := if j = i then rest else to_read l,
           cstate := if CloseSocket \<in> set (acts_of j evs) then Malformed else cstate l\<rparr>),
       shared_limit := limit, handled := handled h @ map (\<lambda>msg. (i, msg, out msg)) ms\<rparr>)"

definition hub_after_accept :: "hub \<Rightarrow> nat \<Rightarrow> bool \<Rightarrow> client_server \<Rightarrow> session_mgr \<Rightarrow> action list \<Rightarrow> hub" where
  "hub_after_accept h ref error srv m acts =
     h\<lparr>server := srv, mgr := m, clients := clients h @ client_ids acts,
       links := (links h)(ref := (links h ref)\<lparr>cstate := if error then Waiting else Open\<rparr>)\<rparr>"

text \<open>An accept completes as long as the ids do not wrap. A read or a write completes in full, in part, with
  \<open>WSAEWOULDBLOCK\<close> (10035) or with another error.\<close>

inductive hub_step ::
  "(u32 \<Rightarrow> u32) \<Rightarrow> (u32 \<Rightarrow> u32) \<Rightarrow> (nat \<Rightarrow> byte) \<Rightarrow> (u32 list \<Rightarrow> relay) \<Rightarrow> hub \<Rightarrow> hub \<Rightarrow> bool" for hton ntoh junk route where
  hub_accept: "srv_acceptor (server h) = Some a \<Longrightarrow> ref \<in> set (acc_pending a) \<Longrightarrow> unat (curr_id (mgr h)) + 1 < 2 ^ 32 \<Longrightarrow>
    run_accept junk (server h, mgr h, []) (ref, error) = (srv', m', acts) \<Longrightarrow>
    hub_step hton ntoh junk route h (hub_after_accept h ref error srv' m' acts)"
| hub_read: "i < length (store (mgr h)) \<Longrightarrow> cstate (links h i) = Open \<Longrightarrow> to_read (links h i) = xs @ rest \<Longrightarrow> xs \<noteq> [] \<Longrightarrow>
    length xs \<le> unat (GetLeftInSize (recv_buffer (store (mgr h) ! i))) \<Longrightarrow>
    socket_read (store (mgr h) ! i) xs = Inr s1 \<Longrightarrow>
    callback_read ntoh (stored i) (route_handler hton (route (clients h))) (shared_limit h) (set_session (mgr h) i s1) None (of_nat (length xs)) =
      Some (Inr (limit', m', evs)) \<Longrightarrow>
    hub_step hton ntoh junk route h (hub_after_read hton (route (clients h)) h i rest limit' m' evs)"
| hub_read_fails: "i < length (store (mgr h)) \<Longrightarrow> cstate (links h i) \<noteq> Waiting \<Longrightarrow> handle_error v < 0 \<Longrightarrow>
    callback_read ntoh (stored i) (route_handler hton (route (clients h))) (shared_limit h) (mgr h) (Some v) n = Some (Inr (limit', m', evs)) \<Longrightarrow>
    hub_step hton ntoh junk route h (h\<lparr>mgr := m', links := (links h)(i := (links h i)\<lparr>cstate := Down\<rparr>), shared_limit := limit'\<rparr>)"
| hub_write_done: "i < length (store (mgr h)) \<Longrightarrow> cstate (links h i) = Open \<Longrightarrow> in_flight (links h i) = Some xs \<Longrightarrow>
    0 < n \<Longrightarrow> n \<le> length xs \<Longrightarrow> write_result (store (mgr h) ! i) None (of_nat n) = Inr (s', acts) \<Longrightarrow>
    hub_step hton ntoh junk route h (h\<lparr>mgr := set_session (mgr h) i s', links := (links h)(i := (links h i)
      \<lparr>in_flight := started acts None, sent := sent (links h i) @ take n xs\<rparr>)\<rparr>)"
| hub_write_blocked: "i < length (store (mgr h)) \<Longrightarrow> cstate (links h i) = Open \<Longrightarrow> in_flight (links h i) = Some xs \<Longrightarrow>
    write_result (store (mgr h) ! i) (Some 10035) n = Inr (s', acts) \<Longrightarrow>
    hub_step hton ntoh junk route h (h\<lparr>mgr := set_session (mgr h) i s', links := (links h)(i := (links h i)\<lparr>in_flight := started acts None\<rparr>)\<rparr>)"
| hub_write_fails: "i < length (store (mgr h)) \<Longrightarrow> in_flight (links h i) = Some xs \<Longrightarrow> handle_error v < 0 \<Longrightarrow>
    write_result (store (mgr h) ! i) (Some v) n = Inr (s', acts) \<Longrightarrow>
    hub_step hton ntoh junk route h (h\<lparr>mgr := set_session (mgr h) i s',
      links := (links h)(i := (links h i)\<lparr>in_flight := None, cstate := Down\<rparr>)\<rparr>)"

text \<open>The server has been started: nobody is connected, and the client that will be accepted on session \<open>j\<close> will
  send the stream \<open>stream j\<close>.\<close>

definition hub_start :: "client_server \<Rightarrow> session_mgr \<Rightarrow> (nat \<Rightarrow> byte list) \<Rightarrow> hub" where
  "hub_start srv m stream =
     \<lparr>server = srv, mgr = m, links = (\<lambda>j. waiting_link (stream j)), clients = [], shared_limit = None, handled = []\<rparr>"

section \<open>One client among the others\<close>

text \<open>The messages that the handler got from a client, and those that it sent to a client.\<close>

definition got_from :: "hub \<Rightarrow> nat \<Rightarrow> byte list list" where
  "got_from h j = map (fst \<circ> snd) (filter (\<lambda>e. fst e = j) (handled h))"

definition sent_to :: "hub \<Rightarrow> nat \<Rightarrow> byte list list" where
  "sent_to h j = addressed (mgr h) j (concat (map (snd \<circ> snd) (handled h)))"

text \<open>The write side of a client.\<close>

definition side :: "hub \<Rightarrow> nat \<Rightarrow> write_sys" where
  "side h j = \<lparr>sess = store (mgr h) ! j, outstanding = in_flight (links h j), wire = sent (links h j), accepted = queued (links h j)\<rparr>"

text \<open>The messages accepted for sending, of those that were to be sent: all of them if they fit the buffer.\<close>

definition queue_ok :: "byte list list \<Rightarrow> byte list list \<Rightarrow> session \<Rightarrow> bool" where
  "queue_ok q ds s \<longleftrightarrow> buf_length (send_buffer s) = 32768 \<and> subseq q ds \<and>
     ((\<forall>d\<in>set ds. length d \<le> 8184) \<and> room_for ds \<le> 32768 \<longrightarrow> q = ds \<and> unat (in_offset (send_buffer s)) \<le> room_for ds)"

definition read_ok :: "(u32 \<Rightarrow> u32) \<Rightarrow> byte list \<Rightarrow> byte list list \<Rightarrow> byte list \<Rightarrow> session \<Rightarrow> bool" where
  "read_ok ntoh stream ms0 left s \<longleftrightarrow> event_handler s \<noteq> None \<and> buf_length (recv_buffer s) = 32768 \<and>
     0 < unat (GetLeftInSize (recv_buffer s)) \<and>
     unframe (frame ntoh) (pending (recv_buffer s)) = ([], pending (recv_buffer s), False) \<and>
     (\<exists>ms r r' bad. unframe (frame ntoh) (pending (recv_buffer s) @ left) = (ms, r, bad) \<and>
        unframe (frame ntoh) stream = (ms0 @ ms, r', bad))"

text \<open>The messages of a stream up to its end or its first malformed packet, and whether there is one.\<close>

definition stream_messages :: "(u32 \<Rightarrow> u32) \<Rightarrow> byte list \<Rightarrow> byte list list" where
  "stream_messages ntoh stream = fst (unframe (frame ntoh) stream)"

definition stream_malformed :: "(u32 \<Rightarrow> u32) \<Rightarrow> byte list \<Rightarrow> bool" where
  "stream_malformed ntoh stream = snd (snd (unframe (frame ntoh) stream))"

definition open_inv :: "(u32 \<Rightarrow> u32) \<Rightarrow> (u32 \<Rightarrow> u32) \<Rightarrow> byte list \<Rightarrow> hub \<Rightarrow> nat \<Rightarrow> bool" where
  "open_inv hton ntoh stream h j \<longleftrightarrow> write_inv hton (side h j) \<and>
     read_ok ntoh stream (got_from h j) (to_read (links h j)) (store (mgr h) ! j) \<and>
     queue_ok (queued (links h j)) (sent_to h j) (store (mgr h) ! j)"

definition client_inv :: "(u32 \<Rightarrow> u32) \<Rightarrow> (u32 \<Rightarrow> u32) \<Rightarrow> byte list \<Rightarrow> hub \<Rightarrow> nat \<Rightarrow> bool" where
  "client_inv hton ntoh stream h j \<longleftrightarrow> wf_session (store (mgr h) ! j) \<and>
     prefix (got_from h j) (stream_messages ntoh stream) \<and>
     (case cstate (links h j) of
        Waiting \<Rightarrow> fresh_client (store (mgr h) ! j) \<and> links h j = waiting_link stream \<and> got_from h j = [] \<and> sent_to h j = []
      | Open \<Rightarrow> open_inv hton ntoh stream h j
      | Malformed \<Rightarrow> got_from h j = stream_messages ntoh stream \<and> stream_malformed ntoh stream
      | Down \<Rightarrow> True)"

text \<open>One accept is pending; the clients that were reported have ids and sessions of their own.\<close>

definition accepting :: "nat \<Rightarrow> hub \<Rightarrow> bool" where
  "accepting hdl h \<longleftrightarrow>
     (\<exists>a p. srv_acceptor (server h) = Some a \<and> acc_session_id a = 0 \<and> acc_handler a = Some hdl \<and> acc_pending a = [p] \<and>
        sessions (mgr h) (curr_id (mgr h)) = Some p \<and> cstate (links h p) = Waiting) \<and>
     distinct (clients h) \<and>
     (\<forall>sid\<in>set (clients h). \<exists>ref. sid < curr_id (mgr h) \<and> sessions (mgr h) sid = Some ref \<and> cstate (links h ref) \<noteq> Waiting)"

definition history_ok :: "hub \<Rightarrow> bool" where
  "history_ok h \<longleftrightarrow> (\<forall>e\<in>set (handled h). fst e < length (store (mgr h)) \<and> fst ` set (snd (snd e)) \<subseteq> set (clients h))"

definition hub_inv :: "(u32 \<Rightarrow> u32) \<Rightarrow> (u32 \<Rightarrow> u32) \<Rightarrow> nat \<Rightarrow> (nat \<Rightarrow> byte list) \<Rightarrow> hub \<Rightarrow> bool" where
  "hub_inv hton ntoh hdl stream h \<longleftrightarrow> mgr_inv (mgr h) \<and> accepting hdl h \<and> history_ok h \<and>
     (shared_limit h = None \<or> shared_limit h = Some 24576) \<and>
     (\<forall>j<length (store (mgr h)). client_inv hton ntoh (stream j) h j) \<and>
     (\<forall>j\<ge>length (store (mgr h)). links h j = waiting_link (stream j))"

text \<open>A step other than an accept changes the sessions and leaves the registry.\<close>

definition same_registry :: "session_mgr \<Rightarrow> session_mgr \<Rightarrow> bool" where
  "same_registry m0 m \<longleftrightarrow> m = m0\<lparr>store := store m\<rparr> \<and> length (store m) = length (store m0) \<and>
     (\<forall>j. session_id (store m ! j) = session_id (store m0 ! j))"

lemma same_registryD:
  assumes "same_registry m0 m"
  shows "sessions m = sessions m0" "curr_id m = curr_id m0" "length (store m) = length (store m0)"
    "get_session m = get_session m0" "addressed m = addressed m0" "mgr_inv m0 \<Longrightarrow> mgr_inv m"
proof -
  obtain xs where m: "m = m0\<lparr>store := xs\<rparr>" "length xs = length (store m0)" "\<And>j. session_id (xs ! j) = session_id (store m0 ! j)"
    using assms by (auto simp: same_registry_def)
  show "sessions m = sessions m0" "curr_id m = curr_id m0" "length (store m) = length (store m0)"
    "mgr_inv m0 \<Longrightarrow> mgr_inv m" using m by (simp_all add: mgr_inv_def)
  show "get_session m = get_session m0" "addressed m = addressed m0"
    using m addressed_same [of m m0] by (simp_all add: get_session_def fun_eq_iff)
qed

lemma accepting_same:
  assumes "same_registry (mgr h) (mgr h')" "server h' = server h" "clients h' = clients h"
    and "\<And>j. cstate (links h' j) = Waiting \<longleftrightarrow> cstate (links h j) = Waiting"
  shows "accepting hdl h' \<longleftrightarrow> accepting hdl h"
  using same_registryD(1,2) [OF assms(1)] assms(2-4) by (simp add: accepting_def)

lemma hub_inv_frame:
  assumes inv: "hub_inv hton ntoh hdl stream h"
    and same: "same_registry (mgr h) (mgr h')" "server h' = server h" "clients h' = clients h"
      "\<And>j. cstate (links h' j) = Waiting \<longleftrightarrow> cstate (links h j) = Waiting"
      "shared_limit h' = None \<or> shared_limit h' = Some 24576"
    and hist: "handled h' = handled h @ map (\<lambda>msg. (i, msg, out msg)) ms" "i < length (store (mgr h))"
      "\<And>msg. fst ` set (out msg) \<subseteq> set (clients h)"
    and clients: "\<And>j. j < length (store (mgr h)) \<Longrightarrow> client_inv hton ntoh (stream j) h' j"
    and beyond: "\<And>j. j \<ge> length (store (mgr h)) \<Longrightarrow> links h' j = links h j"
  shows "hub_inv hton ntoh hdl stream h'"
proof -
  have "history_ok h'"
    using inv hist(2,3) same_registryD(3) [OF same(1)] same(3)
    unfolding hub_inv_def history_ok_def hist(1) set_append ball_Un by simp
  then show ?thesis
    using inv accepting_same [OF same(1-4)] same_registryD(3,6) [OF same(1)] same(5) clients beyond
    by (simp add: hub_inv_def)
qed

lemma hub_invD:
  assumes "hub_inv hton ntoh hdl stream h" "j < length (store (mgr h))"
  shows "client_inv hton ntoh (stream j) h j" "wf_session (store (mgr h) ! j)"
    and "cstate (links h j) = Open \<Longrightarrow> open_inv hton ntoh (stream j) h j"
proof -
  show c: "client_inv hton ntoh (stream j) h j" using assms by (simp add: hub_inv_def)
  then show "wf_session (store (mgr h) ! j)" by (simp add: client_inv_def)
  show "cstate (links h j) = Open \<Longrightarrow> open_inv hton ntoh (stream j) h j" using c by (simp add: client_inv_def)
qed

text \<open>Sends to a session: steps of its write side.\<close>

lemma side_sends:
  assumes "write_inv hton w" "\<forall>d\<in>set ds. length d < 2 ^ 32 - 8" "send_all hton ds (sess w) = Inr (t, a)"
  shows "write_inv hton (w\<lparr>sess := t, outstanding := started a (outstanding w), accepted := accepted w @ taken hton ds (sess w)\<rparr>)"
  using send_all_steps [OF assms(1,2)] assms(3) write_reach_inv [OF _ assms(1)] by auto

lemma send_all_length:
  "send_all hton ds s = Inr (t, a) \<Longrightarrow> buf_length (send_buffer t) = buf_length (send_buffer s)"
proof (induction ds arbitrary: s a)
  case (Cons d ds)
  obtain ok s' a1 a2 where s: "send hton s d (of_nat (length d)) = Inr (ok, s', a1)" "send_all hton ds s' = Inr (t, a2)"
    using Cons.prems by (auto simp: bind_res_Inr_conv)
  obtain r where r: "EncodePacket hton d (of_nat (length d)) (GetInOffsetData (send_buffer s)) (GetLeftInSize (send_buffer s)) = Inr r"
    using s(1) by (auto simp: send_def bind_res_Inr_conv)
  have "buf_length (send_buffer s') = buf_length (send_buffer s)"
    using s(1) r by (cases r) (auto simp: send_def bind_res_Inr_conv Let_def DataIn_def dest!: handle_write_buffer)
  then show ?case using Cons.IH [OF s(2)] by simp
qed simp

lemma queue_ok_sends:
  assumes "wf_session s" "queue_ok q ds s" "send_all hton ds' s = Inr (t, a)" "send_buffer s' = send_buffer t"
  shows "queue_ok (q @ taken hton ds' s) (ds @ ds') s'"
proof -
  have sub: "subseq (q @ taken hton ds' s) (ds @ ds')"
    using assms(2) taken_subseq by (auto simp: queue_ok_def intro: list_emb_append_mono)
  have len: "buf_length (send_buffer s') = 32768"
    using assms(2,4) send_all_length [OF assms(3)] by (simp add: queue_ok_def)
  have "q @ taken hton ds' s = ds @ ds' \<and> unat (in_offset (send_buffer s')) \<le> room_for (ds @ ds')"
    if fit: "\<forall>d\<in>set (ds @ ds'). length d \<le> 8184" "room_for (ds @ ds') \<le> 32768"
  proof -
    have q: "q = ds" "unat (in_offset (send_buffer s)) \<le> room_for ds" using assms(2) fit by (auto simp: queue_ok_def)
    have short: "\<forall>d\<in>set ds'. length d \<le> 8184" using fit(1) by simp
    have "unat (in_offset (send_buffer s)) + room_for ds' \<le> unat (buf_length (send_buffer s))"
      using fit(2) q(2) assms(2) by (simp add: queue_ok_def)
    from all_taken [OF assms(1) short this assms(3)] show ?thesis using q assms(4) by simp
  qed
  then show ?thesis using sub len by (simp add: queue_ok_def)
qed

text \<open>What a session reads does not depend on what is sent to it.\<close>

lemma read_ok_same:
  "same_client t s \<Longrightarrow> read_ok ntoh stream ms0 left s \<Longrightarrow> read_ok ntoh stream ms0 left t"
  by (simp add: read_ok_def same_client_def)

lemma prefix_stream: "read_ok ntoh stream ms0 left s \<Longrightarrow> prefix ms0 (stream_messages ntoh stream)"
  by (auto simp: read_ok_def stream_messages_def)

section \<open>A read\<close>

text \<open>What all sessions look like after a read of one: the sends of the handler, and the new receive buffer.\<close>

definition after_sends ::
  "(u32 \<Rightarrow> u32) \<Rightarrow> hub \<Rightarrow> (u32 \<times> byte list) list \<Rightarrow> session_mgr \<Rightarrow> (nat \<times> action) list \<Rightarrow> bool" where
  "after_sends hton h ds m evs \<longleftrightarrow> same_registry (mgr h) m \<and>
     (\<forall>j. same_client (store m ! j) (store (mgr h) ! j)) \<and>
     (\<forall>j<length (store (mgr h)). wf_session (store m ! j) \<and>
       (\<exists>a. send_all hton (addressed (mgr h) j ds) (store (mgr h) ! j) = Inr (store m ! j, a) \<and>
         (\<forall>prev. started (acts_of j evs) prev = started a prev))) \<and>
     (\<forall>j. addressed (mgr h) j ds = [] \<longrightarrow>
       store m ! j = store (mgr h) ! j \<and> (\<forall>prev. started (acts_of j evs) prev = prev))"

lemma after_sendsD:
  assumes "after_sends hton h ds m evs"
  shows "same_registry (mgr h) m" "length (store m) = length (store (mgr h))" "same_client (store m ! j) (store (mgr h) ! j)"
    "j < length (store (mgr h)) \<Longrightarrow> wf_session (store m ! j)"
    "addressed (mgr h) j ds = [] \<Longrightarrow> store m ! j = store (mgr h) ! j"
    "addressed (mgr h) j ds = [] \<Longrightarrow> started (acts_of j evs) prev = prev"
  using assms by (simp_all add: after_sends_def same_registryD(3))

text \<open>Nothing is sent to a session before its client is connected.\<close>

lemma addressed_waiting:
  assumes inv: "hub_inv hton ntoh hdl stream h" and ds: "fst ` set ds \<subseteq> set (clients h)"
    and j: "cstate (links h j) = Waiting"
  shows "addressed (mgr h) j ds = []"
proof -
  have "get_session (mgr h) sid \<noteq> Some j" if "(sid, d) \<in> set ds" for sid d
  proof -
    have "sid \<in> set (clients h)" using ds that by force
    then obtain ref where "sessions (mgr h) sid = Some ref" "cstate (links h ref) \<noteq> Waiting"
      using inv unfolding hub_inv_def accepting_def by blast
    then show ?thesis using j by (auto simp: get_session_def)
  qed
  then show ?thesis by (auto simp: addressed_def filter_empty_conv)
qed

lemma handler_sends:
  assumes inv: "hub_inv hton ntoh hdl stream h" and i: "i < length (store (mgr h))"
    and short: "\<forall>sid msg. \<forall>(to, d)\<in>set (route sid msg). length d < 2 ^ 32 - 8"
  obtains m a where "replies (stored i) (route_handler hton route) ms (mgr h) = Inr (m, a)"
    "after_sends hton h (concat (map (route (session_id (store (mgr h) ! i))) ms)) m a"
    "\<forall>j. messages (acts_of j a) = (if j = i then ms else []) \<and> CloseSocket \<notin> set (acts_of j a)"
proof -
  let ?m = "mgr h" and ?ds = "concat (map (route (session_id (store (mgr h) ! i))) ms)"
  have reg: "\<forall>sid ref. sessions ?m sid = Some ref \<longrightarrow> ref < length (store ?m)"
    using inv by (simp add: hub_inv_def mgr_inv_def)
  have wf: "\<forall>s\<in>set (store ?m). wf_session s"
    using inv by (auto simp: hub_inv_def client_inv_def in_set_conv_nth)
  have "\<forall>(to, d)\<in>set ?ds. length d < 2 ^ 32 - 8" using short by fastforce
  from send_to_result [OF reg wf this] obtain m a where s: "send_to hton ?ds ?m = Inr (m, a)" "\<forall>s\<in>set (store m). wf_session s"
    "\<forall>j<length (store ?m). send_all hton (addressed ?m j ?ds) (store ?m ! j) = Inr (store m ! j, acts_of j a)" by blast
  note k = send_to_keeps [OF s(1)]
  obtain a' where a': "replies (stored i) (route_handler hton route) ms ?m = Inr (m, a')"
    "\<forall>j. messages (acts_of j a') = (if j = i then ms else []) \<and> CloseSocket \<notin> set (acts_of j a') \<and>
      (\<forall>prev. started (acts_of j a') prev = started (acts_of j a) prev)"
    using replies_route [where route = route and ms = ms, OF i refl s(1)] by blast
  have "same_registry ?m m" using k by (simp add: same_registry_def same_client_def)
  moreover have "store m ! j = store ?m ! j" "acts_of j a = []" if "addressed ?m j ?ds = []" for j
    using send_to_silent [OF s(1) that] by simp_all
  ultimately have "after_sends hton h ?ds m a'"
    using s(2,3) k a'(2) unfolding after_sends_def by simp
  then show ?thesis using that [OF a'(1)] a'(2) by blast
qed

text \<open>The part of the new state that does not concern the bytes read.\<close>

lemma after_sends_inv:
  assumes inv: "hub_inv hton ntoh hdl stream h" and after: "after_sends hton h ds m evs"
    and short: "\<forall>(to, d)\<in>set ds. length d < 2 ^ 32 - 8"
    and j: "j < length (store (mgr h))" "cstate (links h j) = Open"
    and t: "send_buffer t = send_buffer (store m ! j)" "handle_sending t = handle_sending (store m ! j)" "wf_session t"
  shows "write_inv hton \<lparr>sess = t, outstanding = started (acts_of j evs) (in_flight (links h j)), wire = sent (links h j),
      accepted = queued (links h j) @ taken hton (addressed (mgr h) j ds) (store (mgr h) ! j)\<rparr>"
    and "queue_ok (queued (links h j) @ taken hton (addressed (mgr h) j ds) (store (mgr h) ! j))
      (sent_to h j @ addressed (mgr h) j ds) t"
proof -
  obtain a where a: "send_all hton (addressed (mgr h) j ds) (store (mgr h) ! j) = Inr (store m ! j, a)"
    "\<And>prev. started (acts_of j evs) prev = started a prev"
    using after j(1) by (auto simp: after_sends_def)
  have c: "wf_session (store (mgr h) ! j)" "open_inv hton ntoh (stream j) h j"
    using hub_invD(2,3) [OF inv j(1)] j(2) by simp_all
  have "\<forall>d\<in>set (addressed (mgr h) j ds). length d < 2 ^ 32 - 8" using short by (auto simp: addressed_def)
  from side_sends [of hton "side h j", OF _ this] a(1) c(2)
  have "write_inv hton ((side h j)\<lparr>sess := store m ! j, outstanding := started a (in_flight (links h j)),
      accepted := queued (links h j) @ taken hton (addressed (mgr h) j ds) (store (mgr h) ! j)\<rparr>)"
    by (simp add: open_inv_def side_def)
  then show "write_inv hton \<lparr>sess = t, outstanding = started (acts_of j evs) (in_flight (links h j)), wire = sent (links h j),
      accepted = queued (links h j) @ taken hton (addressed (mgr h) j ds) (store (mgr h) ! j)\<rparr>"
    using t a(2) by (simp add: write_inv_def side_def)
  show "queue_ok (queued (links h j) @ taken hton (addressed (mgr h) j ds) (store (mgr h) ! j))
      (sent_to h j @ addressed (mgr h) j ds) t"
    using queue_ok_sends [OF c(1) _ a(1) t(1)] c(2) by (simp add: open_inv_def)
qed

lemma same_registry_set:
  assumes "same_registry m0 t" "session_id s = session_id (store m0 ! i)"
  shows "same_registry m0 (set_session t i s)"
proof -
  have "session_id (store (set_session t i s) ! j) = session_id (store m0 ! j)" for j
    using assms by (cases "j = i"; cases "i < length (store t)")
      (auto simp: same_registry_def set_session_def list_update_beyond)
  moreover have "set_session t i s = m0\<lparr>store := store (set_session t i s)\<rparr>"
    using assms(1) by (cases t; cases m0) (simp add: same_registry_def set_session_def)
  ultimately show ?thesis using assms(1) by (simp add: same_registry_def)
qed

lemma sent_to_after:
  assumes "same_registry (mgr h) (mgr h')" and "handled h' = handled h @ map (\<lambda>msg. (i, msg, out msg)) ms"
  shows "sent_to h' j = sent_to h j @ addressed (mgr h) j (concat (map out ms))"
  using assms(2) same_registryD(5) [OF assms(1)] by (simp add: sent_to_def comp_def)

lemma got_from_after:
  "handled h' = handled h @ map (\<lambda>msg. (i, msg, out msg)) ms \<Longrightarrow> got_from h' j = got_from h j @ (if j = i then ms else [])"
  by (simp add: got_from_def comp_def)

text \<open>The clients whose bytes were not read.\<close>

lemma others_after_read:
  assumes inv: "hub_inv hton ntoh hdl stream h" and after: "after_sends hton h ds t a"
    and short: "\<forall>(to, d)\<in>set ds. length d < 2 ^ 32 - 8" and known: "fst ` set ds \<subseteq> set (clients h)"
    and ds: "ds = concat (map (route (session_id (store (mgr h) ! i))) ms)"
    and j: "j < length (store (mgr h))" "j \<noteq> i"
    and evs: "messages (acts_of i evs) = ms" "acts_of j evs = acts_of j a" "CloseSocket \<notin> set (acts_of j a)"
    and m: "m = set_session t i s" "session_id s = session_id (store (mgr h) ! i)"
  shows "client_inv hton ntoh (stream j) (hub_after_read hton route h i rest limit m evs) j"
proof -
  let ?h = "hub_after_read hton route h i rest limit m evs"
  have h': "mgr ?h = m" "handled ?h = handled h @ map (\<lambda>msg. (i, msg, route (session_id (store (mgr h) ! i)) msg)) ms"
    using evs(1) by (simp_all add: hub_after_read_def Let_def)
  have l: "links ?h j = (links h j)\<lparr>in_flight := started (acts_of j a) (in_flight (links h j)),
      queued := queued (links h j) @ taken hton (addressed (mgr h) j ds) (store (mgr h) ! j)\<rparr>"
    using evs j(2) ds by (simp add: hub_after_read_def Let_def)
  have old: "client_inv hton ntoh (stream j) h j" by (rule hub_invD(1) [OF inv j(1)])
  note t = after_sendsD [OF after]
  have sj: "store m ! j = store t ! j" using m(1) j(2) by (simp add: set_session_other)
  have reg: "same_registry (mgr h) (mgr ?h)" using same_registry_set [OF t(1) m(2)] m(1) h'(1) by simp
  have got: "got_from ?h j = got_from h j" using got_from_after [OF h'(2)] j(2) by simp
  have sent: "sent_to ?h j = sent_to h j @ addressed (mgr h) j ds"
    using sent_to_after [OF reg h'(2)] ds by simp
  have "open_inv hton ntoh (stream j) ?h j" if "cstate (links h j) = Open"
  proof -
    note a = after_sends_inv [OF inv after short j(1) that refl refl t(4) [OF j(1)]]
    have "read_ok ntoh (stream j) (got_from h j) (to_read (links h j)) (store (mgr h) ! j)"
      using old that by (simp add: client_inv_def open_inv_def)
    from read_ok_same [OF t(3) this] a show ?thesis
      by (simp add: open_inv_def side_def h' l sj got sent)
  qed
  moreover have "links ?h j = links h j" "store m ! j = store (mgr h) ! j" "sent_to ?h j = sent_to h j"
    if w: "cstate (links h j) = Waiting"
    using addressed_waiting [OF inv known w] t(5,6) sj by (simp_all add: l sent)
  ultimately show ?thesis
    using old t(4) [OF j(1)] by (auto simp: client_inv_def h' l sj got split: connection_state.splits)
qed

text \<open>The links beyond the sessions.\<close>

lemma beyond_after_read:
  assumes inv: "hub_inv hton ntoh hdl stream h" and after: "after_sends hton h ds t a"
    and known: "fst ` set ds \<subseteq> set (clients h)"
    and ds: "ds = concat (map (route (session_id (store (mgr h) ! i))) ms)"
    and j: "j \<ge> length (store (mgr h))" "j \<noteq> i"
    and evs: "messages (acts_of i evs) = ms" "acts_of j evs = acts_of j a" "CloseSocket \<notin> set (acts_of j a)"
  shows "links (hub_after_read hton route h i rest limit m evs) j = links h j"
proof -
  have w: "cstate (links h j) = Waiting" using inv j(1) by (simp add: hub_inv_def waiting_link_def)
  show ?thesis
    using addressed_waiting [OF inv known w] after_sendsD(6) [OF after] evs j(2) ds
    by (simp add: hub_after_read_def Let_def)
qed

text \<open>The client whose bytes were read: its messages are handled, or the connection is closed after those before the
  malformed packet.\<close>

lemma reader_goes_on:
  assumes inv: "hub_inv hton ntoh hdl stream h" and after: "after_sends hton h ds t a"
    and short: "\<forall>(to, d)\<in>set ds. length d < 2 ^ 32 - 8"
    and ds: "ds = concat (map (route (session_id (store (mgr h) ! i))) ms)"
    and i: "i < length (store (mgr h))" "cstate (links h i) = Open"
    and evs: "messages (acts_of i evs) = ms" "CloseSocket \<notin> set (acts_of i evs)" "\<And>prev. started (acts_of i evs) prev = started (acts_of i a) prev"
    and b: "wf_session ((store (mgr h) ! i)\<lparr>recv_buffer := b\<rparr>)" "buf_length b = 32768" "0 < unat (GetLeftInSize b)"
      "unframe (frame ntoh) (pending b) = ([], pending b, False)"
    and cut: "unframe (frame ntoh) (pending b @ rest) = (ms', r, bad)"
      "unframe (frame ntoh) (stream i) = (got_from h i @ ms @ ms', r', bad)"
  shows "client_inv hton ntoh (stream i)
    (hub_after_read hton route h i rest limit (set_session t i ((store t ! i)\<lparr>recv_buffer := b\<rparr>)) evs) i"
proof -
  let ?s = "(store t ! i)\<lparr>recv_buffer := b\<rparr>"
  let ?h = "hub_after_read hton route h i rest limit (set_session t i ?s) evs"
  have h': "mgr ?h = set_session t i ?s"
    "handled ?h = handled h @ map (\<lambda>msg. (i, msg, route (session_id (store (mgr h) ! i)) msg)) ms"
    using evs(1) by (simp_all add: hub_after_read_def Let_def)
  have l: "links ?h i = (links h i)\<lparr>in_flight := started (acts_of i a) (in_flight (links h i)),
      queued := queued (links h i) @ taken hton (addressed (mgr h) i ds) (store (mgr h) ! i), to_read := rest\<rparr>"
    using evs ds by (simp add: hub_after_read_def Let_def)
  have t: "same_registry (mgr h) t" "\<And>k. same_client (store t ! k) (store (mgr h) ! k)" "wf_session (store t ! i)"
    "i < length (store t)" using after_sendsD [OF after] i(1) by simp_all
  have wf: "wf_session ?s" using t(3) b(1) by (simp add: wf_session_def)
  have reg: "same_registry (mgr h) (mgr ?h)"
    using same_registry_set [OF t(1), of ?s i] t(2) [of i] h'(1) by (simp add: same_client_def)
  have got: "got_from ?h i = got_from h i @ ms" using got_from_after [OF h'(2)] by simp
  have sent: "sent_to ?h i = sent_to h i @ addressed (mgr h) i ds"
    using sent_to_after [OF reg h'(2)] ds by simp
  have old: "open_inv hton ntoh (stream i) h i" by (rule hub_invD(3) [OF inv i])
  have "event_handler ?s \<noteq> None" using old t(2) [of i] by (simp add: open_inv_def read_ok_def same_client_def)
  then have ro: "read_ok ntoh (stream i) (got_from h i @ ms) rest ?s"
    using b cut by (simp add: read_ok_def)
  then have "open_inv hton ntoh (stream i) ?h i"
    using after_sends_inv [OF inv after short i _ _ wf] t(4)
    by (simp add: open_inv_def side_def h' l got sent)
  then show ?thesis
    using wf t(4) prefix_stream [OF ro] i(2) by (simp add: client_inv_def h' l got)
qed

lemma reader_is_closed:
  assumes i: "i < length (store t)" and evs: "messages (acts_of i evs) = ms" "CloseSocket \<in> set (acts_of i evs)"
    and s: "wf_session s" and cut: "unframe (frame ntoh) str = (got_from h i @ ms, r', True)"
  shows "client_inv hton ntoh str (hub_after_read hton route h i rest limit (set_session t i s) evs) i"
proof -
  let ?h = "hub_after_read hton route h i rest limit (set_session t i s) evs"
  have "handled ?h = handled h @ map (\<lambda>msg. (i, msg, route (session_id (store (mgr h) ! i)) msg)) ms" using evs(1) by (simp add: hub_after_read_def Let_def)
  from got_from_after [OF this] have "got_from ?h i = got_from h i @ ms" by simp
  moreover have "mgr ?h = set_session t i s" "cstate (links ?h i) = Malformed"
    using evs(2) by (simp_all add: hub_after_read_def Let_def)
  ultimately show ?thesis
    using i s cut by (simp add: client_inv_def stream_messages_def stream_malformed_def)
qed

lemma hub_inv_limit: "hub_inv hton ntoh hdl stream h \<Longrightarrow> buf_length (recv_buffer s) = 32768 \<Longrightarrow> limit_ok s (shared_limit h)"
  by (auto simp: hub_inv_def limit_ok_def HS_NET_PACKET_MAX_SIZE_def)

lemma hub_after_read_keeps:
  "mgr (hub_after_read hton route h i rest limit m evs) = m" "shared_limit (hub_after_read hton route h i rest limit m evs) = limit"
  "server (hub_after_read hton route h i rest limit m evs) = server h"
  "clients (hub_after_read hton route h i rest limit m evs) = clients h"
  by (simp_all add: hub_after_read_def Let_def)

lemma hub_read_good:
  assumes inv: "hub_inv hton ntoh hdl stream h"
    and short: "\<forall>sid msg. \<forall>(to, d)\<in>set (route sid msg). length d < 2 ^ 32 - 8"
    and known: "\<And>sid msg. fst ` set (route sid msg) \<subseteq> set (clients h)"
    and i: "i < length (store (mgr h))" "cstate (links h i) = Open"
    and rd: "event_handler (store (mgr h) ! i) = Some h0" "buf_length (recv_buffer (store (mgr h) ! i)) = 32768"
    and xs: "xs \<noteq> []" "length xs \<le> unat (GetLeftInSize (recv_buffer (store (mgr h) ! i)))"
    and cut: "unframe (frame ntoh) (pending (recv_buffer (store (mgr h) ! i)) @ xs) = (ms, r1, False)"
      "unframe (frame ntoh) r1 = ([], r1, False)" "unframe (frame ntoh) (r1 @ rest) = (ms', r, bad)"
      "unframe (frame ntoh) (stream i) = (got_from h i @ ms @ ms', r', bad)"
  shows "\<exists>s1 limit' m' evs. socket_read (store (mgr h) ! i) xs = Inr s1 \<and>
    callback_read ntoh (stored i) (route_handler hton route) (shared_limit h) (set_session (mgr h) i s1) None (of_nat (length xs)) =
      Some (Inr (limit', m', evs)) \<and> hub_inv hton ntoh hdl stream (hub_after_read hton route h i rest limit' m' evs) \<and>
    same_registry (mgr h) m' \<and> (\<forall>j. j \<noteq> i \<longrightarrow> CloseSocket \<notin> set (acts_of j evs))"
proof -
  let ?s = "store (mgr h) ! i" and ?ds = "concat (map (route (session_id (store (mgr h) ! i))) ms)"
  have wf: "wf_session ?s" by (rule hub_invD(2) [OF inv i(1)])
  have lim: "limit_ok ?s (shared_limit h)" by (rule hub_inv_limit [OF inv rd(2)])
  have sh: "\<forall>(to, d)\<in>set ?ds. length d < 2 ^ 32 - 8" using short by fastforce
  have kn: "fst ` set ?ds \<subseteq> set (clients h)" using known by fastforce
  obtain t a where t: "replies (stored i) (route_handler hton route) ms (mgr h) = Inr (t, a)" "after_sends hton h ?ds t a"
    "\<forall>j. messages (acts_of j a) = (if j = i then ms else []) \<and> CloseSocket \<notin> set (acts_of j a)"
    by (rule handler_sends [OF inv i(1) short])
  obtain s1 limit' b where g: "socket_read ?s xs = Inr s1"
    "callback_read ntoh (stored i) (route_handler hton route) (shared_limit h) (set_session (mgr h) i s1) None (of_nat (length xs)) =
      Some (bind_res (replies (stored i) (route_handler hton route) ms (mgr h)) (\<lambda>(t, a).
        Inr (limit', set_session t i ((store t ! i)\<lparr>recv_buffer := b\<rparr>), a @ map (Pair i) (session_start (?s\<lparr>recv_buffer := b\<rparr>)))))"
    "wf_session (?s\<lparr>recv_buffer := b\<rparr>)" "pending b = r1" "limit_ok (?s\<lparr>recv_buffer := b\<rparr>) limit'"
    "0 < unat (GetLeftInSize b)" "buf_length b = buf_length (recv_buffer ?s)"
    by (rule routing_read [OF i(1) wf xs cut(1) lim rd(1)])
  let ?m = "set_session t i ((store t ! i)\<lparr>recv_buffer := b\<rparr>)"
  let ?evs = "a @ map (Pair i) (session_start (?s\<lparr>recv_buffer := b\<rparr>))"
  let ?h = "hub_after_read hton route h i rest limit' ?m ?evs"
  have evs: "messages (acts_of i ?evs) = ms" "CloseSocket \<notin> set (acts_of i ?evs)"
    "\<And>prev. started (acts_of i ?evs) prev = started (acts_of i a) prev" "\<And>j. j \<noteq> i \<Longrightarrow> acts_of j ?evs = acts_of j a"
    using t(3) by (simp_all add: session_start_def)
  note after = after_sendsD [OF t(2)]
  have sid: "session_id ((store t ! i)\<lparr>recv_buffer := b\<rparr>) = session_id ?s"
    using after(3) [of i] by (simp add: same_client_def)
  have "client_inv hton ntoh (stream j) ?h j" if j: "j < length (store (mgr h))" for j
  proof (cases "j = i")
    case True
    have b: "buf_length b = 32768" "unframe (frame ntoh) (pending b) = ([], pending b, False)"
      "unframe (frame ntoh) (pending b @ rest) = (ms', r, bad)" using g(4,7) rd(2) cut(2,3) by simp_all
    show ?thesis unfolding True
      by (rule reader_goes_on [where route = route, OF inv t(2) sh refl i evs(1-3) g(3) b(1) g(6) b(2,3) cut(4)])
  next
    case False
    show ?thesis
      by (rule others_after_read [where route = route and ms = ms, OF inv t(2) sh kn refl j False evs(1) evs(4) [OF False] _ refl sid]) (use t(3) in blast)
  qed
  moreover have "limit' = None \<or> limit' = Some 24576"
    using g(5,7) rd(2) by (auto simp: limit_ok_def HS_NET_PACKET_MAX_SIZE_def)
  moreover have "links ?h j = links h j" if j: "j \<ge> length (store (mgr h))" for j
    by (rule beyond_after_read [where route = route and ms = ms, OF inv t(2) kn refl j _ evs(1) evs(4)]) (use t(3) i(1) j in auto)
  moreover have "cstate (links ?h j) = Waiting \<longleftrightarrow> cstate (links h j) = Waiting" for j
    using evs(2,4) t(3) by (cases "j = i") (simp_all add: hub_after_read_def Let_def)
  moreover have "same_registry (mgr h) (mgr ?h)"
    unfolding hub_after_read_keeps by (rule same_registry_set [OF after(1) sid])
  moreover have "handled ?h = handled h @ map (\<lambda>msg. (i, msg, route (session_id ?s) msg)) ms"
    using evs(1) by (simp add: hub_after_read_def Let_def)
  ultimately have "hub_inv hton ntoh hdl stream ?h"
    by (intro hub_inv_frame [OF inv, where i = i and ms = ms and out = "route (session_id ?s)"])
      (use i(1) known in \<open>simp_all add: hub_after_read_keeps\<close>)
  moreover have "callback_read ntoh (stored i) (route_handler hton route) (shared_limit h) (set_session (mgr h) i s1) None (of_nat (length xs)) =
      Some (Inr (limit', ?m, ?evs))" using g(2) t(1) by simp
  moreover have "\<forall>j. j \<noteq> i \<longrightarrow> CloseSocket \<notin> set (acts_of j ?evs)" using evs(4) t(3) by simp
  moreover have "same_registry (mgr h) ?m" by (rule same_registry_set [OF after(1) sid])
  ultimately show ?thesis using g(1) by blast
qed

lemma hub_read_bad:
  assumes inv: "hub_inv hton ntoh hdl stream h"
    and short: "\<forall>sid msg. \<forall>(to, d)\<in>set (route sid msg). length d < 2 ^ 32 - 8"
    and known: "\<And>sid msg. fst ` set (route sid msg) \<subseteq> set (clients h)"
    and i: "i < length (store (mgr h))" and op: "cstate (links h i) = Open" and rd: "event_handler (store (mgr h) ! i) = Some h0"
    and xs: "xs \<noteq> []" "length xs \<le> unat (GetLeftInSize (recv_buffer (store (mgr h) ! i)))"
    and cut: "unframe (frame ntoh) (pending (recv_buffer (store (mgr h) ! i)) @ xs) = (ms, r1, True)"
      "unframe (frame ntoh) (stream i) = (got_from h i @ ms, r', True)"
  shows "\<exists>s1 limit' m' evs. socket_read (store (mgr h) ! i) xs = Inr s1 \<and>
    callback_read ntoh (stored i) (route_handler hton route) (shared_limit h) (set_session (mgr h) i s1) None (of_nat (length xs)) =
      Some (Inr (limit', m', evs)) \<and> hub_inv hton ntoh hdl stream (hub_after_read hton route h i rest limit' m' evs) \<and>
    same_registry (mgr h) m' \<and> (\<forall>j. j \<noteq> i \<longrightarrow> CloseSocket \<notin> set (acts_of j evs))"
proof -
  let ?s = "store (mgr h) ! i" and ?ds = "concat (map (route (session_id (store (mgr h) ! i))) ms)"
  have wf: "wf_session ?s" by (rule hub_invD(2) [OF inv i])
  have sh: "\<forall>(to, d)\<in>set ?ds. length d < 2 ^ 32 - 8" using short by fastforce
  have kn: "fst ` set ?ds \<subseteq> set (clients h)" using known by fastforce
  obtain t a where t: "replies (stored i) (route_handler hton route) ms (mgr h) = Inr (t, a)" "after_sends hton h ?ds t a"
    "\<forall>j. messages (acts_of j a) = (if j = i then ms else []) \<and> CloseSocket \<notin> set (acts_of j a)"
    by (rule handler_sends [OF inv i short])
  obtain s1 b where g: "socket_read ?s xs = Inr s1"
    "callback_read ntoh (stored i) (route_handler hton route) (shared_limit h) (set_session (mgr h) i s1) None (of_nat (length xs)) =
      Some (bind_res (replies (stored i) (route_handler hton route) ms (mgr h)) (\<lambda>(t, a).
        bind_res (session_clear ((store t ! i)\<lparr>recv_buffer := b\<rparr>)) (\<lambda>(s, a').
          Inr (shared_limit h, set_session t i s, a @ map (Pair i) a'))))"
    "wf_session (?s\<lparr>recv_buffer := b\<rparr>)"
    by (rule routing_read_bad [OF i wf xs cut(1) rd]) blast
  note after = after_sendsD [OF t(2)]
  have same: "same_client (store t ! i) ?s" "wf_session (store t ! i)" using after(3,4) i by simp_all
  have "wf_session ((store t ! i)\<lparr>recv_buffer := b\<rparr>)" using same(2) g(3) by (simp add: wf_session_def)
  then obtain s' where s': "session_clear ((store t ! i)\<lparr>recv_buffer := b\<rparr>) = Inr (s', [CloseSocket])" "wf_session s'"
    "session_id s' = session_id ((store t ! i)\<lparr>recv_buffer := b\<rparr>)" using session_clear_result by metis
  let ?m = "set_session t i s'" and ?evs = "a @ [(i, CloseSocket)]"
  let ?h = "hub_after_read hton route h i rest (shared_limit h) ?m ?evs"
  have evs: "messages (acts_of i ?evs) = ms" "CloseSocket \<in> set (acts_of i ?evs)" "\<And>j. j \<noteq> i \<Longrightarrow> acts_of j ?evs = acts_of j a"
    using t(3) by simp_all
  have sid: "session_id s' = session_id ?s" using s'(3) same(1) by (simp add: same_client_def)
  have "client_inv hton ntoh (stream j) ?h j" if j: "j < length (store (mgr h))" for j
  proof (cases "j = i")
    case True
    show ?thesis unfolding True
      by (rule reader_is_closed [OF _ evs(1,2) s'(2) cut(2)]) (use i after(2) in simp)
  next
    case False
    show ?thesis
      by (rule others_after_read [where route = route and ms = ms, OF inv t(2) sh kn refl j False evs(1) evs(3) [OF False] _ refl sid]) (use t(3) in blast)
  qed
  moreover have "links ?h j = links h j" if j: "j \<ge> length (store (mgr h))" for j
    by (rule beyond_after_read [where route = route and ms = ms, OF inv t(2) kn refl j _ evs(1) evs(3)]) (use t(3) i j in auto)
  moreover have "cstate (links ?h j) = Waiting \<longleftrightarrow> cstate (links h j) = Waiting" for j
    using evs(2,3) t(3) op by (cases "j = i") (simp_all add: hub_after_read_def Let_def)
  moreover have "same_registry (mgr h) (mgr ?h)"
    unfolding hub_after_read_keeps by (rule same_registry_set [OF after(1) sid])
  moreover have "handled ?h = handled h @ map (\<lambda>msg. (i, msg, route (session_id ?s) msg)) ms"
    using evs(1) by (simp add: hub_after_read_def Let_def)
  ultimately have "hub_inv hton ntoh hdl stream ?h"
    using inv by (intro hub_inv_frame [OF inv, where i = i and ms = ms and out = "route (session_id ?s)"])
      (use i known in \<open>simp_all add: hub_after_read_keeps hub_inv_def\<close>)
  moreover have "callback_read ntoh (stored i) (route_handler hton route) (shared_limit h) (set_session (mgr h) i s1) None (of_nat (length xs)) =
      Some (Inr (shared_limit h, ?m, ?evs))" using g(2) t(1) s'(1) by simp
  moreover have "\<forall>j. j \<noteq> i \<longrightarrow> CloseSocket \<notin> set (acts_of j ?evs)" using evs(3) t(3) by simp
  moreover have "same_registry (mgr h) ?m" by (rule same_registry_set [OF after(1) sid])
  ultimately show ?thesis using g(1) by blast
qed

text \<open>So a read of an open connection always works, whatever the bytes are, and keeps the invariant.\<close>

lemma hub_read_works:
  assumes net: "net_order hton ntoh" and inv: "hub_inv hton ntoh hdl stream h"
    and short: "\<forall>sid msg. \<forall>(to, d)\<in>set (route sid msg). length d < 2 ^ 32 - 8"
    and known: "\<And>sid msg. fst ` set (route sid msg) \<subseteq> set (clients h)"
    and i: "i < length (store (mgr h))" "cstate (links h i) = Open"
    and xs: "to_read (links h i) = xs @ rest" "xs \<noteq> []" "length xs \<le> unat (GetLeftInSize (recv_buffer (store (mgr h) ! i)))"
  shows "\<exists>s1 limit' m' evs. socket_read (store (mgr h) ! i) xs = Inr s1 \<and>
    callback_read ntoh (stored i) (route_handler hton route) (shared_limit h) (set_session (mgr h) i s1) None (of_nat (length xs)) =
      Some (Inr (limit', m', evs)) \<and> hub_inv hton ntoh hdl stream (hub_after_read hton route h i rest limit' m' evs) \<and>
    same_registry (mgr h) m' \<and> (\<forall>j. j \<noteq> i \<longrightarrow> CloseSocket \<notin> set (acts_of j evs))"
proof -
  let ?s = "store (mgr h) ! i"
  have "read_ok ntoh (stream i) (got_from h i) (xs @ rest) ?s"
    using hub_invD(3) [OF inv i] xs(1) by (simp add: open_inv_def)
  then obtain h0 msall r r' bad where rd: "event_handler ?s = Some h0" "buf_length (recv_buffer ?s) = 32768"
    and all: "unframe (frame ntoh) (pending (recv_buffer ?s) @ xs @ rest) = (msall, r, bad)"
    "unframe (frame ntoh) (stream i) = (got_from h i @ msall, r', bad)"
    by (auto simp: read_ok_def)
  show ?thesis
  proof (rule net_order.stream_cut [OF net all(1)])
    fix ms r1 ms2
    assume "unframe (frame ntoh) (pending (recv_buffer ?s) @ xs) = (ms, r1, False)" "unframe (frame ntoh) (r1 @ rest) = (ms2, r, bad)"
      "msall = ms @ ms2" "unframe (frame ntoh) r1 = ([], r1, False)"
    then show ?thesis
      using hub_read_good [OF inv short known i rd xs(2,3), of ms r1 rest ms2 r bad r'] all(2) by simp
  next
    fix r1 assume "unframe (frame ntoh) (pending (recv_buffer ?s) @ xs) = (msall, r1, True)" bad
    then show ?thesis using hub_read_bad [OF inv short known i rd(1) xs(2,3), of msall r1 r' rest] all(2) by simp
  qed
qed

end
