(* ===== verification/HS_ServerRuns.thy ===== *)
theory HS_ServerRuns
  imports HS_ServerTraffic
begin

text \<open>
  The runs of a server, from \<open>start\<close> through accepts, reads, writes and failures in any order. Every step keeps the
  invariant of \<open>HS_ServerTraffic\<close>, and a read or an accept can always take place.
\<close>

section \<open>An accept\<close>

text \<open>What one completed accept does: the session it was started for is connected, unless it failed, and the next
  accept is started on a new session.\<close>

lemma accept_result:
  assumes acc: "srv_acceptor srv = Some a" "acc_session_id a = 0" "acc_handler a = Some hdl" "acc_pending a = [p]"
    and m: "mgr_inv m" "unat (curr_id m) + 1 < 2 ^ 32" "p < length (store m)"
    and run: "run_accept junk (srv, m, []) (p, error) = (srv', m', acts)"
    and m1: "m1 = (if error then m else set_session m p ((store m ! p)\<lparr>event_handler := Some hdl, connected := True\<rparr>))"
  shows "srv' = srv\<lparr>srv_acceptor := Some (a\<lparr>acc_pending := [length (store m)]\<rparr>)\<rparr>"
    "client_ids acts = (if error then [] else [session_id (store m ! p)])"
    "store m' = store m1 @ [HSSession_new junk (curr_id m + 1) 32768 32768]"
    "sessions m' = (sessions m)(curr_id m + 1 \<mapsto> length (store m))" "curr_id m' = curr_id m + 1" "curr_id m < curr_id m'" "mgr_inv m'"
proof -
  have same: "mgr_inv m1" "curr_id m1 = curr_id m" "sessions m1 = sessions m" "length (store m1) = length (store m)"
    using m1 m(1) mgr_inv_set_session [OF m(1)] by simp_all
  obtain ref m2 where new: "new_session junk m1 32768 32768 = (ref, m2)" by fastforce
  have r: "srv' = srv\<lparr>srv_acceptor := Some (a\<lparr>acc_pending := [ref]\<rparr>)\<rparr>" "m' = m2"
    "client_ids acts = (if error then [] else [session_id (store m ! p)])"
    using run acc m1 new
    by (cases error; auto simp: handle_accept_def acceptor_start_def session_connected_def attach_eventhandler_def
      session_start_def split: prod.splits)+
  note n = new_session_result [OF same(1) _ new]
  show "srv' = srv\<lparr>srv_acceptor := Some (a\<lparr>acc_pending := [length (store m)]\<rparr>)\<rparr>"
    "client_ids acts = (if error then [] else [session_id (store m ! p)])"
    "store m' = store m1 @ [HSSession_new junk (curr_id m + 1) 32768 32768]"
    "sessions m' = (sessions m)(curr_id m + 1 \<mapsto> length (store m))" "curr_id m' = curr_id m + 1" "curr_id m < curr_id m'" "mgr_inv m'"
    using r n same m(2) by simp_all
qed

text \<open>A client that has just been connected.\<close>

lemma open_inv_fresh:
  assumes net: "net_order hton ntoh" and s: "fresh_client (store (mgr h) ! j)" "event_handler (store (mgr h) ! j) \<noteq> None"
    and l: "links h j = (waiting_link stream)\<lparr>cstate := Open\<rparr>" and hist: "got_from h j = []" "sent_to h j = []"
  shows "client_inv hton ntoh stream h j"
proof -
  have "unsent (send_buffer (store (mgr h) ! j)) = []" using s by (simp add: fresh_client_def unsent_def filled_def)
  then have "write_inv hton (side h j)" using s l by (simp add: fresh_client_def write_inv_def side_def waiting_link_def)
  moreover have "read_ok ntoh stream [] stream (store (mgr h) ! j)"
    using s net_order.stream_Nil [OF net] by (cases "unframe (frame ntoh) stream") (simp add: fresh_client_def read_ok_def)
  moreover have "queue_ok [] [] (store (mgr h) ! j)" using s by (simp add: queue_ok_def fresh_client_def)
  ultimately show ?thesis
    using s l hist by (simp add: client_inv_def open_inv_def waiting_link_def fresh_client_def)
qed

lemma client_inv_cong:
  assumes "store (mgr h') ! j = store (mgr h) ! j" "links h' j = links h j" "got_from h' j = got_from h j" "sent_to h' j = sent_to h j"
  shows "client_inv hton ntoh stream h' j \<longleftrightarrow> client_inv hton ntoh stream h j"
  using assms by (simp add: client_inv_def open_inv_def side_def cong: connection_state.case_cong)

lemma hub_accept_pending:
  assumes inv: "hub_inv hton ntoh hdl stream h"
  obtains a p where "srv_acceptor (server h) = Some a" "acc_session_id a = 0" "acc_handler a = Some hdl" "acc_pending a = [p]"
    "p < length (store (mgr h))" "session_id (store (mgr h) ! p) = curr_id (mgr h)" "sessions (mgr h) (curr_id (mgr h)) = Some p"
    "cstate (links h p) = Waiting"
  using inv unfolding hub_inv_def accepting_def mgr_inv_def by blast

lemma hub_accept_inv:
  assumes net: "net_order hton ntoh" and inv: "hub_inv hton ntoh hdl stream h"
    and acc: "srv_acceptor (server h) = Some a" "ref \<in> set (acc_pending a)" and room: "unat (curr_id (mgr h)) + 1 < 2 ^ 32"
    and run: "run_accept junk (server h, mgr h, []) (ref, error) = (srv', m', acts)"
  shows "hub_inv hton ntoh hdl stream (hub_after_accept h ref error srv' m' acts)"
proof -
  let ?m = "mgr h" and ?h = "hub_after_accept h ref error srv' m' acts" and ?n = "length (store (mgr h))"
  have a: "acc_session_id a = 0" "acc_handler a = Some hdl" "acc_pending a = [ref]" "ref < ?n"
    "session_id (store ?m ! ref) = curr_id ?m" "sessions ?m (curr_id ?m) = Some ref" "cstate (links h ref) = Waiting"
    using hub_accept_pending [OF inv] acc by force+
  have m: "mgr_inv ?m" and cl: "\<And>j. j < ?n \<Longrightarrow> client_inv hton ntoh (stream j) h j"
    and beyond: "\<And>j. j \<ge> ?n \<Longrightarrow> links h j = waiting_link (stream j)"
    and hist: "\<And>e. e \<in> set (handled h) \<Longrightarrow> fst e < ?n \<and> fst ` set (snd (snd e)) \<subseteq> set (clients h)"
    using inv by (simp_all add: hub_inv_def history_ok_def)
  define m1 where "m1 = (if error then ?m else set_session ?m ref ((store ?m ! ref)\<lparr>event_handler := Some hdl, connected := True\<rparr>))"
  note r = accept_result [OF acc(1) a(1-3) m room a(4) run m1_def]
  have st: "length (store m') = Suc ?n" "\<And>j. j < ?n \<Longrightarrow> j \<noteq> ref \<Longrightarrow> store m' ! j = store ?m ! j" "store m' ! ref = store m1 ! ref"
    "store m' ! ?n = HSSession_new junk (curr_id ?m + 1) 32768 32768"
    using a(4) by (auto simp: r(3) m1_def nth_append)
  have fresh_id: "sessions ?m (curr_id ?m + 1) = None"
  proof (rule ccontr)
    assume "sessions ?m (curr_id ?m + 1) \<noteq> None"
    then have "curr_id ?m + 1 \<le> curr_id ?m" using m by (auto simp: mgr_inv_def)
    then show False using r(5,6) leD by metis
  qed
  have reg: "get_session m' sid = Some j \<longleftrightarrow> get_session ?m sid = Some j" if "j < ?n" for sid j
    using that fresh_id by (simp add: get_session_def r(4))
  have known: "\<exists>ref'. sid < curr_id ?m \<and> sessions ?m sid = Some ref' \<and> sessions m' sid = Some ref' \<and> cstate (links h ref') \<noteq> Waiting"
    if "sid \<in> set (clients h)" for sid
    using inv that r(5,6) unfolding hub_inv_def accepting_def r(4) by fastforce
  have h': "mgr ?h = m'" "handled ?h = handled h" "server ?h = srv'" "shared_limit ?h = shared_limit h"
    "links ?h = (links h)(ref := (links h ref)\<lparr>cstate := if error then Waiting else Open\<rparr>)"
    "clients ?h = clients h @ (if error then [] else [curr_id ?m])"
    using r(2) a(5) by (simp_all add: hub_after_accept_def)
  have got: "got_from ?h j = got_from h j" for j by (simp add: got_from_def h')
  have sent: "sent_to ?h j = sent_to h j" if "j < ?n" for j
    using reg [OF that] by (simp add: sent_to_def h' addressed_def)
  have others: "client_inv hton ntoh (stream j) ?h j" if "j < ?n" "j \<noteq> ref" for j
    using cl [OF that(1)] client_inv_cong [of ?h j h] st(2) [OF that] got [of j] sent [OF that(1)] that(2) by (simp add: h')
  have waiting: "fresh_client (store ?m ! ref)" "links h ref = waiting_link (stream ref)" "got_from h ref = []" "sent_to h ref = []"
    using cl [OF a(4)] a(7) by (simp_all add: client_inv_def)
  have "client_inv hton ntoh (stream ref) ?h ref"
  proof (cases error)
    case True
    have "store (mgr ?h) ! ref = store ?m ! ref" "links ?h ref = links h ref"
      unfolding h'(1,5) st(3) m1_def using True a(7) by simp_all
    from client_inv_cong [OF this got sent [OF a(4)]] cl [OF a(4)] show ?thesis by (rule iffD2)
  next
    case False
    have "links ?h ref = (waiting_link (stream ref))\<lparr>cstate := Open\<rparr>"
      "store (mgr ?h) ! ref = (store ?m ! ref)\<lparr>event_handler := Some hdl, connected := True\<rparr>"
      unfolding h'(1,5) st(3) m1_def using False waiting(2) a(4) by simp_all
    with waiting(1) open_inv_fresh [OF net _ _ this(1)] got [of ref] sent [OF a(4)] waiting(3,4)
    show ?thesis by (simp add: fresh_client_def wf_session_def)
  qed
  moreover have "client_inv hton ntoh (stream ?n) ?h ?n"
  proof -
    have "filter (\<lambda>e. fst e = ?n) (handled h) = []"
      unfolding filter_empty_conv using hist less_irrefl by metis
    then have "got_from h ?n = []" by (simp add: got_from_def)
    moreover have "sent_to ?h ?n = []"
    proof -
      have "get_session m' sid \<noteq> Some ?n" if "e \<in> set (handled h)" "(sid, d) \<in> set (snd (snd e))" for e sid d
      proof -
        have "sid \<in> set (clients h)" using hist [OF that(1)] that(2) by force
        then obtain k where "sessions ?m sid = Some k" "sessions m' sid = Some k" using known by blast
        then show ?thesis using m by (auto simp: get_session_def mgr_inv_def)
      qed
      then show ?thesis by (auto simp: sent_to_def h' addressed_def filter_empty_conv)
    qed
    moreover have "links ?h ?n = waiting_link (stream ?n)" using beyond a(4) by (simp add: h')
    moreover have "fresh_client (store m' ! ?n)" using st(4) fresh_client_new by simp
    ultimately show ?thesis using got [of ?n] by (simp add: client_inv_def h' waiting_link_def fresh_client_def)
  qed
  ultimately have clients: "client_inv hton ntoh (stream j) ?h j" if "j < Suc ?n" for j
    using others that by (metis less_SucE)
  have "accepting hdl ?h"
  proof -
    have "curr_id ?m \<notin> set (clients h)" using known by fastforce
    then have "distinct (clients ?h)" using inv by (simp add: h' hub_inv_def accepting_def)
    moreover have "\<exists>k. sid < curr_id m' \<and> sessions m' sid = Some k \<and> cstate (links ?h k) \<noteq> Waiting"
      if "sid \<in> set (clients ?h)" for sid
    proof (cases "sid \<in> set (clients h)")
      case True
      from known [OF this] obtain k where "sid < curr_id ?m" "sessions m' sid = Some k" "cstate (links h k) \<noteq> Waiting"
        by blast
      moreover from this a(7) have "links ?h k = links h k" by (auto simp: h')
      ultimately show ?thesis using r(6) by (intro exI [of _ k]) simp
    next
      case False
      with that have e: "\<not> error" "sid = curr_id ?m" by (auto simp: h' split: if_splits)
      have "cstate (links ?h ref) \<noteq> Waiting" unfolding h'(5) using e(1) by simp
      moreover have "sessions m' sid = Some ref" using e(2) r(4-6) a(6) by auto
      ultimately show ?thesis using r(6) e(2) by blast
    qed
    moreover have "sessions m' (curr_id m') = Some ?n" "cstate (links ?h ?n) = Waiting"
      using r(4,5) beyond [of ?n] a(4) by (simp_all add: h' waiting_link_def)
    moreover have "srv_acceptor (server ?h) = Some (a\<lparr>acc_pending := [?n]\<rparr>)" by (simp add: h'(3)) (simp add: r(1))
    moreover have "acc_session_id (a\<lparr>acc_pending := [?n]\<rparr>) = 0" "acc_handler (a\<lparr>acc_pending := [?n]\<rparr>) = Some hdl"
      "acc_pending (a\<lparr>acc_pending := [?n]\<rparr>) = [?n]" using a(1,2) by simp_all
    ultimately show ?thesis unfolding accepting_def h'(1) by blast
  qed
  moreover have "history_ok ?h" using hist st(1) by (fastforce simp: history_ok_def h')
  ultimately show ?thesis
    using inv clients beyond r(7) st(1) a(4) by (simp add: hub_inv_def h')
qed

text \<open>An accept can always complete, with or without an error.\<close>

lemma hub_accepts:
  assumes inv: "hub_inv hton ntoh hdl stream h" and room: "unat (curr_id (mgr h)) + 1 < 2 ^ 32"
    and p: "get_session (mgr h) (curr_id (mgr h)) = Some p"
  obtains h' where "hub_step hton ntoh junk route h h'"
    "links h' = (links h)(p := (links h p)\<lparr>cstate := if error then Waiting else Open\<rparr>)"
    "clients h' = clients h @ (if error then [] else [curr_id (mgr h)])" "curr_id (mgr h') = curr_id (mgr h) + 1"
    "\<And>sid. sid \<le> curr_id (mgr h) \<Longrightarrow> get_session (mgr h') sid = get_session (mgr h) sid"
    "\<And>j. j < length (store (mgr h)) \<Longrightarrow> recv_buffer (store (mgr h') ! j) = recv_buffer (store (mgr h) ! j)"
    "handled h' = handled h" "get_session (mgr h') (curr_id (mgr h')) \<noteq> None"
proof -
  obtain a where a: "srv_acceptor (server h) = Some a" "acc_session_id a = 0" "acc_handler a = Some hdl" "acc_pending a = [p]"
    "p < length (store (mgr h))" "session_id (store (mgr h) ! p) = curr_id (mgr h)"
    using hub_accept_pending [OF inv] p by (metis get_session_def option.inject)
  have m: "mgr_inv (mgr h)" using inv by (simp add: hub_inv_def)
  obtain srv' m' acts where run: "run_accept junk (server h, mgr h, []) (p, error) = (srv', m', acts)"
    using prod_cases3 by blast
  note r = accept_result [OF a(1-4) m room a(5) run refl]
  show ?thesis
  proof (rule that [of "hub_after_accept h p error srv' m' acts"])
    show "hub_step hton ntoh junk route h (hub_after_accept h p error srv' m' acts)"
      by (rule hub_step.hub_accept [OF a(1) _ room run]) (simp add: a(4))
  qed (use r a(5,6) in \<open>auto simp: hub_after_accept_def get_session_def nth_append\<close>)
qed

lemma hub_pending_id:
  assumes "hub_inv hton ntoh hdl stream h"
  obtains p where "get_session (mgr h) (curr_id (mgr h)) = Some p" "p < length (store (mgr h))" "cstate (links h p) = Waiting"
    "GetLeftInSize (recv_buffer (store (mgr h) ! p)) = 32768"
proof -
  obtain p where p: "p < length (store (mgr h))" "sessions (mgr h) (curr_id (mgr h)) = Some p" "cstate (links h p) = Waiting"
    using hub_accept_pending [OF assms] by metis
  then show ?thesis using that hub_invD(1) [OF assms p(1)] by (simp add: get_session_def client_inv_def fresh_client_def)
qed

section \<open>The other steps\<close>

text \<open>A step that changes one session and its link.\<close>

definition with_client :: "hub \<Rightarrow> nat \<Rightarrow> session \<Rightarrow> link \<Rightarrow> hub" where
  "with_client h i s l = h\<lparr>mgr := set_session (mgr h) i s, links := (links h)(i := l)\<rparr>"

lemma with_client_inv:
  assumes inv: "hub_inv hton ntoh hdl stream h" and i: "i < length (store (mgr h))"
    and s: "session_id s = session_id (store (mgr h) ! i)" "wf_session s"
    and l: "cstate l = Open \<Longrightarrow> cstate (links h i) = Open \<and>
        write_inv hton \<lparr>sess = s, outstanding = in_flight l, wire = sent l, accepted = queued l\<rparr> \<and>
        to_read l = to_read (links h i) \<and> recv_buffer s = recv_buffer (store (mgr h) ! i) \<and>
        event_handler s = event_handler (store (mgr h) ! i) \<and> queue_ok (queued l) (sent_to h i) s"
    and closed: "cstate l \<noteq> Malformed" "cstate l = Waiting \<longleftrightarrow> cstate (links h i) = Waiting" "cstate (links h i) \<noteq> Waiting"
  shows "hub_inv hton ntoh hdl stream (with_client h i s l)"
proof -
  let ?h = "with_client h i s l"
  have "same_registry (mgr h) (mgr h)" by (simp add: same_registry_def)
  from same_registry_set [OF this s(1)] have reg: "same_registry (mgr h) (mgr ?h)" by (simp add: with_client_def)
  have hist: "got_from ?h j = got_from h j" "sent_to ?h j = sent_to h j" for j
    using sent_to_after [OF reg, where ms = "[]"] by (simp_all add: with_client_def got_from_def)
  have "client_inv hton ntoh (stream j) ?h j" if j: "j < length (store (mgr h))" for j
  proof (cases "j = i")
    case False
    then show ?thesis
      using hub_invD(1) [OF inv j] hist [of j]
      by (simp add: client_inv_def open_inv_def side_def with_client_def set_session_other split: connection_state.splits)
  next
    case True
    have "open_inv hton ntoh (stream i) ?h i" if o: "cstate l = Open"
    proof -
      have "read_ok ntoh (stream i) (got_from h i) (to_read (links h i)) (store (mgr h) ! i)"
        using hub_invD(3) [OF inv i] l [OF o] by (simp add: open_inv_def)
      then show ?thesis using l [OF o] hist [of i] i
        by (simp add: open_inv_def side_def with_client_def read_ok_def)
    qed
    then show ?thesis
      using hub_invD(1) [OF inv i] hist [of i] i s(2) closed True
      by (auto simp: client_inv_def with_client_def split: connection_state.splits)
  qed
  then show ?thesis
    using inv by (intro hub_inv_frame [OF inv reg, where i = i and ms = "[]" and out = "\<lambda>_. []"])
      (use i closed in \<open>auto simp: with_client_def hub_inv_def\<close>)
qed

lemma session_clear_id: "session_clear s = Inr (s', a) \<Longrightarrow> session_id s' = session_id s"
  by (auto simp: session_clear_def bind_res_Inr_conv)

lemma write_result_id: "write_result s e n = Inr (s', a) \<Longrightarrow> session_id s' = session_id s"
  by (auto simp: write_result_def bind_res_Inr_conv Let_def dest!: handle_write_keeps session_clear_id
    split: option.splits if_splits prod.splits)

text \<open>A failing socket clears the session and nothing else.\<close>

lemma read_fails:
  assumes "wf_session s" "handle_error v < 0" "handle_read ntoh limit s (Some v) n = Some (Inr (limit', s', acts))"
  shows "limit' = limit \<and> wf_session s' \<and> session_id s' = session_id s"
proof -
  obtain t where "session_clear s = Inr (t, [CloseSocket])" "wf_session t" "session_id t = session_id s"
    using session_clear_result [OF assms(1)] by metis
  then show ?thesis using assms(2,3) by (simp add: handle_read_def Let_def)
qed

lemma write_fails:
  assumes "wf_session s" "handle_error v < 0" "write_result s (Some v) n = Inr (s', acts)"
  shows "wf_session s'"
proof -
  obtain t where "session_clear s = Inr (t, [CloseSocket])" "wf_session t" using session_clear_result [OF assms(1)] by metis
  then show ?thesis using assms(2,3) by (auto simp: write_result_def Let_def wf_session_def)
qed

text \<open>A completed or blocked write.\<close>

lemma hub_completion:
  assumes inv: "hub_inv hton ntoh hdl stream h" and i: "i < length (store (mgr h))" "cstate (links h i) = Open"
    and out: "in_flight (links h i) = Some xs"
    and fin: "(0 < n \<and> n \<le> length xs \<and> write_result (store (mgr h) ! i) None (of_nat n) = Inr (s', acts) \<and> gone = take n xs) \<or>
      (write_result (store (mgr h) ! i) (Some 10035) k = Inr (s', acts) \<and> gone = [])"
  shows "hub_inv hton ntoh hdl stream
    (with_client h i s' ((links h i)\<lparr>in_flight := started acts None, sent := sent (links h i) @ gone\<rparr>))"
proof -
  let ?w = "side h i" and ?s = "store (mgr h) ! i"
  let ?l = "(links h i)\<lparr>in_flight := started acts None, sent := sent (links h i) @ gone\<rparr>"
  have old: "open_inv hton ntoh (stream i) h i" by (rule hub_invD(3) [OF inv i])
  have w: "write_inv hton ?w" "outstanding ?w = Some xs" "sess ?w = ?s" "wire ?w = sent (links h i)" "accepted ?w = queued (links h i)"
    using old out by (simp_all add: open_inv_def side_def)
  have k: "recv_buffer s' = recv_buffer ?s" "event_handler s' = event_handler ?s"
    "buf_length (send_buffer s') = buf_length (send_buffer ?s)" "in_offset (send_buffer s') \<le> in_offset (send_buffer ?s)"
    using completion_keeps [OF w(1,2), of n s' acts k] fin w(3) by auto
  have "write_inv hton (?w\<lparr>sess := s', outstanding := started acts None, wire := wire ?w @ gone\<rparr>)"
    using fin
  proof (elim disjE conjE)
    assume n: "0 < n" "n \<le> length xs" "write_result ?s None (of_nat n) = Inr (s', acts)" "gone = take n xs"
    show ?thesis unfolding n(4)
      by (rule write_step_inv [OF write_step.write_done w(1)]) (use w n in simp_all)
  next
    assume b: "write_result ?s (Some 10035) k = Inr (s', acts)" "gone = []"
    have "write_inv hton (?w\<lparr>sess := s', outstanding := started acts None\<rparr>)"
      by (rule write_step_inv [OF write_step.write_blocked w(1)]) (use w b in simp_all)
    then show ?thesis using b(2) by simp
  qed
  then have side: "write_inv hton \<lparr>sess = s', outstanding = in_flight ?l, wire = sent ?l, accepted = queued ?l\<rparr>"
    using w(4,5) by (simp add: side_def)
  have le: "unat (in_offset (send_buffer s')) \<le> unat (in_offset (send_buffer ?s))" using k(4) by (simp add: word_le_nat_alt)
  have "queue_ok (queued (links h i)) (sent_to h i) ?s" using old by (simp add: open_inv_def)
  then have q: "queue_ok (queued ?l) (sent_to h i) s'" using k(3) le by (auto simp: queue_ok_def)
  have id: "session_id s' = session_id ?s" using fin write_result_id by metis
  have wf: "wf_session s'" using side by (simp add: write_inv_def)
  show ?thesis by (rule with_client_inv [OF inv i(1) id wf]) (use i(2) side k q in simp_all)
qed

lemma hub_step_inv:
  assumes net: "net_order hton ntoh"
    and short: "\<forall>known sid msg. \<forall>(to, d)\<in>set (route known sid msg). to \<in> set known \<and> length d < 2 ^ 32 - 8"
    and step: "hub_step hton ntoh junk route h h'" and inv: "hub_inv hton ntoh hdl stream h"
  shows "hub_inv hton ntoh hdl stream h'"
  using step
proof (cases rule: hub_step.cases)
  case (hub_accept a ref srv' m' acts error)
  then show ?thesis using hub_accept_inv [OF net inv] by blast
next
  case (hub_read i xs rest s1 limit' m' evs)
  have "\<forall>sid msg. \<forall>(to, d)\<in>set (route (clients h) sid msg). length d < 2 ^ 32 - 8"
    "fst ` set (route (clients h) sid msg) \<subseteq> set (clients h)" for sid msg
    using short by fastforce+
  then show ?thesis using hub_read_works [OF net inv _ _ hub_read(2-6), of "route (clients h)"] hub_read by auto
next
  case (hub_read_fails i v n limit' m' evs)
  obtain s' acts where r: "handle_read ntoh (shared_limit h) (store (mgr h) ! i) (Some v) n = Some (Inr (limit', s', acts))"
    "m' = set_session (mgr h) i s'"
    using hub_read_fails(5) by (auto simp: callback_read_def bind_res_Inr_conv split: option.splits)
  note f = read_fails [OF hub_invD(2) [OF inv hub_read_fails(2)] hub_read_fails(4) r(1)]
  have "h' = with_client h i s' ((links h i)\<lparr>cstate := Down\<rparr>)" using hub_read_fails(1) r(2) f by (simp add: with_client_def)
  moreover have "hub_inv hton ntoh hdl stream (with_client h i s' ((links h i)\<lparr>cstate := Down\<rparr>))"
    by (rule with_client_inv [OF inv hub_read_fails(2)]) (use f hub_read_fails(3) in simp_all)
  ultimately show ?thesis by simp
next
  case (hub_write_done i xs n s' acts)
  then show ?thesis
    using hub_completion [OF inv hub_write_done(2-4), of n s' acts "take n xs"] by (simp add: with_client_def)
next
  case (hub_write_blocked i xs n s' acts)
  then show ?thesis
    using hub_completion [OF inv hub_write_blocked(2-4), of 0 s' acts "[]" n] by (simp add: with_client_def)
next
  case (hub_write_fails i xs v n s' acts)
  have "cstate (links h i) \<noteq> Waiting"
    using hub_invD(1) [OF inv hub_write_fails(2)] hub_write_fails(3) by (auto simp: client_inv_def waiting_link_def)
  then have "hub_inv hton ntoh hdl stream (with_client h i s' ((links h i)\<lparr>in_flight := None, cstate := Down\<rparr>))"
    by (intro with_client_inv [OF inv hub_write_fails(2)])
      (use write_result_id [OF hub_write_fails(5)] write_fails [OF hub_invD(2) [OF inv hub_write_fails(2)] hub_write_fails(4,5)]
        in simp_all)
  then show ?thesis using hub_write_fails(1) by (simp add: with_client_def)
qed

lemma hub_run_inv:
  assumes "net_order hton ntoh"
    "\<forall>known sid msg. \<forall>(to, d)\<in>set (route known sid msg). to \<in> set known \<and> length d < 2 ^ 32 - 8"
  shows "(hub_step hton ntoh junk route)\<^sup>*\<^sup>* h h' \<Longrightarrow> hub_inv hton ntoh hdl stream h \<Longrightarrow> hub_inv hton ntoh hdl stream h'"
  by (induction rule: rtranclp_induct) (blast intro: hub_step_inv [OF assms])+

section \<open>From the start of the server\<close>

lemma hub_start_inv:
  assumes "serving hdl srv m []"
  shows "hub_inv hton ntoh hdl stream (hub_start srv m stream)"
  using assms
  by (auto simp: hub_inv_def hub_start_def serving_def accepting_def history_ok_def client_inv_def waiting_link_def
    fresh_client_def got_from_def sent_to_def)

lemma server_hub_inv:
  assumes "net_order hton ntoh"
    and "\<forall>known sid msg. \<forall>(to, d)\<in>set (route known sid msg). to \<in> set known \<and> length d < 2 ^ 32 - 8"
    and "server_start junk (server_set_eventhandler srv0 (Some hdl)) HSSessionMgr_new ep = (ok, srv, m)"
    and "(hub_step hton ntoh junk route)\<^sup>*\<^sup>* (hub_start srv m stream) h"
  shows "hub_inv hton ntoh hdl stream h"
proof -
  have "serving hdl srv m []" using server_serving [OF assms(3), of "[]" srv m "[]"] by simp
  from hub_run_inv [OF assms(1,2,4) hub_start_inv [OF this]] show ?thesis .
qed

lemma read_ok_all: "read_ok ntoh stream ms0 [] s \<Longrightarrow> ms0 = stream_messages ntoh stream"
  by (auto simp: read_ok_def stream_messages_def)

section \<open>Properties\<close>



section \<open>Witnesses\<close>

text \<open>Two clients are accepted; the first sends one message, which the handler passes on to all others.\<close>

definition ex_route :: "u32 list \<Rightarrow> relay" where
  "ex_route known sid msg = map (\<lambda>to. (to, take 8184 msg)) (filter (\<lambda>to. to \<noteq> sid) known)"

definition ex_stream :: "nat \<Rightarrow> byte list" where
  "ex_stream j = packet swap_u32 [5]"

lemma ex_route_ok: "\<forall>known sid msg. \<forall>(to, d)\<in>set (ex_route known sid msg). to \<in> set known \<and> length d < 2 ^ 32 - 8"
  by (auto simp: ex_route_def min_less_iff_disj)

lemma ex_stream_messages:
  "stream_messages swap_u32 (ex_stream j) = [[5]]" "\<not> stream_malformed swap_u32 (ex_stream j)"
  using net_order.stream_packets [OF little_endian.net_order_axioms, of "[[5]]"]
  by (simp_all add: stream_messages_def stream_malformed_def ex_stream_def packet_ok_def)

definition ex_started :: "bool \<times> client_server \<times> session_mgr" where
  "ex_started = server_start (\<lambda>_. 0) (server_set_eventhandler \<lparr>srv_handler = None, srv_acceptor = None\<rparr> (Some 7)) HSSessionMgr_new 80"

abbreviation ex_step :: "hub \<Rightarrow> hub \<Rightarrow> bool" where
  "ex_step \<equiv> hub_step swap_u32 swap_u32 (\<lambda>_. 0) ex_route"

abbreviation ex_hub :: hub where
  "ex_hub \<equiv> hub_start (fst (snd ex_started)) (snd (snd ex_started)) ex_stream"

lemma ex_start: "server_start (\<lambda>_. 0) (server_set_eventhandler \<lparr>srv_handler = None, srv_acceptor = None\<rparr> (Some 7)) HSSessionMgr_new 80 =
    (fst ex_started, fst (snd ex_started), snd (snd ex_started))"
  by (simp add: ex_started_def)

lemma ex_inv: "ex_step\<^sup>*\<^sup>* ex_hub h \<Longrightarrow> hub_inv swap_u32 swap_u32 7 ex_stream h"
  by (rule server_hub_inv [OF little_endian.net_order_axioms ex_route_ok ex_start])

lemma ex_accepted:
  obtains p q h where "ex_step\<^sup>*\<^sup>* ex_hub h" "clients h = [1, 2]" "handled h = []" "curr_id (mgr h) = 3"
    "get_session (mgr h) 1 = Some p" "get_session (mgr h) 2 = Some q" "p \<noteq> q" "cstate (links h p) = Open" "cstate (links h q) = Open"
    "to_read (links h p) = ex_stream p" "GetLeftInSize (recv_buffer (store (mgr h) ! p)) = 32768"
proof -
  have id0: "curr_id (mgr ex_hub) = 1"
    by (simp add: hub_start_def ex_started_def server_start_def server_set_eventhandler_def acceptor_start_def HSAcceptor_new_def
      HSSessionMgr_new_def new_session_def map_insert_def Let_def)
  have inv0: "hub_inv swap_u32 swap_u32 7 ex_stream ex_hub" by (rule ex_inv) simp
  obtain p where p: "get_session (mgr ex_hub) 1 = Some p" "p < length (store (mgr ex_hub))" "cstate (links ex_hub p) = Waiting"
    "GetLeftInSize (recv_buffer (store (mgr ex_hub) ! p)) = 32768"
    by (rule hub_pending_id [OF inv0]) (simp add: id0)
  obtain h1 where h1: "ex_step ex_hub h1" "links h1 = (links ex_hub)(p := (links ex_hub p)\<lparr>cstate := Open\<rparr>)"
    "clients h1 = [1]" "curr_id (mgr h1) = 2" "get_session (mgr h1) 1 = Some p"
    "recv_buffer (store (mgr h1) ! p) = recv_buffer (store (mgr ex_hub) ! p)" "handled h1 = []"
    by (rule hub_accepts [OF inv0, of p "\<lambda>_. 0" ex_route False]) (use p id0 in \<open>auto simp: hub_start_def\<close>)
  have inv1: "hub_inv swap_u32 swap_u32 7 ex_stream h1" by (rule ex_inv) (use h1(1) in blast)
  obtain q where q: "get_session (mgr h1) 2 = Some q" "cstate (links h1 q) = Waiting"
    by (rule hub_pending_id [OF inv1]) (simp add: h1(4))
  have p1: "p < length (store (mgr h1))" using inv1 h1(5) by (simp add: hub_inv_def mgr_inv_def get_session_def)
  obtain h2 where h2: "ex_step h1 h2" "links h2 = (links h1)(q := (links h1 q)\<lparr>cstate := Open\<rparr>)"
    "clients h2 = [1, 2]" "curr_id (mgr h2) = 3" "get_session (mgr h2) 1 = Some p" "get_session (mgr h2) 2 = Some q"
    "recv_buffer (store (mgr h2) ! p) = recv_buffer (store (mgr h1) ! p)" "handled h2 = []"
    by (rule hub_accepts [OF inv1, of q "\<lambda>_. 0" ex_route False]) (use q h1 p1 in auto)
  have run: "ex_step\<^sup>*\<^sup>* ex_hub h2" using h1(1) h2(1) by (meson converse_rtranclp_into_rtranclp r_into_rtranclp)
  have "p \<noteq> q" using q(2) h1(2) by auto
  then show ?thesis
    by (intro that [OF run h2(3,8,4,5,6)]) (use h1(2,6) h2(2,7) p(4) in \<open>simp_all add: hub_start_def waiting_link_def\<close>)
qed

lemma ex_relay:
  obtains p q ms h where "ex_step\<^sup>*\<^sup>* ex_hub h" "clients h = [1, 2]" "curr_id (mgr h) = 3"
    "get_session (mgr h) 1 = Some p" "get_session (mgr h) 2 = Some q" "cstate (links h p) = Open \<or> cstate (links h p) = Malformed"
    "cstate (links h q) = Open" "to_read (links h p) = []" "handled h = map (\<lambda>msg. (p, msg, [(2, take 8184 msg)])) ms"
proof -
  obtain p q h where h: "ex_step\<^sup>*\<^sup>* ex_hub h" "clients h = [1, 2]" "handled h = []" "curr_id (mgr h) = 3"
    "get_session (mgr h) 1 = Some p" "get_session (mgr h) 2 = Some q" "p \<noteq> q" "cstate (links h p) = Open" "cstate (links h q) = Open"
    "to_read (links h p) = ex_stream p" "GetLeftInSize (recv_buffer (store (mgr h) ! p)) = 32768" by (rule ex_accepted)
  have inv: "hub_inv swap_u32 swap_u32 7 ex_stream h" by (rule ex_inv [OF h(1)])
  have p: "p < length (store (mgr h))" "session_id (store (mgr h) ! p) = 1"
    using inv h(5) by (simp_all add: hub_inv_def mgr_inv_def get_session_def)
  let ?xs = "packet swap_u32 [5]"
  have xs: "to_read (links h p) = ?xs @ []" "?xs \<noteq> []" "length ?xs \<le> unat (GetLeftInSize (recv_buffer (store (mgr h) ! p)))"
    using h(10,11) by (simp_all add: ex_stream_def flip: length_greater_0_conv)
  have short: "\<forall>sid msg. \<forall>(to, d)\<in>set (ex_route (clients h) sid msg). length d < 2 ^ 32 - 8"
    and known: "\<And>sid msg. fst ` set (ex_route (clients h) sid msg) \<subseteq> set (clients h)"
    by (auto simp: ex_route_def min_less_iff_disj)
  obtain s1 limit' m' evs where r: "socket_read (store (mgr h) ! p) ?xs = Inr s1"
    "callback_read swap_u32 (stored p) (route_handler swap_u32 (ex_route (clients h))) (shared_limit h) (set_session (mgr h) p s1) None
      (of_nat (length ?xs)) = Some (Inr (limit', m', evs))"
    "hub_inv swap_u32 swap_u32 7 ex_stream (hub_after_read swap_u32 (ex_route (clients h)) h p [] limit' m' evs)"
    "same_registry (mgr h) m'" "\<forall>j. j \<noteq> p \<longrightarrow> CloseSocket \<notin> set (acts_of j evs)"
    using hub_read_works [OF little_endian.net_order_axioms inv short known p(1) h(8) xs] by blast
  let ?h = "hub_after_read swap_u32 (ex_route (clients h)) h p [] limit' m' evs"
  have "ex_step h ?h" by (rule hub_step.hub_read [where route = ex_route, OF p(1) h(8) xs r(1,2)])
  with h(1) have run: "ex_step\<^sup>*\<^sup>* ex_hub ?h" by (rule rtranclp.rtrancl_into_rtrancl)
  have "ex_route (clients h) 1 msg = [(2, take 8184 msg)]" for msg using h(2) by (simp add: ex_route_def)
  then have "handled ?h = map (\<lambda>msg. (p, msg, [(2, take 8184 msg)])) (messages (acts_of p evs))"
    using h(3) p(2) by (simp add: hub_after_read_def Let_def)
  then show ?thesis
    by (rule that [OF run, rotated -1])
      (use h(2,4-9) r(5) same_registryD [OF r(4)] in \<open>auto simp: hub_after_read_def Let_def\<close>)
qed



end
