(* ===== verification/HS_ClientConnector.thy ===== *)
theory HS_ClientConnector
  imports HS_Session
begin

text \<open>
  \<open>hs_client_connector.h\<close> and \<open>hs_client_connector.cpp\<close>: the client's polled connection on a
  non-blocking Winsock socket, with its unpacker and its packer. The socket and the data handler are
  the environment: what is done to them is a list of events, in order, and what Winsock answers is an
  argument of the operation. The unpacker and the packer of a connector are given its buffers by
  \<open>Init\<close> and lose them in \<open>Close\<close>; \<open>c_unpacker\<close> and \<open>c_packer\<close> say whether they have them.
  \<open>SOCKET\<close> is unsigned, so \<open>sock_ <= 0\<close> is \<open>sock_ = 0\<close>.
\<close>

section \<open>The code\<close>

datatype conn_state = NotInitialized | Unconnect | Connecting | Connected

record connector =
  c_sock :: u32
  c_ip :: string
  c_port :: u16
  c_send_buffer :: hs_send_buffer
  c_packer :: bool
  c_recv_buffer :: hs_recv_buffer
  c_unpacker :: bool
  c_state :: conn_state

datatype conn_event =
    SockConnect string u16
  | SockSend "byte list"
  | SockRecv size_t
  | SockShutdown u32
  | SockClose u32
  | OnConnected int
  | OnDisconnected int
  | OnReceived "byte list"

definition HSClientConnector_new :: "(nat \<Rightarrow> byte) \<Rightarrow> connector" where
  "HSClientConnector_new junk =
     \<lparr>c_sock = 0, c_ip = [], c_port = 0, c_send_buffer = HSSendBuffer_new junk 32768, c_packer = False,
      c_recv_buffer = HSRecvBuffer_new junk 1024, c_unpacker = False, c_state = NotInitialized\<rparr>"

definition Init ::
  "(nat \<Rightarrow> byte) \<Rightarrow> bool \<Rightarrow> u32 \<Rightarrow> bool \<Rightarrow> size_t \<Rightarrow> size_t \<Rightarrow> connector \<Rightarrow> (bool \<times> connector) res" where
  "Init junk wsa_ok new_socket ioctl_ok recv_buff_len send_buff_len c =
     (if \<not> wsa_ok then Inr (False, c)
      else let c = c\<lparr>c_sock := new_socket\<rparr> in
        if c_sock c = - 1 then Inr (False, c)
        else if \<not> ioctl_ok then Inr (False, c)
        else
          bind_res (SetLength junk (c_send_buffer c) send_buff_len) (\<lambda>w.
          bind_res (SetLength junk (c_recv_buffer c) recv_buff_len) (\<lambda>r.
          Inr (True, c\<lparr>c_send_buffer := w, c_packer := True, c_recv_buffer := r, c_unpacker := True,
                       c_state := Unconnect\<rparr>))))"

definition Close :: "connector \<Rightarrow> (connector \<times> conn_event list) res" where
  "Close c =
     (if c_sock c = 0 then Inr (c, [])
      else
        bind_res (HSSendBuffer_Clear (c_send_buffer c) True) (\<lambda>w.
        bind_res (HSRecvBuffer_Clear (c_recv_buffer c) True) (\<lambda>r.
        Inr (c\<lparr>c_send_buffer := w, c_packer := False, c_recv_buffer := r, c_unpacker := False,
               c_state := NotInitialized\<rparr>,
             [SockShutdown (c_sock c), SockClose (c_sock c)]))))"

definition Disconnect :: "connector \<Rightarrow> conn_event list" where
  "Disconnect c = (if c_sock c = 0 then [] else [SockShutdown (c_sock c)])"

datatype connect_answer = ConnectOk | ConnectWouldBlock | ConnectFailed

definition Connect ::
  "connect_answer \<Rightarrow> string \<Rightarrow> u16 \<Rightarrow> bool \<Rightarrow> connector \<Rightarrow> (bool \<times> connector \<times> conn_event list) res" where
  "Connect answer ip port handler c =
     (if c_sock c = 0 then Inr (False, c, [])
      else case answer of
        ConnectFailed \<Rightarrow> Inr (False, c, [SockConnect ip port])
      | ConnectWouldBlock \<Rightarrow>
          Inr (True, c\<lparr>c_state := Connecting, c_ip := ip, c_port := port\<rparr>, [SockConnect ip port])
      | ConnectOk \<Rightarrow>
          if \<not> handler then Inl NullDeref
          else Inr (True, c\<lparr>c_state := Connected, c_ip := ip, c_port := port\<rparr>,
                    [SockConnect ip port, OnConnected 0]))"

subsection \<open>The packer\<close>

definition packer_Write ::
  "(u32 \<Rightarrow> u32) \<Rightarrow> connector \<Rightarrow> byte list \<Rightarrow> size_t \<Rightarrow> (int \<times> connector) res" where
  "packer_Write hton c data len =
     (if \<not> c_packer c then Inr (- 1, c)
      else
        bind_res (EncodePacket hton data len (GetInOffsetData (c_send_buffer c))
                    (GetLeftInSize (c_send_buffer c))) (\<lambda>r.
        case r of
          EncodeTooLong \<Rightarrow> Inr (- 1, c)
        | EncodeNoRoom \<Rightarrow> Inr (0, c)
        | Encoded p out_size \<Rightarrow>
            (case DataIn ((c_send_buffer c)\<lparr>buffer := p\<rparr>) out_size of
               (ok, w) \<Rightarrow> Inr (if ok then 1 else - 1, c\<lparr>c_send_buffer := w\<rparr>))))"

definition SendDirectly :: "(byte list \<Rightarrow> int) \<Rightarrow> byte list \<Rightarrow> int \<times> conn_event list" where
  "SendDirectly net_send data = (net_send data, [SockSend data])"

definition packer_Process ::
  "(byte list \<Rightarrow> int) \<Rightarrow> connector \<Rightarrow> (int \<times> connector \<times> conn_event list) res" where
  "packer_Process net_send c =
     (if \<not> c_packer c then Inr (- 1, c, [])
      else
        bind_res (GetCanSendSize (c_send_buffer c)) (\<lambda>sz.
        if sz = 0 then Inr (0, c, [])
        else
          case GetCanSendBuffer (c_send_buffer c) of (p, off) \<Rightarrow>
            bind_res (mem_read p (unat off) (unat sz)) (\<lambda>send_data.
            case SendDirectly net_send send_data of (sent, evs) \<Rightarrow>
              if sent < 0 then Inr (- 1, c, evs) else Inr (1, c, evs))))"

definition Send ::
  "(u32 \<Rightarrow> u32) \<Rightarrow> (byte list \<Rightarrow> int) \<Rightarrow> connector \<Rightarrow> byte list \<Rightarrow> size_t \<Rightarrow>
   (int \<times> connector \<times> conn_event list) res" where
  "Send hton net_send c data len =
     bind_res (packer_Write hton c data len) (\<lambda>(w, c).
       if w \<le> 0 then Inr (- 1, c, [])
       else bind_res (packer_Process net_send c) (\<lambda>(p, c, evs).
         if p < 0 then Inr (- 1, c, evs) else Inr (1, c, evs)))"

subsection \<open>The unpacker\<close>

definition on_received :: "bool \<Rightarrow> (byte list \<Rightarrow> conn_event) option" where
  "on_received handler = (if handler then Some OnReceived else None)"

definition unpacker_Process ::
  "(u32 \<Rightarrow> u32) \<Rightarrow> bool \<Rightarrow> connector \<Rightarrow> size_t \<Rightarrow> (int \<times> connector \<times> conn_event list) res option" where
  "unpacker_Process ntoh handler c bytes_transferred =
     (if bytes_transferred = 0 then Some (Inr (0, c, []))
      else if \<not> c_unpacker c then Some (Inl NullDeref)
      else
        (case handle_read_loop ntoh (on_received handler)
                (snd (DataIn (c_recv_buffer c) bytes_transferred)) [] of
           None \<Rightarrow> None
         | Some (Inl e) \<Rightarrow> Some (Inl e)
         | Some (Inr (r, b, evs)) \<Rightarrow>
             if r < 0 then
               Some (bind_res (Close (c\<lparr>c_recv_buffer := b\<rparr>)) (\<lambda>(c, close). Inr (- 1, c, evs @ close)))
             else
               Some (bind_res
                 (if r = 0 \<and> GetLeftInSize b \<le> HS_NET_PACKET_MAX_SIZE div 8
                  then MoveUnuseData2Begin b else Inr b)
                 (\<lambda>b. Inr (0, c\<lparr>c_recv_buffer := b\<rparr>, evs)))))"

subsection \<open>Tick\<close>

text \<open>What \<open>select\<close>, \<open>recv\<close> and \<open>send\<close> answer during one tick.\<close>

record tick_env =
  select_result :: int
  select_would_block :: bool
  fd_isset :: bool
  net_recv :: "size_t \<Rightarrow> int \<times> byte list"
  net_send :: "byte list \<Rightarrow> int"

definition close_and_report :: "connector \<Rightarrow> int \<Rightarrow> (connector \<times> conn_event list) res" where
  "close_and_report c r =
     bind_res (Close c) (\<lambda>(c, evs). Inr (c, evs @ [OnDisconnected r]))"

definition tick_write ::
  "tick_env \<Rightarrow> int \<Rightarrow> connector \<Rightarrow> conn_event list \<Rightarrow> (int \<times> connector \<times> conn_event list) res" where
  "tick_write env res c evs =
     bind_res (packer_Process (net_send env) c) (\<lambda>(p, c, sent).
       if p < 0 then
         bind_res (close_and_report c res) (\<lambda>(c, closed). Inr (0, c, evs @ sent @ closed))
       else Inr (0, c, evs @ sent))"

definition tick_read ::
  "(u32 \<Rightarrow> u32) \<Rightarrow> tick_env \<Rightarrow> connector \<Rightarrow> (int \<times> connector \<times> conn_event list) res option" where
  "tick_read ntoh env c =
     (case (net_recv env (GetCanUseSize (c_recv_buffer c)), GetCanUseBuffer (c_recv_buffer c)) of
        ((res, bytes), (p, off)) \<Rightarrow>
          let evs = [SockRecv (GetCanUseSize (c_recv_buffer c))] in
          if res < 0 then
            Some (bind_res (close_and_report c res) (\<lambda>(c, closed). Inr (0, c, evs @ closed)))
          else if res > 0 then
            (case mem_write p (unat off) bytes of
               Inl e \<Rightarrow> Some (Inl e)
             | Inr p \<Rightarrow>
                 (case unpacker_Process ntoh True
                         (c\<lparr>c_recv_buffer := (c_recv_buffer c)\<lparr>buffer := p\<rparr>\<rparr>) (of_int res) of
                    None \<Rightarrow> None
                  | Some (Inl e) \<Rightarrow> Some (Inl e)
                  | Some (Inr (r, c, got)) \<Rightarrow>
                      if r < 0 then
                        Some (bind_res (close_and_report c res)
                          (\<lambda>(c, closed). Inr (0, c, evs @ got @ closed)))
                      else Some (tick_write env res c (evs @ got))))
          else Some (tick_write env res c evs))"

definition Tick ::
  "(u32 \<Rightarrow> u32) \<Rightarrow> tick_env \<Rightarrow> bool \<Rightarrow> connector \<Rightarrow> (int \<times> connector \<times> conn_event list) res option" where
  "Tick ntoh env handler c =
     (if c_state c \<noteq> Connecting \<and> c_state c \<noteq> Connected then Some (Inr (0, c, []))
      else if \<not> handler then Some (Inr (- 1, c, []))
      else if c_state c = Connecting then
        (if select_result env < 0 then
           Some (Inr (if select_would_block env then 0 else - 1, c, []))
         else if select_result env > 0 \<and> fd_isset env then
           Some (Inr (1, c\<lparr>c_state := Connected\<rparr>, [OnConnected (select_result env)]))
         else Some (Inr (0, c, [])))
      else
        (if select_result env < 0 then
           Some (bind_res (close_and_report c (select_result env)) (\<lambda>(c, evs). Inr (0, c, evs)))
         else if select_result env > 0 then tick_read ntoh env c
         else Some (tick_write env (select_result env) c [])))"

section \<open>Runs of a connector\<close>

text \<open>What Winsock documents of \<open>recv\<close>: it never returns more bytes than it was asked for.\<close>

definition recv_ok :: "tick_env \<Rightarrow> bool" where
  "recv_ok env \<longleftrightarrow> (\<forall>n. fst (net_recv env n) \<le> int (unat n))"

inductive conn_run ::
  "(u32 \<Rightarrow> u32) \<Rightarrow> (u32 \<Rightarrow> u32) \<Rightarrow> connector \<Rightarrow> conn_event list \<Rightarrow> connector \<Rightarrow> bool"
  for hton ntoh where
  run_refl: "conn_run hton ntoh c [] c"
| run_init: "conn_run hton ntoh c evs c' \<Longrightarrow>
    Init junk wsa_ok new_socket ioctl_ok rlen slen c' = Inr (ok, c'') \<Longrightarrow> conn_run hton ntoh c evs c''"
| run_connect: "conn_run hton ntoh c evs c' \<Longrightarrow>
    Connect answer ip port handler c' = Inr (ok, c'', evs') \<Longrightarrow> conn_run hton ntoh c (evs @ evs') c''"
| run_send: "conn_run hton ntoh c evs c' \<Longrightarrow>
    Send hton snd_bytes c' data len = Inr (r, c'', evs') \<Longrightarrow> conn_run hton ntoh c (evs @ evs') c''"
| run_tick: "conn_run hton ntoh c evs c' \<Longrightarrow> recv_ok env \<Longrightarrow>
    Tick ntoh env handler c' = Some (Inr (r, c'', evs')) \<Longrightarrow> conn_run hton ntoh c (evs @ evs') c''"
| run_disconnect: "conn_run hton ntoh c evs c' \<Longrightarrow> conn_run hton ntoh c (evs @ Disconnect c') c'"
| run_close: "conn_run hton ntoh c evs c' \<Longrightarrow>
    Close c' = Inr (c'', evs') \<Longrightarrow> conn_run hton ntoh c (evs @ evs') c''"

definition nothing_received :: "connector \<Rightarrow> bool" where
  "nothing_received c \<longleftrightarrow> in_offset (c_recv_buffer c) = in_used_offset (c_recv_buffer c)"

fun recv_empty :: "conn_event \<Rightarrow> bool" where
  "recv_empty (SockRecv n) = (n = 0)"
| "recv_empty (OnReceived m) = False"
| "recv_empty _ = True"

lemma SetLength_offsets:
  "SetLength junk b len = Inr b' \<Longrightarrow> in_offset b' = in_offset b"
  "SetLength junk (r :: hs_recv_buffer) len = Inr r' \<Longrightarrow> in_used_offset r' = in_used_offset r"
  by (auto simp: SetLength_def bind_res_Inr_conv split: if_splits)

lemma Init_keeps: "Init junk w so io rlen slen c = Inr (ok, c') \<Longrightarrow> nothing_received c \<Longrightarrow> nothing_received c'"
  by (auto simp: Init_def nothing_received_def bind_res_Inr_conv Let_def SetLength_offsets
      split: if_splits dest: SetLength_offsets)

lemma Connect_keeps:
  "Connect answer ip port handler c = Inr (ok, c', evs) \<Longrightarrow> nothing_received c \<Longrightarrow>
   nothing_received c' \<and> list_all recv_empty evs"
  by (auto simp: Connect_def nothing_received_def split: if_splits connect_answer.splits)

lemma Close_keeps:
  "Close c = Inr (c', evs) \<Longrightarrow> nothing_received c \<Longrightarrow> nothing_received c' \<and> list_all recv_empty evs"
  by (auto simp: Close_def nothing_received_def bind_res_Inr_conv HSRecvBuffer_Clear_def
      HSBuffer_Clear_def split: if_splits cptr.splits)

lemma close_and_report_keeps:
  "close_and_report c r = Inr (c', evs) \<Longrightarrow> nothing_received c \<Longrightarrow>
   nothing_received c' \<and> list_all recv_empty evs"
  by (auto simp: close_and_report_def bind_res_Inr_conv dest: Close_keeps)

lemma packer_Process_keeps:
  "packer_Process snd_bytes c = Inr (r, c', evs) \<Longrightarrow> c' = c \<and> list_all recv_empty evs"
  by (auto simp: packer_Process_def SendDirectly_def bind_res_Inr_conv split: if_splits prod.splits)

lemma packer_Write_keeps:
  "packer_Write hton c data len = Inr (r, c') \<Longrightarrow> nothing_received c \<Longrightarrow> nothing_received c'"
  by (cases "EncodePacket hton data len (GetInOffsetData (c_send_buffer c)) (GetLeftInSize (c_send_buffer c))")
    (auto simp: packer_Write_def nothing_received_def case_prod_beta
      split: if_split_asm encode_result.split_asm)

lemma Send_keeps:
  "Send hton snd_bytes c data len = Inr (r, c', evs) \<Longrightarrow> nothing_received c \<Longrightarrow>
   nothing_received c' \<and> list_all recv_empty evs"
  by (auto simp: Send_def bind_res_Inr_conv split: if_splits
      dest!: packer_Process_keeps packer_Write_keeps)

lemma tick_write_keeps:
  "tick_write env res c evs = Inr (r, c', evs') \<Longrightarrow> nothing_received c \<Longrightarrow> list_all recv_empty evs \<Longrightarrow>
   nothing_received c' \<and> list_all recv_empty evs'"
  by (auto simp: tick_write_def bind_res_Inr_conv split: if_splits
      dest!: packer_Process_keeps close_and_report_keeps)

lemma tick_read_keeps:
  assumes "recv_ok env" "nothing_received c" "tick_read ntoh env c = Some (Inr (r, c', evs))"
  shows "nothing_received c' \<and> list_all recv_empty evs"
proof -
  have sz: "GetCanUseSize (c_recv_buffer c) = 0"
    using assms(2) by (simp add: nothing_received_def GetCanUseSize_def)
  obtain res bytes where r: "net_recv env 0 = (res, bytes)" by (cases "net_recv env 0")
  have "res \<le> 0" using spec [OF assms(1) [unfolded recv_ok_def], of 0] r by simp
  then have "tick_read ntoh env c =
      (if res < 0
       then Some (bind_res (close_and_report c res) (\<lambda>(c, closed). Inr (0, c, [SockRecv 0] @ closed)))
       else Some (tick_write env res c [SockRecv 0]))"
    using r sz by (simp add: tick_read_def GetCanUseBuffer_def)
  then consider c1 closed where "close_and_report c res = Inr (c1, closed)" "c' = c1"
      "evs = [SockRecv 0] @ closed"
    | "tick_write env res c [SockRecv 0] = Inr (r, c', evs)"
    using assms(3)
    by (auto simp: bind_res_Inr_conv eq_commute [of "Inr _" "bind_res _ _"] split: if_splits)
  then show ?thesis
    by cases (use assms(2) close_and_report_keeps tick_write_keeps in fastforce)+
qed

lemma Tick_keeps:
  "Tick ntoh env handler c = Some (Inr (r, c', evs)) \<Longrightarrow> recv_ok env \<Longrightarrow> nothing_received c \<Longrightarrow>
   nothing_received c' \<and> list_all recv_empty evs"
  by (auto simp: Tick_def bind_res_Inr_conv nothing_received_def split: if_splits
      dest!: close_and_report_keeps [unfolded nothing_received_def]
        tick_write_keeps [unfolded nothing_received_def]
        tick_read_keeps [unfolded nothing_received_def, rotated 2])

lemma conn_run_keeps:
  "conn_run hton ntoh c evs c' \<Longrightarrow> nothing_received c \<Longrightarrow> nothing_received c' \<and> list_all recv_empty evs"
proof (induction rule: conn_run.induct)
  case (run_init c evs c' junk w so io rlen slen ok c'')
  then show ?case using Init_keeps by blast
next
  case (run_disconnect c evs c')
  then show ?case by (simp add: Disconnect_def)
qed (auto dest: Connect_keeps Send_keeps Tick_keeps Close_keeps)

section \<open>What the parts of a connector do\<close>

definition wf_connector :: "connector \<Rightarrow> bool" where
  "wf_connector c \<longleftrightarrow>
     wf_recv (c_recv_buffer c) \<and> used_out_reset (c_recv_buffer c) \<and>
     wf_send (c_send_buffer c) \<and> sent_out_reset (c_send_buffer c)"

lemma wf_connector_new [hs_wf]: "wf_connector (HSClientConnector_new junk)"
  using wf_HSRecvBuffer_new [of 1024 junk] wf_HSSendBuffer_new [of 32768 junk]
  by (simp add: wf_connector_def HSClientConnector_new_def)
    (simp add: HSRecvBuffer_new_def HSSendBuffer_new_def hs_buffer.defs hs_recv_buffer.defs
      hs_send_buffer.defs)

lemma Clear_memory:
  assumes "wf_buffer b"
  shows "HSBuffer_Clear b True =
    Inr (b\<lparr>buffer := Null, buf_length := 0, in_offset := 0, out_offset := 0\<rparr>)"
  using assms by (cases "buffer b") (simp_all add: HSBuffer_Clear_def wf_buffer_def)

text \<open>What \<open>Close\<close> leaves: buffers without memory, nothing else changed but the state.\<close>

definition closed_connector :: "connector \<Rightarrow> connector" where
  "closed_connector c =
     c\<lparr>c_send_buffer := (c_send_buffer c)\<lparr>buffer := Null, buf_length := 0, in_offset := 0, out_offset := 0,
          sent_offset := 0, sent_out_reset := True\<rparr>, c_packer := False,
       c_recv_buffer := (c_recv_buffer c)\<lparr>buffer := Null, buf_length := 0, in_offset := 0, out_offset := 0,
          in_used_offset := 0, used_out_reset := True\<rparr>, c_unpacker := False, c_state := NotInitialized\<rparr>"

lemma Close_result:
  assumes "wf_connector c" "c_sock c \<noteq> 0"
  shows "Close c = Inr (closed_connector c, [SockShutdown (c_sock c), SockClose (c_sock c)])"
    and "wf_connector (closed_connector c)"
  using assms Clear_memory [of "c_send_buffer c"] Clear_memory [of "c_recv_buffer c"]
  by (simp_all add: Close_def HSSendBuffer_Clear_def HSRecvBuffer_Clear_def closed_connector_def
      wf_connector_def wf_send_def wf_recv_def wf_buffer_def)

lemma packer_Process_result:
  assumes "wf_connector c" "c_packer c" "unsent (c_send_buffer c) \<noteq> []"
  shows "packer_Process snd_bytes c =
    Inr (if snd_bytes (unsent (c_send_buffer c)) < 0 then - 1 else 1, c, [SockSend (unsent (c_send_buffer c))])"
proof -
  let ?b = "c_send_buffer c"
  have wf: "wf_send ?b" using assms(1) by (simp add: wf_connector_def)
  have len: "length (unsent ?b) < 2 ^ 32"
    using length_unsent [OF wf] unat_lt_2p32 [of "in_offset ?b - sent_offset ?b"] by simp
  have "unat (sent_offset ?b) + length (unsent ?b) = length (filled ?b)"
    using wf by (simp add: wf_send_def length_filled unsent_def word_le_nat_alt)
  then have "mem_read (buffer ?b) (unat (sent_offset ?b)) (length (unsent ?b)) = Inr (unsent ?b)"
    using mem_read_filled [of "unat (sent_offset ?b)" "length (unsent ?b)" ?b]
    by (simp add: unsent_def)
  then show ?thesis
    using len assms(2,3)
    by (simp add: packer_Process_def GetCanSendSize_wf [OF wf] GetCanSendBuffer_def SendDirectly_def
        word_unat_eq_iff unat_of_nat_small del: unat_eq_0)
qed

text \<open>The unpacker after a chunk arrived behind the bytes that wait.\<close>

lemma unpacker_then_loop:
  assumes wf: "wf_connector c" "c_unpacker c" "buf_length (c_recv_buffer c) \<noteq> 0"
    and xs: "xs \<noteq> []" "length xs \<le> unat (GetLeftInSize (c_recv_buffer c))"
    and u: "unframe (frame ntoh) (pending (c_recv_buffer c) @ xs) = (ms, rest, bad)"
  obtains p r b where
    "mem_write (buffer (c_recv_buffer c)) (unat (in_offset (c_recv_buffer c))) xs = Inr p"
    "of_nat (length xs) \<noteq> (0 :: size_t)"
    "handle_read_loop ntoh (on_received handler)
       (snd (DataIn ((c_recv_buffer c)\<lparr>buffer := p\<rparr>) (of_nat (length xs)))) [] =
       Some (Inr (r, b, delivered (on_received handler) ms))"
    "wf_connector (c\<lparr>c_recv_buffer := b\<rparr>)" "buf_length b = buf_length (c_recv_buffer c)"
    "pending b = rest" "r < 0 \<longleftrightarrow> bad" "0 < r \<Longrightarrow> in_offset b = 0" "r = 0 \<Longrightarrow> rest \<noteq> []"
proof -
  have wfr: "wf_recv (c_recv_buffer c)" using wf by (simp add: wf_connector_def)
  obtain p b1 where b1: "mem_write (buffer (c_recv_buffer c)) (unat (in_offset (c_recv_buffer c))) xs = Inr p"
    "DataIn ((c_recv_buffer c)\<lparr>buffer := p\<rparr>) (of_nat (length xs)) = (True, b1)"
    "wf_recv b1" "pending b1 = pending (c_recv_buffer c) @ xs"
    "used_out_reset b1 = used_out_reset (c_recv_buffer c)" "buf_length b1 = buf_length (c_recv_buffer c)"
    by (rule chunk_arrives [OF wfr xs(2)])
  have n0: "of_nat (length xs) \<noteq> (0 :: size_t)"
    using xs le_less_trans [OF xs(2) unat_lt_2p32]
    by (auto simp: word_unat_eq_iff unat_of_nat_small simp del: unat_eq_0)
  have flags: "used_out_reset b1" "buf_length b1 \<noteq> 0"
    using b1(5,6) wf by (simp_all add: wf_connector_def)
  obtain r b where b: "handle_read_loop ntoh (on_received handler) b1 [] =
      Some (Inr (r, b, delivered (on_received handler) ms))"
    "wf_recv b" "used_out_reset b" "buf_length b = buf_length b1" "pending b = rest"
    "r < 0 \<longleftrightarrow> bad" "0 < r \<Longrightarrow> in_offset b = 0" "r = 0 \<Longrightarrow> rest \<noteq> []"
    using handle_read_loop_unframe [OF b1(3) flags, of ntoh ms rest bad "on_received handler" "[]"]
      u b1(4) xs by auto
  show ?thesis
    by (rule that [OF b1(1) n0 _ _ _ b(5-8)])
      (use b1(2,6) b(1-4) wf in \<open>simp_all add: wf_connector_def\<close>)
qed

section \<open>Properties of the client connector\<close>

text \<open>What the unpacker does when it has decoded all packets leaves room for the next bytes.\<close>

lemma unpacker_makes_room:
  assumes "wf_connector (c\<lparr>c_recv_buffer := b\<rparr>)" and "8192 \<le> buf_length b" and "r \<noteq> 0 \<Longrightarrow> in_offset b = 0"
    and "r = 0 \<longrightarrow> pending b \<noteq> []" and "length (pending b) < 8192"
  shows "\<exists>b'. (if r = 0 \<and> GetLeftInSize b \<le> HS_NET_PACKET_MAX_SIZE div 8 then MoveUnuseData2Begin b else Inr b) = Inr b' \<and>
    wf_connector (c\<lparr>c_recv_buffer := b'\<rparr>) \<and> pending b' = pending b \<and> 0 < unat (GetLeftInSize b')"
proof (cases "r = 0 \<and> GetLeftInSize b \<le> HS_NET_PACKET_MAX_SIZE div 8")
  case True
  have wfb: "wf_recv b" "used_out_reset b" using assms(1) by (simp_all add: wf_connector_def)
  have lt: "in_used_offset b < in_offset b"
    using True assms(4) pending_Nil_iff [OF wfb(1)] wfb(1) by (auto simp: wf_recv_def order_le_less)
  obtain b' where m: "MoveUnuseData2Begin b = Inr b'" "wf_recv b'" "pending b' = pending b"
    "buf_length b' = buf_length b" "unat (in_offset b') = length (pending b)"
    using MoveUnuseData2Begin_result [OF wfb(1)] lt by metis
  have "used_out_reset b'"
    using m(1) wfb(2) lt by (auto simp: MoveUnuseData2Begin_def bind_res_Inr_conv Let_def)
  then have "wf_connector (c\<lparr>c_recv_buffer := b'\<rparr>)" using m(2) assms(1) by (simp add: wf_connector_def)
  moreover have "0 < unat (GetLeftInSize b')"
    using m assms(2,5) unat_GetLeftInSize [OF wf_recvD [OF m(2)]] by (simp add: word_le_nat_alt)
  ultimately show ?thesis using m(1,3) True by simp
next
  case False
  have "0 < unat (GetLeftInSize b)"
  proof (cases "r = 0")
    case True
    then show ?thesis using False by (simp add: word_le_nat_alt HS_NET_PACKET_MAX_SIZE_def)
  next
    case False
    then show ?thesis using assms(2,3) by (auto simp: GetLeftInSize_def unat_gt_0)
  qed
  then show ?thesis using assms(1) False by auto
qed

text \<open>C25: the unpacker. Bytes that arrive behind the waiting ones, with no malformed packet among them, are
  delivered as the messages they hold, in order; the start of an unfinished packet waits, and a
  buffer of at least one packet has room for the next read.\<close>

theorem unpacker_delivers:
  assumes "wf_connector c" and "c_unpacker c" and "8192 \<le> buf_length (c_recv_buffer c)"
    and "xs \<noteq> []" and "length xs \<le> unat (GetLeftInSize (c_recv_buffer c))"
    and "unframe (frame ntoh) (pending (c_recv_buffer c) @ xs) = (ms, rest, False)"
  shows "\<exists>p b. mem_write (buffer (c_recv_buffer c)) (unat (in_offset (c_recv_buffer c))) xs = Inr p \<and>
    unpacker_Process ntoh True (c\<lparr>c_recv_buffer := (c_recv_buffer c)\<lparr>buffer := p\<rparr>\<rparr>) (of_nat (length xs)) =
      Some (Inr (0, c\<lparr>c_recv_buffer := b\<rparr>, map OnReceived ms)) \<and>
    wf_connector (c\<lparr>c_recv_buffer := b\<rparr>) \<and> pending b = rest \<and> 0 < unat (GetLeftInSize b)"
proof -
  have "buf_length (c_recv_buffer c) \<noteq> 0" using assms(3) by auto
  from unpacker_then_loop [OF assms(1,2) this assms(4-6), of True] obtain p r b where
    b: "mem_write (buffer (c_recv_buffer c)) (unat (in_offset (c_recv_buffer c))) xs = Inr p"
    "of_nat (length xs) \<noteq> (0 :: size_t)"
    "handle_read_loop ntoh (on_received True)
       (snd (DataIn ((c_recv_buffer c)\<lparr>buffer := p\<rparr>) (of_nat (length xs)))) [] =
       Some (Inr (r, b, delivered (on_received True) ms))"
    "wf_connector (c\<lparr>c_recv_buffer := b\<rparr>)" "buf_length b = buf_length (c_recv_buffer c)"
    "pending b = rest" "\<not> r < 0" "0 < r \<longrightarrow> in_offset b = 0" "r = 0 \<longrightarrow> rest \<noteq> []" by metis
  have dl: "delivered (on_received True) ms = map OnReceived ms"
    by (simp add: delivered_def on_received_def)
  have short: "length rest < 8192" using unframe_rest [OF assms(6)] by (rule frame_WaitD)
  let ?move = "r = 0 \<and> GetLeftInSize b \<le> HS_NET_PACKET_MAX_SIZE div 8"
  have "8192 \<le> buf_length b" using b(5) assms(3) by simp
  moreover have "r \<noteq> 0 \<Longrightarrow> in_offset b = 0" using b(7,8) by simp
  ultimately obtain b' where b': "(if ?move then MoveUnuseData2Begin b else Inr b) = Inr b'"
    "wf_connector (c\<lparr>c_recv_buffer := b'\<rparr>)" "pending b' = rest" "0 < unat (GetLeftInSize b')"
    using unpacker_makes_room [OF b(4), of r] b(6,9) short by blast
  have "unpacker_Process ntoh True (c\<lparr>c_recv_buffer := (c_recv_buffer c)\<lparr>buffer := p\<rparr>\<rparr>) (of_nat (length xs)) =
      Some (Inr (0, c\<lparr>c_recv_buffer := b'\<rparr>, map OnReceived ms))"
    using b(2,3,7) b'(1) assms(2) dl by (simp add: unpacker_Process_def)
  then show ?thesis using b(1) b'(2-4) by blast
qed

text \<open>C28: the connector never receives a byte. \<open>Tick\<close> asks \<open>recv\<close> for the bytes that wait to be used,
  \<open>GetCanUseSize\<close>, instead of the room that is left; nothing ever waits, so in every run of a connector
  each \<open>recv\<close> asks for 0 bytes and no message reaches the handler.\<close>

theorem connector_never_receives:
  assumes "conn_run hton ntoh (HSClientConnector_new junk) evs c"
  shows "(\<forall>m. OnReceived m \<notin> set evs) \<and> (\<forall>n. SockRecv n \<in> set evs \<longrightarrow> n = 0)"
proof -
  have "nothing_received (HSClientConnector_new junk)"
    by (simp add: nothing_received_def HSClientConnector_new_def HSRecvBuffer_new_def HSBuffer_new_def
        hs_buffer.defs hs_recv_buffer.defs)
  then have "list_all recv_empty evs" using conn_run_keeps [OF assms] by blast
  then show ?thesis by (force simp: list_all_iff)
qed

text \<open>A number of ticks in the same environment.\<close>

fun ticks ::
  "(u32 \<Rightarrow> u32) \<Rightarrow> tick_env \<Rightarrow> nat \<Rightarrow> connector \<Rightarrow> (connector \<times> conn_event list) res option" where
  "ticks ntoh env 0 c = Some (Inr (c, []))"
| "ticks ntoh env (Suc n) c =
     (case Tick ntoh env True c of
        None \<Rightarrow> None
      | Some (Inl e) \<Rightarrow> Some (Inl e)
      | Some (Inr (r, c, evs)) \<Rightarrow>
          (case ticks ntoh env n c of
             Some (Inr (c, evs')) \<Rightarrow> Some (Inr (c, evs @ evs'))
           | r \<Rightarrow> r))"

text \<open>What was sent is sent again. \<open>HSSendDataPacker::Process\<close> never tells the buffer what left, so every
  tick of a connected connector sends the same waiting bytes from the start, and its state never
  changes.\<close>

theorem connector_resends:
  assumes "wf_connector c" and "c_packer c" and "c_state c = Connected"
    and "unsent (c_send_buffer c) \<noteq> []" and "select_result env = 0"
    and "0 \<le> net_send env (unsent (c_send_buffer c))"
  shows "ticks ntoh env n c = Some (Inr (c, replicate n (SockSend (unsent (c_send_buffer c)))))"
proof (induction n)
  case (Suc n)
  have "Tick ntoh env True c = Some (Inr (0, c, [SockSend (unsent (c_send_buffer c))]))"
    using assms packer_Process_result [OF assms(1,2,4), of "net_send env"]
    by (simp add: Tick_def tick_write_def)
  then show ?case using Suc by simp
qed simp

text \<open>Closing twice closes the socket twice. \<open>Close\<close> does not reset \<open>sock_\<close>, so a second call, as from
  the destructor or from \<open>Tick\<close> after the unpacker closed, shuts down and closes the same handle again.\<close>

theorem Close_repeats:
  assumes "wf_connector c" and "c_sock c \<noteq> 0"
  shows "\<exists>c1 c2. Close c = Inr (c1, [SockShutdown (c_sock c), SockClose (c_sock c)]) \<and>
    Close c1 = Inr (c2, [SockShutdown (c_sock c), SockClose (c_sock c)])"
  using Close_result [OF assms] Close_result [of "closed_connector c"] assms(2)
  by (auto simp: closed_connector_def)

text \<open>A connector cannot be used again. After \<open>Close\<close> the buffers have length 0 and \<open>SetLength\<close> leaves
  them so; \<open>Init\<close> says true, but every \<open>Send\<close> fails and no byte can be received.\<close>

theorem reinit_is_dead:
  assumes "wf_connector c" and "c_sock c \<noteq> 0" and "so \<noteq> - 1" and "length d < 2 ^ 32 - 8"
  shows "\<exists>c1 evs c2. Close c = Inr (c1, evs) \<and> Init junk True so True rlen slen c1 = Inr (True, c2) \<and>
    c_state c2 = Unconnect \<and> GetLeftInSize (c_recv_buffer c2) = 0 \<and>
    Send hton snd_bytes c2 d (of_nat (length d)) = Inr (- 1, c2, [])"
proof -
  let ?c1 = "closed_connector c"
  let ?c2 = "?c1\<lparr>c_sock := so, c_packer := True, c_unpacker := True, c_state := Unconnect\<rparr>"
  have i: "Init junk True so True rlen slen ?c1 = Inr (True, ?c2)"
    using assms(3) by (simp add: Init_def SetLength_def closed_connector_def)
  have n: "unat (of_nat (length d) :: size_t) = length d" using assms(4) by (simp add: unat_of_nat_small)
  have "Send hton snd_bytes ?c2 d (of_nat (length d)) = Inr (- 1, ?c2, [])"
  proof (cases "length d \<le> 8184")
    case True
    then show ?thesis using n
      by (simp add: Send_def packer_Write_def EncodePacket_no_room closed_connector_def GetLeftInSize_def)
  next
    case False
    then show ?thesis using n assms(4) by (simp add: Send_def packer_Write_def EncodePacket_too_long)
  qed
  then show ?thesis using Close_result(1) [OF assms(1,2)] i
    by (intro exI [of _ ?c1] exI [of _ ?c2] exI conjI) (assumption | simp add: closed_connector_def GetLeftInSize_def)+
qed

section \<open>Witnesses\<close>

definition ex_connector :: "size_t \<Rightarrow> connector" where
  "ex_connector n =
     \<lparr>c_sock = 5, c_ip = [], c_port = 0,
      c_send_buffer = \<lparr>buffer = Block [1, 2, 3, 4], buf_length = 4, in_offset = 3, out_offset = 0,
        sent_offset = 0, sent_out_reset = True\<rparr>, c_packer = True,
      c_recv_buffer = HSRecvBuffer_new (\<lambda>_. 0) n, c_unpacker = True, c_state = Connected\<rparr>"

lemma ex_connector_simps:
  "n \<noteq> 0 \<Longrightarrow> wf_connector (ex_connector n)" "c_packer (ex_connector n)" "c_unpacker (ex_connector n)"
  "c_state (ex_connector n) = Connected" "unsent (c_send_buffer (ex_connector n)) = [1, 2, 3]"
  "c_recv_buffer (ex_connector n) = HSRecvBuffer_new (\<lambda>_. 0) n" "c_sock (ex_connector n) = 5"
  using wf_HSRecvBuffer_new [of n "\<lambda>_. 0"]
  by (simp_all add: ex_connector_def wf_connector_def wf_send_def wf_buffer_def unsent_def filled_def)
    (simp add: HSRecvBuffer_new_def hs_buffer.defs hs_recv_buffer.defs)

definition ex_env :: tick_env where
  "ex_env = \<lparr>select_result = 0, select_would_block = False, fd_isset = True, net_recv = \<lambda>n. (0, []),
     net_send = \<lambda>xs. int (length xs)\<rparr>"

theorem unpacker_delivers_witness:
  "\<exists>p b. mem_write (buffer (c_recv_buffer (ex_connector 8192)))
      (unat (in_offset (c_recv_buffer (ex_connector 8192)))) [1, 2, 3] = Inr p \<and>
    unpacker_Process swap_u32 True ((ex_connector 8192)\<lparr>c_recv_buffer :=
      (c_recv_buffer (ex_connector 8192))\<lparr>buffer := p\<rparr>\<rparr>) (of_nat (length [1, 2, 3 :: byte])) =
      Some (Inr (0, (ex_connector 8192)\<lparr>c_recv_buffer := b\<rparr>, map OnReceived [])) \<and>
    wf_connector ((ex_connector 8192)\<lparr>c_recv_buffer := b\<rparr>) \<and> pending b = [1, 2, 3] \<and>
    0 < unat (GetLeftInSize b)"
  by (rule unpacker_delivers)
    (simp_all add: ex_connector_simps new_abs unframe.simps frame_def,
     simp_all add: HSRecvBuffer_new_def HSBuffer_new_def hs_buffer.defs hs_recv_buffer.defs GetLeftInSize_def)

theorem connector_never_receives_witness:
  "\<exists>evs c. conn_run swap_u32 swap_u32 (HSClientConnector_new (\<lambda>_. 0)) evs c \<and>
     c_state c = Connected \<and> SockRecv 0 \<in> set evs \<and> (\<forall>m. OnReceived m \<notin> set evs)"
proof -
  let ?c0 = "HSClientConnector_new (\<lambda>_. 0)"
  let ?c1 = "?c0\<lparr>c_sock := 5, c_packer := True, c_unpacker := True, c_state := Unconnect\<rparr>"
  let ?c2 = "?c1\<lparr>c_state := Connected, c_ip := ''h'', c_port := 80\<rparr>"
  let ?env = "ex_env\<lparr>select_result := 1\<rparr>"
  have "Init (\<lambda>_. 0) True 5 True 1024 32768 ?c0 = Inr (True, ?c1)"
    by (simp add: HSClientConnector_new_def Init_def SetLength_def HSRecvBuffer_new_def
        HSSendBuffer_new_def HSBuffer_new_def hs_buffer.defs hs_recv_buffer.defs hs_send_buffer.defs)
  note r1 = run_init [OF run_refl this, of swap_u32 swap_u32]
  have "Connect ConnectOk ''h'' 80 True ?c1 = Inr (True, ?c2, [SockConnect ''h'' 80, OnConnected 0])"
    by (simp add: Connect_def)
  note r2 = run_connect [OF r1 this]
  have "recv_ok ?env" by (simp add: recv_ok_def ex_env_def)
  moreover have "Tick swap_u32 ?env True ?c2 = Some (Inr (0, ?c2, [SockRecv 0]))"
    by (simp add: Tick_def tick_read_def tick_write_def packer_Process_def ex_env_def
        HSClientConnector_new_def GetCanUseSize_def GetCanUseBuffer_def GetCanSendSize_def
        HSRecvBuffer_new_def HSSendBuffer_new_def HSBuffer_new_def hs_buffer.defs hs_recv_buffer.defs
        hs_send_buffer.defs)
  ultimately have r3: "conn_run swap_u32 swap_u32 ?c0
      ([] @ [SockConnect ''h'' 80, OnConnected 0] @ [SockRecv 0]) ?c2"
    using run_tick [OF r2] by simp
  from connector_never_receives [OF r3] r3 show ?thesis
    by (intro exI [of _ "[] @ [SockConnect ''h'' 80, OnConnected 0] @ [SockRecv 0]"] exI [of _ ?c2]) simp
qed

theorem connector_resends_witness:
  "ticks swap_u32 ex_env 3 (ex_connector 8) = Some (Inr (ex_connector 8, replicate 3 (SockSend [1, 2, 3])))"
  using connector_resends [of "ex_connector 8" ex_env swap_u32 3] ex_connector_simps(1) [of 8]
  by (simp add: ex_connector_simps ex_env_def)

theorem Close_repeats_witness:
  "\<exists>c1 c2. Close (ex_connector 8) = Inr (c1, [SockShutdown 5, SockClose 5]) \<and>
     Close c1 = Inr (c2, [SockShutdown 5, SockClose 5])"
  using Close_repeats [of "ex_connector 8"] ex_connector_simps(1) [of 8] by (simp add: ex_connector_simps)

theorem reinit_is_dead_witness:
  "\<exists>c1 evs c2. Close (ex_connector 8) = Inr (c1, evs) \<and>
     Init (\<lambda>_. 0) True 6 True 131072 131072 c1 = Inr (True, c2) \<and>
     c_state c2 = Unconnect \<and> GetLeftInSize (c_recv_buffer c2) = 0 \<and>
     Send swap_u32 (\<lambda>_. 1) c2 [9] (of_nat (length [9 :: byte])) = Inr (- 1, c2, [])"
  by (rule reinit_is_dead) (simp_all add: ex_connector_simps)

end
