(* ===== verification/HS_ClientToServer.thy ===== *)
theory HS_ClientToServer
  imports HS_ClientConnector HS_Conversation
begin

text \<open>
  A client connector and a session of the server, joined by a stream: what the handler of the server gets when
  the client sends some messages and then ticks. The socket of the client takes all bytes that it is given.
\<close>

section \<open>Calls of Send\<close>

fun client_sends ::
  "(u32 \<Rightarrow> u32) \<Rightarrow> (byte list \<Rightarrow> int) \<Rightarrow> byte list list \<Rightarrow> connector \<Rightarrow> (connector \<times> conn_event list) res" where
  "client_sends hton snd_bytes [] c = Inr (c, [])"
| "client_sends hton snd_bytes (d # ds) c =
     bind_res (Send hton snd_bytes c d (of_nat (length d))) (\<lambda>(r, c, evs).
     bind_res (client_sends hton snd_bytes ds c) (\<lambda>(c, evs').
     Inr (c, evs @ evs')))"

text \<open>The bytes that a client puts on the wire.\<close>

fun client_wire :: "conn_event list \<Rightarrow> byte list" where
  "client_wire [] = []"
| "client_wire (SockSend xs # evs) = xs @ client_wire evs"
| "client_wire (_ # evs) = client_wire evs"

lemma client_wire_append [simp]: "client_wire (evs @ evs') = client_wire evs @ client_wire evs'"
  by (induction evs rule: client_wire.induct) simp_all

lemma client_wire_replicate: "client_wire (replicate n (SockSend xs)) = concat (replicate n xs)"
  by (induction n) simp_all

definition client_room :: "connector \<Rightarrow> byte list list \<Rightarrow> bool" where
  "client_room c ds \<longleftrightarrow> unat (in_offset (c_send_buffer c)) + room_for ds \<le> unat (buf_length (c_send_buffer c))"

lemma Send_queued:
  assumes wf: "wf_connector c" and packer: "c_packer c" and d: "packet_ok d" and room: "client_room c (d # ds)"
    and net: "\<forall>xs. 0 \<le> snd_bytes xs"
  obtains c' where "Send hton snd_bytes c d (of_nat (length d)) = Inr (1, c', [SockSend (unsent (c_send_buffer c'))])"
    "wf_connector c'" "c_packer c'" "c_state c' = c_state c" "client_room c' ds"
    "unsent (c_send_buffer c') = unsent (c_send_buffer c) @ packet hton d"
proof -
  let ?b = "c_send_buffer c"
  have wfs: "wf_send ?b" and wfb: "wf_buffer ?b" using wf by (auto simp: wf_connector_def wf_sendD)
  have fits: "unat (in_offset ?b) + length (packet hton d) \<le> unat (buf_length ?b)"
    using room by (simp add: client_room_def)
  then have left: "length d + 8 \<le> unat (GetLeftInSize ?b)" using unat_GetLeftInSize [OF wfb] by simp
  have "unat (in_offset ?b) + length d + 8 \<le> length (block_bytes (buffer ?b))"
    using fits wfb by (simp add: wf_buffer_def)
  then obtain q where q: "EncodePacket hton d (of_nat (length d)) (buffer ?b, in_offset ?b)
        (GetLeftInSize ?b) = Inr (Encoded q (of_nat (length (packet hton d))))"
    "length (block_bytes q) = length (block_bytes (buffer ?b))"
    "take (unat (in_offset ?b) + length (packet hton d)) (block_bytes q) =
      take (unat (in_offset ?b)) (block_bytes (buffer ?b)) @ packet hton d" "q \<noteq> Wild"
    using EncodePacket_packet [OF d] left by metis
  have n: "unat (of_nat (length (packet hton d)) :: size_t) = length (packet hton d)"
    using d by (subst unat_of_nat_small) (simp_all add: packet_ok_def)
  note a = append_in_place [OF wfb n fits q(2,4,3)]
  note w = send_append [OF wfs a(3,4,2)]
  let ?c = "c\<lparr>c_send_buffer := ?b\<lparr>buffer := q, in_offset := in_offset ?b + of_nat (length (packet hton d))\<rparr>\<rparr>"
  have "packer_Write hton c d (of_nat (length d)) = Inr (1, ?c)"
    using packer q(1) a(1) by (simp add: packer_Write_def GetInOffsetData_def)
  moreover have wf': "wf_connector ?c" using wf w(1) by (simp add: wf_connector_def)
  moreover have unsent: "unsent (c_send_buffer ?c) = unsent ?b @ packet hton d" using w(2) by simp
  then have "unsent (c_send_buffer ?c) \<noteq> []" by (simp flip: length_greater_0_conv)
  then have "packer_Process snd_bytes ?c = Inr (1, ?c, [SockSend (unsent (c_send_buffer ?c))])"
    using packer_Process_result [OF wf', of snd_bytes] packer spec [OF net, of "unsent (c_send_buffer ?c)"] by simp
  ultimately have "Send hton snd_bytes c d (of_nat (length d)) = Inr (1, ?c, [SockSend (unsent (c_send_buffer ?c))])"
    by (simp add: Send_def)
  moreover have "client_room ?c ds" using room a(2) by (simp add: client_room_def)
  ultimately show ?thesis using that wf' unsent packer by simp
qed

text \<open>Each call sends everything again that is in the buffer.\<close>

lemma client_sends_result:
  "wf_connector c \<Longrightarrow> c_packer c \<Longrightarrow> list_all packet_ok ds \<Longrightarrow> client_room c ds \<Longrightarrow> \<forall>xs. 0 \<le> snd_bytes xs \<Longrightarrow>
   unsent (c_send_buffer c) = concat (map (packet hton) sent) \<Longrightarrow>
   \<exists>c' evs. client_sends hton snd_bytes ds c = Inr (c', evs) \<and> wf_connector c' \<and> c_packer c' \<and> c_state c' = c_state c \<and>
     unsent (c_send_buffer c') = concat (map (packet hton) (sent @ ds)) \<and>
     client_wire evs = concat (map (packet hton) (concat (map (\<lambda>k. sent @ take k ds) [1..<Suc (length ds)])))"
proof (induction ds arbitrary: c sent)
  case Nil
  then show ?case by simp
next
  case (Cons d ds)
  have ok: "packet_ok d" "list_all packet_ok ds" using Cons.prems(3) by simp_all
  obtain c' where c': "Send hton snd_bytes c d (of_nat (length d)) = Inr (1, c', [SockSend (unsent (c_send_buffer c'))])"
    "wf_connector c'" "c_packer c'" "c_state c' = c_state c" "client_room c' ds"
    "unsent (c_send_buffer c') = unsent (c_send_buffer c) @ packet hton d"
    by (rule Send_queued [OF Cons.prems(1,2) ok(1) Cons.prems(4,5)])
  have sent: "unsent (c_send_buffer c') = concat (map (packet hton) (sent @ [d]))" using c'(6) Cons.prems(6) by simp
  obtain c'' evs where rest: "client_sends hton snd_bytes ds c' = Inr (c'', evs)" "wf_connector c''" "c_packer c''"
    "c_state c'' = c_state c'" "unsent (c_send_buffer c'') = concat (map (packet hton) ((sent @ [d]) @ ds))"
    "client_wire evs = concat (map (packet hton) (concat (map (\<lambda>k. (sent @ [d]) @ take k ds) [1..<Suc (length ds)])))"
    using Cons.IH [OF c'(2,3) ok(2) c'(5) Cons.prems(5) sent] by blast
  have "map (\<lambda>k. sent @ take k (d # ds)) [1..<Suc (length (d # ds))] =
      (sent @ [d]) # map (\<lambda>k. (sent @ [d]) @ take k ds) [1..<Suc (length ds)]"
    by (simp add: upt_conv_Cons map_Suc_upt [symmetric] comp_def del: upt_Suc)
  then show ?case using c'(1,4) rest sent by simp
qed

section \<open>What the server gets\<close>

text \<open>C26: a client's messages arrive many times. A connected client sends messages that fit its buffer, then ticks.
  Since nothing ever leaves the buffer, the \<open>k\<close>-th call of \<open>Send\<close> transmits the first \<open>k\<close> messages and each tick
  transmits all: this is what the event handler of the server's session gets, every message whole.\<close>

theorem server_gets_repetitions:
  assumes "net_order hton ntoh" and "wf_connector c" and "c_packer c" and "c_state c = Connected"
    and "unsent (c_send_buffer c) = []" and "client_room c ds" and "\<forall>d\<in>set ds. length d \<le> 8184" and "ds \<noteq> []"
    and "\<forall>xs. net_send env xs = int (length xs)" and "select_result env = 0" and "ready r limit"
  shows "\<exists>c1 evs evs'. client_sends hton (net_send env) ds c = Inr (c1, evs) \<and> ticks ntoh env n c1 = Some (Inr (c1, evs')) \<and>
    (\<forall>ks. length (client_wire (evs @ evs')) \<le> length ks \<longrightarrow>
      (\<exists>limit' r' acts. net_run ntoh limit r (client_wire (evs @ evs')) ks = Some (Inr (limit', r', acts, [])) \<and>
        messages acts = concat (map (\<lambda>k. take k ds) [1..<Suc (length ds)]) @ concat (replicate n ds) \<and>
        CloseSocket \<notin> set acts))"
proof -
  let ?ms = "concat (map (\<lambda>k. take k ds) [1..<Suc (length ds)]) @ concat (replicate n ds)"
  have ok: "list_all packet_ok ds" using assms(7) by (simp add: list_all_iff packet_ok_def)
  have net: "\<forall>xs. 0 \<le> net_send env xs" using assms(9) by simp
  have none: "unsent (c_send_buffer c) = concat (map (packet hton) [])" using assms(5) by simp
  obtain c1 evs where c1: "client_sends hton (net_send env) ds c = Inr (c1, evs)" "wf_connector c1" "c_packer c1"
    "c_state c1 = Connected" "unsent (c_send_buffer c1) = concat (map (packet hton) ds)"
    "client_wire evs = concat (map (packet hton) (concat (map (\<lambda>k. take k ds) [1..<Suc (length ds)])))"
    using client_sends_result [OF assms(2,3) ok assms(6) net none] assms(4) by (auto simp del: upt_Suc)
  let ?evs' = "replicate n (SockSend (concat (map (packet hton) ds)))"
  have "concat (map (packet hton) ds) \<noteq> []" using assms(8) by (cases ds) (auto simp flip: length_greater_0_conv)
  then have ticks: "ticks ntoh env n c1 = Some (Inr (c1, ?evs'))"
    using connector_resends [OF c1(2-4) _ assms(10), of ntoh n] c1(5) net by simp
  have "concat (replicate n (concat (map (packet hton) ds))) = concat (map (packet hton) (concat (replicate n ds)))"
    by (induction n) simp_all
  then have wire: "client_wire (evs @ ?evs') = concat (map (packet hton) ?ms)"
    using c1(6) by (simp add: client_wire_replicate)
  have short: "\<forall>m\<in>set ?ms. length m \<le> 8184" using assms(7) by (auto dest: in_set_takeD)
  obtain h where h: "wf_session r" "event_handler r = Some h" "limit_ok r limit" "pending (recv_buffer r) = []"
    "0 < unat (GetLeftInSize (recv_buffer r))"
    using assms(11) by (auto simp: ready_def)
  have "\<exists>limit' r' acts. net_run ntoh limit r (client_wire (evs @ ?evs')) ks = Some (Inr (limit', r', acts, [])) \<and>
      messages acts = ?ms \<and> CloseSocket \<notin> set acts"
    if "length (client_wire (evs @ ?evs')) \<le> length ks" for ks
    using stream_received [OF assms(1) h short, of ks] that unfolding wire by blast
  then show ?thesis using c1(1) ticks by blast
qed

section \<open>Witness\<close>

definition ex_client :: connector where
  "ex_client = (HSClientConnector_new (\<lambda>_. 0))\<lparr>c_sock := 5, c_packer := True, c_unpacker := True, c_state := Connected\<rparr>"

theorem server_gets_repetitions_witness:
  "\<exists>c1 evs evs'. client_sends swap_u32 (net_send ex_env) [[7], [8]] ex_client = Inr (c1, evs) \<and>
    ticks swap_u32 ex_env 2 c1 = Some (Inr (c1, evs')) \<and>
    (\<forall>ks. length (client_wire (evs @ evs')) \<le> length ks \<longrightarrow>
      (\<exists>limit' r' acts. net_run swap_u32 None (ex_session 32768) (client_wire (evs @ evs')) ks =
          Some (Inr (limit', r', acts, [])) \<and>
        messages acts = [[7], [7], [8]] @ [[7], [8], [7], [8]] \<and> CloseSocket \<notin> set acts))"
proof -
  have c: "wf_connector ex_client" "c_packer ex_client" "c_state ex_client = Connected" "unsent (c_send_buffer ex_client) = []"
    "client_room ex_client [[7], [8]]"
    using wf_connector_new [of "\<lambda>_. 0"]
    by (simp_all add: ex_client_def HSClientConnector_new_def new_abs wf_connector_def)
      (simp add: client_room_def HSSendBuffer_new_def HSBuffer_new_def hs_buffer.defs hs_send_buffer.defs)
  have "\<forall>xs. net_send ex_env xs = int (length xs)" "select_result ex_env = 0" by (simp_all add: ex_env_def)
  from server_gets_repetitions [OF little_endian.net_order_axioms c _ _ this ex_ready, of 2]
  show ?thesis by (simp add: upt_rec numeral_2_eq_2)
qed

end
