(* ===== verification/HS_ServerChannel.thy ===== *)
theory HS_ServerChannel
  imports HS_Prelude
begin

text \<open>
  \<open>hs_server_channel.h\<close> and \<open>hs_server_channel.cpp\<close>: the low-level connector \<open>hs_connector\<close> and the
  channel between servers \<open>hs_server_channel\<close>, both on Winsock and \<open>select\<close>. What Winsock answers is
  an argument of the operation. An \<open>fd_set\<close> is a set of sockets. The byte buffers that the classes own
  are never touched by their code and are left out; \<open>write\<close> and \<open>poll\<close> of \<open>hs_sock_base\<close> and the
  members of \<open>hs_listener\<close> are declared but have no definition in the repository.
\<close>

datatype sock_call = CallStartup | CallCleanup | CallNonBlocking u32 | CallShutdown u32 | CallClose u32
  | CallSend u32 "byte list"

section \<open>The base class\<close>

definition DEFAULT_RECV_BUFF_LEN :: u32 where "DEFAULT_RECV_BUFF_LEN = 4096"

definition DEFAULT_SEND_BUFF_LEN :: u32 where "DEFAULT_SEND_BUFF_LEN = 4096"

record hs_sock_base =
  sb_sock :: u32
  sb_send_buff :: "byte list cptr"
  sb_recv_buff :: "byte list cptr"
  sb_send_buff_len :: u32
  sb_recv_buff_len :: u32

definition hs_sock_base_new :: "u32 \<Rightarrow> u32 \<Rightarrow> hs_sock_base" where
  "hs_sock_base_new send_buff_size recv_buff_size =
     \<lparr>sb_sock = 0, sb_send_buff = Null, sb_recv_buff = Null, sb_send_buff_len = send_buff_size,
      sb_recv_buff_len = recv_buff_size\<rparr>"

definition delete_buff :: "byte list cptr \<Rightarrow> byte list cptr res" where
  "delete_buff p = (case p of Null \<Rightarrow> Inr Null | Wild \<Rightarrow> Inl WildDeref | Block xs \<Rightarrow> Inr Null)"

definition hs_sock_base_delete :: "hs_sock_base \<Rightarrow> hs_sock_base res" where
  "hs_sock_base_delete b =
     bind_res (delete_buff (sb_send_buff b)) (\<lambda>s.
     bind_res (delete_buff (sb_recv_buff b)) (\<lambda>r.
     Inr (b\<lparr>sb_send_buff := s, sb_recv_buff := r, sb_send_buff_len := 0, sb_recv_buff_len := 0\<rparr>)))"

text \<open>A connector is made and destroyed without a fault, and never has buffers.\<close>

lemma hs_sock_base_life: "hs_sock_base_delete (hs_sock_base_new n m) = Inr (hs_sock_base_new 0 0)"
  by (simp add: hs_sock_base_delete_def hs_sock_base_new_def delete_buff_def)

section \<open>The low-level connector\<close>

datatype raw_state = CLOSED | CONNECTING | CONNECTED

record raw_connector =
  rc_sock :: u32
  rc_ip :: string
  rc_port :: u16
  rc_timeout :: "u32 \<times> u32"
  rc_state :: raw_state

definition raw_connector_new :: raw_connector where
  "raw_connector_new =
     \<lparr>rc_sock = 0, rc_ip = [], rc_port = 0, rc_timeout = (0, 0), rc_state = CLOSED\<rparr>"

definition raw_init :: "raw_connector \<Rightarrow> string \<Rightarrow> u16 \<Rightarrow> bool \<times> raw_connector \<times> sock_call list" where
  "raw_init c ip port = (True, c\<lparr>rc_ip := ip, rc_port := port\<rparr>, [CallNonBlocking (rc_sock c)])"

definition raw_close :: "raw_connector \<Rightarrow> raw_connector \<times> sock_call list" where
  "raw_close c = (c\<lparr>rc_state := CLOSED\<rparr>, [CallClose (rc_sock c)])"

definition raw_disconnect :: "raw_connector \<Rightarrow> sock_call list" where
  "raw_disconnect c = [CallShutdown (rc_sock c), CallClose (rc_sock c)]"

text \<open>\<open>res\<close> is what the system call answers, \<open>would_block\<close> whether its error is \<open>WSAEWOULDBLOCK\<close>.\<close>

definition raw_connect ::
  "int \<Rightarrow> bool \<Rightarrow> raw_connector \<Rightarrow> u32 \<Rightarrow> bool \<times> raw_connector \<times> sock_call list" where
  "raw_connect res would_block c ms =
     (if res = 0 then (True, c\<lparr>rc_state := CONNECTED\<rparr>, [])
      else if res = - 1 then
        (if would_block then (True, c\<lparr>rc_state := CONNECTING\<rparr>, []) else (False, raw_close c))
      else (True, c\<lparr>rc_timeout := (ms div 1000, ms - (ms div 1000) * 1000)\<rparr>, []))"

text \<open>\<open>sel\<close> is \<open>select\<close> on the set of sockets watched for writing: its answer, and the set it leaves.\<close>

definition raw_poll :: "(u32 set \<Rightarrow> int \<times> u32 set) \<Rightarrow> raw_connector \<Rightarrow>
   int \<times> raw_connector \<times> sock_call list" where
  "raw_poll sel c =
     (if rc_state c \<noteq> CONNECTING then (0, c, [])
      else
        let wf = {} in
        case sel wf of (res, wf) \<Rightarrow>
          if res < 0 then (- 1, c, [CallClose (rc_sock c)])
          else if res = 0 then (0, c, [])
          else if rc_sock c \<notin> wf then (- 1, c, [CallClose (rc_sock c)])
          else (1, c\<lparr>rc_state := CONNECTED\<rparr>, []))"

section \<open>The channel between servers\<close>

datatype channel_state = Idle | Connecting | Connected | Accepting | Accepted | Closed

record srv_channel =
  sc_sock :: u32
  sc_ip :: string
  sc_port :: u16
  sc_state :: channel_state

definition srv_channel_new :: srv_channel where
  "srv_channel_new = \<lparr>sc_sock = 0, sc_ip = [], sc_port = 0, sc_state = Idle\<rparr>"

definition sc_init ::
  "srv_channel \<Rightarrow> string \<Rightarrow> u16 \<Rightarrow> u32 \<Rightarrow> srv_channel \<times> sock_call list" where
  "sc_init c ip port new_sock =
     (let c = c\<lparr>sc_ip := ip, sc_port := port, sc_sock := new_sock\<rparr> in
      if sc_sock c = - 1 then (c, [CallStartup]) else (c, [CallStartup, CallNonBlocking (sc_sock c)]))"

definition sc_close :: "srv_channel \<Rightarrow> srv_channel \<times> sock_call list" where
  "sc_close c =
     (if sc_state c = Idle \<or> sc_state c = Closed then (c, [])
      else (c\<lparr>sc_state := Closed\<rparr>, [CallCleanup, CallClose (sc_sock c)]))"

definition sc_connect :: "int \<Rightarrow> srv_channel \<Rightarrow> bool \<times> srv_channel" where
  "sc_connect res c = (if res < 0 then (True, c\<lparr>sc_state := Connecting\<rparr>) else (True, c))"

definition sc_accept :: "srv_channel \<Rightarrow> bool \<times> srv_channel" where
  "sc_accept c =
     (if sc_state c \<noteq> Idle \<or> sc_state c \<noteq> Closed then (False, c)
      else (True, c\<lparr>sc_state := Accepting\<rparr>))"

definition sc_disconnect :: "srv_channel \<Rightarrow> srv_channel" where
  "sc_disconnect c = c"

text \<open>\<open>send\<close> hands the bytes to the socket, whatever its state, and always says true.\<close>

definition sc_send :: "srv_channel \<Rightarrow> byte list \<Rightarrow> bool \<times> sock_call list" where
  "sc_send c data = (True, [CallSend (sc_sock c) data])"

definition handle_nothing :: "srv_channel \<Rightarrow> int \<times> srv_channel" where
  "handle_nothing c = (0, c)"

definition sc_poll :: "int \<Rightarrow> srv_channel \<Rightarrow> bool \<times> srv_channel" where
  "sc_poll res c =
     (if sc_state c = Idle \<or> sc_state c = Closed then (True, c)
      else
        case (if res = 0 then handle_nothing c
              else if res > 0 then handle_nothing c
              else (res, c)) of
          (res, c) \<Rightarrow> (True, c))"

definition sc_get_error :: "int \<Rightarrow> srv_channel \<Rightarrow> int" where
  "sc_get_error last_error c = (if sc_state c \<noteq> Closed then 0 else last_error)"

definition sc_get_error_string :: "srv_channel \<Rightarrow> string" where
  "sc_get_error_string c = []"

subsection \<open>Runs\<close>

inductive sc_step :: "srv_channel \<Rightarrow> srv_channel \<Rightarrow> bool" where
  step_init: "sc_step c (fst (sc_init c ip port new_sock))"
| step_close: "sc_step c (fst (sc_close c))"
| step_connect: "sc_step c (snd (sc_connect res c))"
| step_disconnect: "sc_step c (sc_disconnect c)"
| step_accept: "sc_step c (snd (sc_accept c))"
| step_poll: "sc_step c (snd (sc_poll res c))"

inductive_cases sc_stepE: "sc_step c c'"

lemma sc_accept_result: "sc_accept c = (False, c)"
  by (cases "sc_state c") (simp_all add: sc_accept_def)

lemma sc_poll_keeps: "sc_poll res c = (True, c)"
  by (simp add: sc_poll_def handle_nothing_def)

lemma sc_step_states:
  "sc_step c c' \<Longrightarrow> sc_state c \<in> {Idle, Connecting, Closed} \<Longrightarrow> sc_state c' \<in> {Idle, Connecting, Closed}"
  by (erule sc_stepE)
    (auto simp: sc_init_def Let_def sc_close_def sc_connect_def sc_disconnect_def sc_accept_result sc_poll_keeps)

inductive raw_step :: "(u32 set \<Rightarrow> int \<times> u32 set) \<Rightarrow> raw_connector \<Rightarrow> raw_connector \<Rightarrow> bool" for sel where
  raw_step_poll: "raw_step sel c (fst (snd (raw_poll sel c)))"

section \<open>Properties\<close>

text \<open>A channel between servers never gets anywhere. The condition of \<open>accept\<close> is always true, so no
  channel ever listens, and \<open>poll\<close> handles no event, so no channel is ever connected: in every run the
  state is \<open>Idle\<close>, \<open>Connecting\<close> or \<open>Closed\<close>, \<open>accept\<close> says false and \<open>poll\<close> changes nothing.\<close>

theorem server_channel_never_connected:
  assumes "sc_step\<^sup>*\<^sup>* srv_channel_new c"
  shows "sc_state c \<in> {Idle, Connecting, Closed} \<and> sc_accept c = (False, c) \<and> sc_poll res c = (True, c)"
proof -
  have "sc_state c \<in> {Idle, Connecting, Closed}"
    using assms
    by (induction rule: rtranclp_induct) (simp add: srv_channel_new_def, rule sc_step_states)
  then show ?thesis by (simp add: sc_accept_result sc_poll_keeps)
qed

text \<open>The low-level connector never notices that it is connected. \<open>poll\<close> asks \<open>select\<close> about an empty
  set of sockets; since \<open>select\<close> only takes sockets away, the connector's own is never in the result,
  so a connector that is connecting stays so, however often it is polled.\<close>

theorem pending_connect_never_completes:
  assumes "\<And>s. snd (sel s) \<subseteq> s" and "rc_state c = CONNECTING" and "(raw_step sel)\<^sup>*\<^sup>* c c'"
  shows "c' = c \<and> fst (raw_poll sel c') \<noteq> 1"
proof -
  have p: "raw_poll sel c =
      (if fst (sel {}) = 0 then (0, c, []) else (- 1, c, [CallClose (rc_sock c)]))"
    using assms(1) [of "{}"] assms(2) by (auto simp: raw_poll_def split: prod.split)
  have "c' = c"
    using assms(3) p by (induction rule: rtranclp_induct) (auto elim!: raw_step.cases split: if_splits)
  then show ?thesis using p by (simp split: if_splits)
qed

section \<open>Witnesses\<close>

theorem server_channel_never_connected_witness:
  "sc_step\<^sup>*\<^sup>* srv_channel_new (snd (sc_connect (- 1) srv_channel_new)) \<and>
   sc_accept (snd (sc_connect (- 1) srv_channel_new)) = (False, snd (sc_connect (- 1) srv_channel_new)) \<and>
   sc_state (snd (sc_connect (- 1) srv_channel_new)) = Connecting"
proof -
  have r: "sc_step\<^sup>*\<^sup>* srv_channel_new (snd (sc_connect (- 1) srv_channel_new))"
    by (rule r_into_rtranclp) (rule step_connect)
  from server_channel_never_connected [OF r, of 0] r show ?thesis by (simp add: sc_connect_def)
qed

theorem pending_connect_never_completes_witness:
  "fst (raw_poll (\<lambda>s. (int (card s), s)) (raw_connector_new\<lparr>rc_sock := 5, rc_state := CONNECTING\<rparr>)) \<noteq> 1"
  using pending_connect_never_completes [of "\<lambda>s. (int (card s), s)"
      "raw_connector_new\<lparr>rc_sock := 5, rc_state := CONNECTING\<rparr>"
      "raw_connector_new\<lparr>rc_sock := 5, rc_state := CONNECTING\<rparr>"]
  by simp

end
