(* ===== verification/HS_List.thy ===== *)
theory HS_List
  imports HS_Prelude
begin

text \<open>
  \<open>hs_list.hpp\<close>: the singly linked list \<open>HSList\<close> with recycling of nodes. The heap is the list of all
  nodes ever allocated (the class frees none); a pointer is an index into it or \<open>None\<close>. The two counters
  are natural numbers: a counter of nodes cannot reach the size of the address space.

  The locale \<open>head_queue\<close> states what a client of the class can rely on, and proves what a client that
  serves the head until the list is empty does. \<open>HSList\<close> is shown to be an instance.
\<close>

section \<open>The code\<close>

record 'a list_node =
  node_value :: 'a
  next_node :: "nat option"

record 'a hs_list =
  nodes :: "'a list_node list"
  head_ptr :: "nat option"
  tail_ptr :: "nat option"
  recycled_tail :: "nat option"
  useable_count :: nat
  total_count :: nat

definition HSList_new :: "'a hs_list" where
  "HSList_new = \<lparr>nodes = [], head_ptr = None, tail_ptr = None, recycled_tail = None,
     useable_count = 0, total_count = 0\<rparr>"

definition GetCount :: "'a hs_list \<Rightarrow> nat" where
  "GetCount l = useable_count l"

definition deref :: "'a hs_list \<Rightarrow> nat option \<Rightarrow> 'a list_node res" where
  "deref l p =
     (case p of
        None \<Rightarrow> Inl NullDeref
      | Some i \<Rightarrow> if i < length (nodes l) then Inr (nodes l ! i) else Inl OutOfBounds)"

definition set_next :: "'a hs_list \<Rightarrow> nat option \<Rightarrow> nat option \<Rightarrow> 'a hs_list res" where
  "set_next l p q =
     bind_res (deref l p) (\<lambda>n. Inr (l\<lparr>nodes := (nodes l)[the p := n\<lparr>next_node := q\<rparr>]\<rparr>))"

definition set_value :: "'a hs_list \<Rightarrow> nat option \<Rightarrow> 'a \<Rightarrow> 'a hs_list res" where
  "set_value l p v =
     bind_res (deref l p) (\<lambda>n. Inr (l\<lparr>nodes := (nodes l)[the p := n\<lparr>node_value := v\<rparr>]\<rparr>))"

definition GetHeadValue :: "'a hs_list \<Rightarrow> 'a option res" where
  "GetHeadValue l =
     (if head_ptr l = None then Inr None
      else bind_res (deref l (head_ptr l)) (\<lambda>n. Inr (Some (node_value n))))"

definition GetTailNextValue :: "'a hs_list \<Rightarrow> nat option res" where
  "GetTailNextValue l =
     (if tail_ptr l = None then Inr None
      else bind_res (deref l (tail_ptr l)) (\<lambda>n. Inr (next_node n)))"

definition PushValue :: "'a hs_list \<Rightarrow> 'a \<Rightarrow> 'a hs_list res" where
  "PushValue l v =
     bind_res (GetTailNextValue l) (\<lambda>p.
     bind_res
       (if p = None then
          let node = Some (length (nodes l));
              l = l\<lparr>nodes := nodes l @ [\<lparr>node_value = v, next_node = None\<rparr>]\<rparr> in
          bind_res (if useable_count l = 0 then Inr (l\<lparr>head_ptr := node\<rparr>)
                    else set_next l (tail_ptr l) node) (\<lambda>l.
          Inr (l\<lparr>tail_ptr := node, total_count := total_count l + 1\<rparr>))
        else set_value l p v) (\<lambda>l.
     Inr (l\<lparr>useable_count := useable_count l + 1\<rparr>)))"

definition MoveHead2Tail :: "'a hs_list \<Rightarrow> 'a hs_list res" where
  "MoveHead2Tail l =
     (if useable_count l = 0 then Inr l
      else
        bind_res (deref l (head_ptr l)) (\<lambda>_.
        bind_res (set_next l (head_ptr l) None) (\<lambda>l.
        bind_res (if recycled_tail l = None then Inr (l\<lparr>recycled_tail := head_ptr l\<rparr>)
                  else set_next l (recycled_tail l) (head_ptr l)) (\<lambda>l.
        let l = l\<lparr>useable_count := useable_count l - 1\<rparr> in
        Inr (if useable_count l = 0 then l\<lparr>head_ptr := None\<rparr> else l)))))"

definition RemoveHead :: "'a hs_list \<Rightarrow> (bool \<times> 'a hs_list) res" where
  "RemoveHead l =
     (if useable_count l = 0 then Inr (False, l)
      else bind_res (MoveHead2Tail l) (\<lambda>l. Inr (True, l)))"

section \<open>What the list keeps\<close>

text \<open>
  The tail is the newest node and has no successor; a list in use has its head in the heap. A head
  that is also the tail belongs to a list of one element; the recycled node is older than the tail
  whenever the list is in use.
\<close>

definition list_inv :: "'a hs_list \<Rightarrow> bool" where
  "list_inv l \<longleftrightarrow>
     (tail_ptr l = (if nodes l = [] then None else Some (length (nodes l) - 1))) \<and>
     (nodes l \<noteq> [] \<longrightarrow> next_node (last (nodes l)) = None) \<and>
     total_count l = length (nodes l) \<and>
     (useable_count l = 0 \<longleftrightarrow> head_ptr l = None) \<and>
     (\<forall>h. head_ptr l = Some h \<longrightarrow>
        h < length (nodes l) \<and> useable_count l \<le> length (nodes l) - h) \<and>
     (\<forall>r. recycled_tail l = Some r \<longrightarrow>
        r < length (nodes l) \<and> (useable_count l \<noteq> 0 \<longrightarrow> r < length (nodes l) - 1))"

definition head_value :: "'a hs_list \<Rightarrow> 'a option" where
  "head_value l = map_option (\<lambda>i. node_value (nodes l ! i)) (head_ptr l)"

lemma deref_ok: "i < length (nodes l) \<Longrightarrow> deref l (Some i) = Inr (nodes l ! i)"
  by (simp add: deref_def)

lemma set_next_ok:
  "i < length (nodes l) \<Longrightarrow>
   set_next l (Some i) q = Inr (l\<lparr>nodes := (nodes l)[i := (nodes l ! i)\<lparr>next_node := q\<rparr>]\<rparr>)"
  by (simp add: set_next_def deref_ok)

lemma GetHeadValue_inv: "list_inv l \<Longrightarrow> GetHeadValue l = Inr (head_value l)"
  by (auto simp: GetHeadValue_def head_value_def list_inv_def deref_ok)

lemma value_list_update [simp]:
  "node_value ((ns[i := (ns ! i)\<lparr>next_node := q\<rparr>]) ! j) = node_value (ns ! j)"
  by (cases "i < length ns"; cases "i = j") (simp_all add: nth_list_update list_update_beyond)

lemma PushValue_inv:
  assumes "list_inv l"
  obtains l' where "PushValue l v = Inr l'" "list_inv l'" "useable_count l' = useable_count l + 1"
    "head_value l' = (if useable_count l = 0 then Some v else head_value l)"
    "length (nodes l') = length (nodes l) + 1"
proof -
  let ?n = "length (nodes l)"
  let ?ns = "nodes l @ [\<lparr>node_value = v, next_node = None\<rparr>]"
  have none: "GetTailNextValue l = Inr None"
    using assms by (auto simp: GetTailNextValue_def list_inv_def deref_ok last_conv_nth)
  show ?thesis
  proof (cases "useable_count l = 0")
    case True
    let ?l = "l\<lparr>nodes := ?ns, head_ptr := Some ?n, tail_ptr := Some ?n, total_count := total_count l + 1,
      useable_count := useable_count l + 1\<rparr>"
    have "PushValue l v = Inr ?l" using none True by (simp add: PushValue_def Let_def)
    moreover have "list_inv ?l" using assms True by (fastforce simp: list_inv_def)
    ultimately show ?thesis using that [of ?l] True by (simp add: head_value_def)
  next
    case False
    then obtain h where h: "head_ptr l = Some h" "h < ?n" "useable_count l \<le> ?n - h"
      using assms by (auto simp: list_inv_def)
    then have t: "tail_ptr l = Some (?n - 1)" "?n - 1 < ?n" "nodes l \<noteq> []"
      using assms by (auto simp: list_inv_def)
    let ?ns' = "?ns[?n - 1 := (?ns ! (?n - 1))\<lparr>next_node := Some ?n\<rparr>]"
    let ?l = "l\<lparr>nodes := ?ns', tail_ptr := Some ?n, total_count := total_count l + 1,
      useable_count := useable_count l + 1\<rparr>"
    have "PushValue l v = Inr ?l"
      using none False t by (simp add: PushValue_def Let_def set_next_ok)
    moreover have "list_inv ?l"
      using assms False h t by (auto simp: list_inv_def last_conv_nth nth_list_update nth_append)
    moreover have "head_value ?l = head_value l"
      using h by (simp add: head_value_def nth_append nth_list_update)
    ultimately show ?thesis using that [of ?l] False by simp
  qed
qed

lemma RemoveHead_inv:
  assumes "list_inv l" "useable_count l \<noteq> 0"
  obtains l' where "RemoveHead l = Inr (True, l')" "list_inv l'"
    "useable_count l' = useable_count l - 1"
    "head_value l' = (if useable_count l = 1 then None else head_value l)"
    "length (nodes l') = length (nodes l)"
proof -
  let ?n = "length (nodes l)"
  obtain h where h: "head_ptr l = Some h" "h < ?n" "useable_count l \<le> ?n - h"
    using assms by (auto simp: list_inv_def)
  let ?ns = "(nodes l)[h := (nodes l ! h)\<lparr>next_node := None\<rparr>]"
  have last: "next_node (last (nodes l)) = None" using assms(1) h(2) by (auto simp: list_inv_def)
  obtain ns r where ns: "MoveHead2Tail l = Inr (let l = l\<lparr>nodes := ns, recycled_tail := Some r,
      useable_count := useable_count l - 1\<rparr> in if useable_count l = 0 then l\<lparr>head_ptr := None\<rparr> else l)"
    "length ns = ?n" "\<And>j. node_value (ns ! j) = node_value (nodes l ! j)" "r < ?n"
    "useable_count l \<noteq> 1 \<Longrightarrow> r < ?n - 1" "next_node (last ns) = None"
  proof (cases "recycled_tail l")
    case None
    have "MoveHead2Tail l = Inr (let l = l\<lparr>nodes := ?ns, recycled_tail := Some h,
        useable_count := useable_count l - 1\<rparr> in if useable_count l = 0 then l\<lparr>head_ptr := None\<rparr> else l)"
      using assms h None by (simp add: MoveHead2Tail_def deref_ok set_next_ok Let_def)
    moreover have "next_node (last ?ns) = None"
      using last h(2) by (cases "nodes l = []") (auto simp: last_conv_nth nth_list_update)
    ultimately show ?thesis
      using h assms(2) by (intro that [where ns = ?ns and r = h]) auto
  next
    case (Some r)
    then have r: "r < ?n - 1" "r < ?n" using assms by (auto simp: list_inv_def)
    let ?ns' = "?ns[r := (?ns ! r)\<lparr>next_node := Some h\<rparr>]"
    have ne: "nodes l \<noteq> []" using h(2) by auto
    have "MoveHead2Tail l = Inr (let l = l\<lparr>nodes := ?ns', recycled_tail := Some r,
        useable_count := useable_count l - 1\<rparr> in if useable_count l = 0 then l\<lparr>head_ptr := None\<rparr> else l)"
      using assms h Some r by (simp add: MoveHead2Tail_def deref_ok set_next_ok Let_def)
    moreover have "next_node (last ?ns') = None"
      using last h(2) r ne by (cases "h = r") (simp_all add: last_conv_nth nth_list_update)
    ultimately show ?thesis
      using r by (intro that [where ns = ?ns' and r = r]) auto
  qed
  let ?l = "let l = l\<lparr>nodes := ns, recycled_tail := Some r,
      useable_count := useable_count l - 1\<rparr> in if useable_count l = 0 then l\<lparr>head_ptr := None\<rparr> else l"
  have "RemoveHead l = Inr (True, ?l)" using ns(1) assms(2) by (simp add: RemoveHead_def)
  moreover have "list_inv ?l"
    using assms h ns(2,4-6) by (auto simp: list_inv_def Let_def)
  moreover have "head_value ?l = (if useable_count l = 1 then None else head_value l)"
    using assms(2) h ns(3) by (auto simp: head_value_def Let_def)
  ultimately show ?thesis using that [of ?l] ns(2) by (simp add: Let_def)
qed

section \<open>The contract of the list, and what its clients get\<close>

text \<open>Serving: a client that looks at the head and removes it, a given number of times.\<close>

fun serve ::
  "('q \<Rightarrow> 'v option res) \<Rightarrow> ('q \<Rightarrow> (bool \<times> 'q) res) \<Rightarrow> nat \<Rightarrow> 'q \<Rightarrow> ('v option list \<times> 'q) res" where
  "serve get_head remove 0 q = Inr ([], q)"
| "serve get_head remove (Suc n) q =
     bind_res (get_head q) (\<lambda>v.
     bind_res (remove q) (\<lambda>(_, q).
     bind_res (serve get_head remove n q) (\<lambda>(vs, q). Inr (v # vs, q))))"

fun push_all :: "('q \<Rightarrow> 'v \<Rightarrow> 'q res) \<Rightarrow> 'q \<Rightarrow> 'v list \<Rightarrow> 'q res" where
  "push_all push q [] = Inr q"
| "push_all push q (v # vs) = bind_res (push q v) (\<lambda>q. push_all push q vs)"

locale head_queue =
  fixes inv :: "'q \<Rightarrow> bool" and size_of :: "'q \<Rightarrow> nat" and front :: "'q \<Rightarrow> 'v option"
    and get_head :: "'q \<Rightarrow> 'v option res"
    and push :: "'q \<Rightarrow> 'v \<Rightarrow> 'q res"
    and remove :: "'q \<Rightarrow> (bool \<times> 'q) res"
  assumes get_head_ok: "inv q \<Longrightarrow> get_head q = Inr (front q)"
    and front_None: "inv q \<Longrightarrow> front q = None \<longleftrightarrow> size_of q = 0"
    and push_ok: "inv q \<Longrightarrow> \<exists>q'. push q v = Inr q' \<and> inv q' \<and> size_of q' = size_of q + 1 \<and>
      front q' = (if size_of q = 0 then Some v else front q)"
    and remove_ok: "inv q \<Longrightarrow> size_of q \<noteq> 0 \<Longrightarrow> \<exists>q'. remove q = Inr (True, q') \<and> inv q' \<and>
      size_of q' = size_of q - 1 \<and> front q' = (if size_of q = 1 then None else front q)"
begin

lemma push_all_result:
  "inv q \<Longrightarrow> \<exists>q'. push_all push q vs = Inr q' \<and> inv q' \<and> size_of q' = size_of q + length vs \<and>
    (vs \<noteq> [] \<longrightarrow> front q' = (if size_of q = 0 then Some (hd vs) else front q))"
proof (induction vs arbitrary: q)
  case (Cons v vs)
  obtain q1 where q1: "push q v = Inr q1" "inv q1" "size_of q1 = size_of q + 1"
    "front q1 = (if size_of q = 0 then Some v else front q)" using push_ok [OF Cons.prems] by blast
  obtain q2 where "push_all push q1 vs = Inr q2" "inv q2" "size_of q2 = size_of q1 + length vs"
    "vs \<noteq> [] \<longrightarrow> front q2 = (if size_of q1 = 0 then Some (hd vs) else front q1)"
    using Cons.IH [OF q1(2)] by blast
  then show ?case using q1 by (cases "vs = []") auto
qed simp

text \<open>The front never moves while the queue is in use: every round serves the same element.\<close>

lemma serve_result:
  "inv q \<Longrightarrow> n \<le> size_of q \<Longrightarrow> \<exists>q'. serve get_head remove n q = Inr (replicate n (front q), q') \<and>
    inv q' \<and> size_of q' = size_of q - n"
proof (induction n arbitrary: q)
  case (Suc n)
  then have ne: "size_of q \<noteq> 0" by simp
  obtain q1 where q1: "remove q = Inr (True, q1)" "inv q1" "size_of q1 = size_of q - 1"
    "front q1 = (if size_of q = 1 then None else front q)" using remove_ok [OF Suc.prems(1) ne] by blast
  have "n \<le> size_of q1" using Suc.prems(2) q1(3) by simp
  then obtain q2 where q2: "serve get_head remove n q1 = Inr (replicate n (front q1), q2)" "inv q2"
    "size_of q2 = size_of q1 - n"
    using Suc.IH [OF q1(2)] by blast
  have "replicate n (front q1) = replicate n (front q)"
    using q1(4) Suc.prems(2) by (cases "size_of q = 1") auto
  then show ?case using q1 q2 get_head_ok [OF Suc.prems(1)] by simp
qed simp

lemma push_then_serve:
  assumes "inv q" "size_of q = 0"
  shows "\<exists>q1 q2. push_all push q (v # vs) = Inr q1 \<and> size_of q1 = Suc (length vs) \<and>
    serve get_head remove (Suc (length vs)) q1 = Inr (replicate (Suc (length vs)) (Some v), q2) \<and>
    inv q2 \<and> size_of q2 = 0"
proof -
  obtain q1 where q1: "push_all push q (v # vs) = Inr q1" "inv q1" "size_of q1 = Suc (length vs)"
    "front q1 = Some v" using push_all_result [OF assms(1), of "v # vs"] assms(2) by auto
  from serve_result [OF q1(2), of "Suc (length vs)"] q1 show ?thesis by auto
qed

end

interpretation hs_queue: head_queue list_inv useable_count head_value GetHeadValue PushValue RemoveHead
proof unfold_locales
  fix q :: "'a hs_list" and v
  assume inv: "list_inv q"
  show "GetHeadValue q = Inr (head_value q)" by (rule GetHeadValue_inv [OF inv])
  show "head_value q = None \<longleftrightarrow> useable_count q = 0"
    using inv by (auto simp: head_value_def list_inv_def)
  show "\<exists>q'. PushValue q v = Inr q' \<and> list_inv q' \<and> useable_count q' = useable_count q + 1 \<and>
      head_value q' = (if useable_count q = 0 then Some v else head_value q)"
    by (rule PushValue_inv [OF inv, of v]) blast
  show "useable_count q \<noteq> 0 \<Longrightarrow> \<exists>q'. RemoveHead q = Inr (True, q') \<and> list_inv q' \<and>
      useable_count q' = useable_count q - 1 \<and>
      head_value q' = (if useable_count q = 1 then None else head_value q)"
    by (erule RemoveHead_inv [OF inv]) blast
qed

lemma list_inv_new: "list_inv HSList_new"
  by (simp add: list_inv_def HSList_new_def)

section \<open>Properties\<close>

text \<open>Any sequence of pushes and removals.\<close>

datatype 'a list_op = Push 'a | Remove

fun list_run :: "'a hs_list \<Rightarrow> 'a list_op list \<Rightarrow> 'a hs_list res" where
  "list_run l [] = Inr l"
| "list_run l (Push v # ops) = bind_res (PushValue l v) (\<lambda>l. list_run l ops)"
| "list_run l (Remove # ops) = bind_res (RemoveHead l) (\<lambda>(_, l). list_run l ops)"

fun count_after :: "nat \<Rightarrow> 'a list_op list \<Rightarrow> nat" where
  "count_after n [] = n"
| "count_after n (Push _ # ops) = count_after (n + 1) ops"
| "count_after n (Remove # ops) = count_after (n - 1) ops"

fun pushes :: "'a list_op list \<Rightarrow> nat" where
  "pushes [] = 0"
| "pushes (Push _ # ops) = pushes ops + 1"
| "pushes (Remove # ops) = pushes ops"

lemma list_run_result:
  "list_inv l \<Longrightarrow> \<exists>l'. list_run l ops = Inr l' \<and> list_inv l' \<and>
    GetCount l' = count_after (GetCount l) ops \<and> length (nodes l') = length (nodes l) + pushes ops"
proof (induction ops arbitrary: l)
  case (Cons x ops)
  show ?case
  proof (cases x)
    case (Push v)
    obtain l1 where l1: "PushValue l v = Inr l1" "list_inv l1" "useable_count l1 = useable_count l + 1"
      "length (nodes l1) = length (nodes l) + 1" by (rule PushValue_inv [OF Cons.prems])
    then show ?thesis using Cons.IH [OF l1(2)] Push by (auto simp: GetCount_def)
  next
    case Remove
    show ?thesis
    proof (cases "useable_count l = 0")
      case True
      then show ?thesis using Cons.IH [OF Cons.prems] Remove by (simp add: RemoveHead_def GetCount_def)
    next
      case False
      obtain l1 where l1: "RemoveHead l = Inr (True, l1)" "list_inv l1"
        "useable_count l1 = useable_count l - 1" "length (nodes l1) = length (nodes l)"
        by (rule RemoveHead_inv [OF Cons.prems False])
      then show ?thesis using Cons.IH [OF l1(2)] Remove by (auto simp: GetCount_def)
    qed
  qed
qed simp

text \<open>C32: the list never faults and counts right, but never recycles a node. For every sequence of pushes and
  removals the count is the number of elements put in and not taken out; each push takes a new node
  from the heap, however many were removed.\<close>

theorem list_counts_and_leaks:
  "\<exists>l. list_run HSList_new ops = Inr l \<and> GetCount l = count_after 0 ops \<and>
     total_count l = pushes ops \<and> length (nodes l) = pushes ops"
  using list_run_result [OF list_inv_new, of ops]
  by (fastforce simp: HSList_new_def GetCount_def list_inv_def)

text \<open>Removing the head does not advance it. A client that pushes some values and then takes the head
  until the list is empty gets the first value every time and never sees the others.\<close>

theorem list_serves_only_the_first:
  "\<exists>l1 l2. push_all PushValue HSList_new (v # vs) = Inr l1 \<and> GetCount l1 = Suc (length vs) \<and>
     serve GetHeadValue RemoveHead (GetCount l1) l1 = Inr (replicate (Suc (length vs)) (Some v), l2) \<and>
     GetCount l2 = 0"
  using hs_queue.push_then_serve [OF list_inv_new, of v vs]
  by (fastforce simp: GetCount_def HSList_new_def)

end
