(* ===== verification/HS_Odbc.thy ===== *)
theory HS_Odbc
  imports HS_List
begin

text \<open>
  \<open>hs_odbc.h\<close> and \<open>hs_odbc.cpp\<close>: asynchronous SQL statements on two statement handles, with a list of
  the queries that found no free handle. The ODBC driver is the environment: \<open>drv k i text\<close> is what the
  \<open>k\<close>-th call of \<open>SQLExecDirect\<close>, on handle \<open>i\<close>, returns (\<open>text\<close> is \<open>None\<close> when a running statement is
  polled). Calls of the driver and of the callbacks are a list of events; the diagnostics that are
  only printed are left out. The loop over the list is a partial function.
\<close>

section \<open>The code\<close>

datatype sql_return =
    SQL_SUCCESS | SQL_SUCCESS_WITH_INFO | SQL_STILL_EXECUTING | SQL_ERROR | SQL_OTHER int

record sql_callback =
  cb_param :: "u32 list"
  cb_sparam :: string
  cb_function :: nat

record data_handle =
  doing :: bool
  handle_callback :: "sql_callback option"

record query_and_callback =
  q_callback :: sql_callback
  q_statement :: string

record odbc =
  hstmt :: "data_handle list"
  callback_list :: "query_and_callback hs_list"
  clock :: nat

datatype sql_event = Exec nat "string option" | CallBack bool nat "sql_callback option"

type_synonym sql_driver = "nat \<Rightarrow> nat \<Rightarrow> string option \<Rightarrow> sql_return"

definition HSODBC_new :: odbc where
  "HSODBC_new =
     \<lparr>hstmt = replicate 2 \<lparr>doing = False, handle_callback = None\<rparr>, callback_list = HSList_new, clock = 0\<rparr>"

definition SetDoing :: "odbc \<Rightarrow> nat \<Rightarrow> bool \<Rightarrow> odbc" where
  "SetDoing o' i d = o'\<lparr>hstmt := (hstmt o')[i := (hstmt o' ! i)\<lparr>doing := d\<rparr>]\<rparr>"

definition GetDoing :: "odbc \<Rightarrow> nat \<Rightarrow> bool" where
  "GetDoing o' i = doing (hstmt o' ! i)"

definition GetCallback :: "odbc \<Rightarrow> nat \<Rightarrow> sql_callback option" where
  "GetCallback o' i = handle_callback (hstmt o' ! i)"

definition SetCallback :: "odbc \<Rightarrow> nat \<Rightarrow> sql_callback \<Rightarrow> odbc" where
  "SetCallback o' i cb = o'\<lparr>hstmt := (hstmt o')[i := (hstmt o' ! i)\<lparr>handle_callback := Some cb\<rparr>]\<rparr>"

fun first_idle :: "data_handle list \<Rightarrow> nat \<Rightarrow> nat option" where
  "first_idle [] i = None"
| "first_idle (h # hs) i = (if \<not> doing h then Some i else first_idle hs (i + 1))"

definition GetCanUseHandleIndex :: "odbc \<Rightarrow> nat" where
  "GetCanUseHandleIndex o' =
     (case first_idle (hstmt o') 0 of Some i \<Rightarrow> i | None \<Rightarrow> length (hstmt o') + 100)"

definition ExecuteQuery ::
  "sql_driver \<Rightarrow> odbc \<Rightarrow> string \<Rightarrow> sql_callback \<Rightarrow> nat \<Rightarrow> (bool \<times> odbc \<times> sql_event list) res" where
  "ExecuteQuery drv o' sql_text callback use_index =
     (let c = length (hstmt o');
          index = (if use_index > c then GetCanUseHandleIndex o' else use_index) in
      if index \<ge> c then
        bind_res (PushValue (callback_list o') \<lparr>q_callback = callback, q_statement = sql_text\<rparr>) (\<lambda>l.
          Inr (False, o'\<lparr>callback_list := l\<rparr>, []))
      else
        let retcode = drv (clock o') index (Some sql_text);
            o' = o'\<lparr>clock := clock o' + 1\<rparr> in
        if retcode = SQL_STILL_EXECUTING then
          Inr (False, SetCallback (SetDoing o' index True) index callback, [Exec index (Some sql_text)])
        else
          Inr (retcode = SQL_SUCCESS, o',
               [Exec index (Some sql_text), CallBack (retcode \<noteq> SQL_SUCCESS) index (Some callback)]))"

definition Doing_handle ::
  "sql_driver \<Rightarrow> odbc \<Rightarrow> nat \<Rightarrow> odbc \<times> sql_event list" where
  "Doing_handle drv o' i =
     (if \<not> doing (hstmt o' ! i) then (o', [])
      else
        let retcode = drv (clock o') i None;
            o' = o'\<lparr>clock := clock o' + 1\<rparr> in
        if retcode = SQL_STILL_EXECUTING then (o', [Exec i None])
        else
          let o' = SetDoing o' i False in
          if retcode = SQL_ERROR then (o', [Exec i None])
          else (o', [Exec i None, CallBack (retcode \<noteq> SQL_SUCCESS) i (handle_callback (hstmt o' ! i))]))"

fun Doing_handles :: "sql_driver \<Rightarrow> odbc \<Rightarrow> nat list \<Rightarrow> odbc \<times> sql_event list" where
  "Doing_handles drv o' [] = (o', [])"
| "Doing_handles drv o' (i # is) =
     (case Doing_handle drv o' i of (o', evs) \<Rightarrow>
        (case Doing_handles drv o' is of (o', evs') \<Rightarrow> (o', evs @ evs')))"

partial_function (option) Doing_loop ::
  "sql_driver \<Rightarrow> odbc \<Rightarrow> sql_event list \<Rightarrow> (odbc \<times> sql_event list) res option" where
  [code]: "Doing_loop drv o' evs =
     (if GetCount (callback_list o') = 0 then Some (Inr (o', evs))
      else
        (case GetHeadValue (callback_list o') of
           Inl e \<Rightarrow> Some (Inl e)
         | Inr None \<Rightarrow> Doing_loop drv o' evs
         | Inr (Some qc) \<Rightarrow>
             if GetCanUseHandleIndex o' \<ge> length (hstmt o') then Some (Inr (o', evs))
             else
               (case ExecuteQuery drv o' (q_statement qc) (q_callback qc) (GetCanUseHandleIndex o') of
                  Inl e \<Rightarrow> Some (Inl e)
                | Inr (r, o', evs') \<Rightarrow>
                    (case RemoveHead (callback_list o') of
                       Inl e \<Rightarrow> Some (Inl e)
                     | Inr (r, l) \<Rightarrow> Doing_loop drv (o'\<lparr>callback_list := l\<rparr>) (evs @ evs')))))"

definition Doing :: "sql_driver \<Rightarrow> odbc \<Rightarrow> (odbc \<times> sql_event list) res option" where
  "Doing drv o' =
     (case Doing_handles drv o' [0..<length (hstmt o')] of (o', evs) \<Rightarrow> Doing_loop drv o' evs)"

section \<open>Rounds of the loop\<close>

definition odbc_inv :: "odbc \<Rightarrow> bool" where
  "odbc_inv o' \<longleftrightarrow> length (hstmt o') = 2 \<and> list_inv (callback_list o')"

lemma odbc_inv_new: "odbc_inv HSODBC_new"
  by (simp add: odbc_inv_def HSODBC_new_def list_inv_new)

lemma first_idle_bound: "first_idle hs i = Some j \<Longrightarrow> i \<le> j \<and> j < i + length hs"
  by (induction hs i rule: first_idle.induct) (auto split: if_splits)

lemma Doing_handle_keeps:
  "length (hstmt (fst (Doing_handle drv o' i))) = length (hstmt o')"
  "callback_list (fst (Doing_handle drv o' i)) = callback_list o'"
  by (simp_all add: Doing_handle_def Let_def SetDoing_def)

lemma Doing_handles_keeps:
  "Doing_handles drv o' is = (o1, evs) \<Longrightarrow>
   length (hstmt o1) = length (hstmt o') \<and> callback_list o1 = callback_list o'"
proof (induction "is" arbitrary: o' o1 evs)
  case (Cons i "is")
  obtain o2 evs2 where "Doing_handle drv o' i = (o2, evs2)" by (cases "Doing_handle drv o' i")
  with Cons Doing_handle_keeps [of drv o' i] show ?case by (fastforce split: prod.splits)
qed simp

text \<open>One round: with an idle handle the front of the list is executed there and the count goes down.\<close>

lemma ExecuteQuery_idle:
  assumes "GetCanUseHandleIndex o' < length (hstmt o')"
  shows "\<exists>b o1 evs1. ExecuteQuery drv o' text cb (GetCanUseHandleIndex o') = Inr (b, o1, evs1) \<and>
    length (hstmt o1) = length (hstmt o') \<and> callback_list o1 = callback_list o'"
  using assms by (auto simp: ExecuteQuery_def Let_def SetDoing_def SetCallback_def intro: exI [of _ False])

lemma Doing_round:
  assumes inv: "odbc_inv o'" and ne: "GetCount (callback_list o') \<noteq> 0"
    and idle: "GetCanUseHandleIndex o' < 2"
  obtains qc b o1 l evs1 where "head_value (callback_list o') = Some qc"
    "ExecuteQuery drv o' (q_statement qc) (q_callback qc) (GetCanUseHandleIndex o') = Inr (b, o1, evs1)"
    "RemoveHead (callback_list o') = Inr (True, l)" "odbc_inv (o1\<lparr>callback_list := l\<rparr>)"
    "GetCount l = GetCount (callback_list o') - 1"
    "head_value l = (if GetCount (callback_list o') = 1 then None else head_value (callback_list o'))"
    "Doing_loop drv o' evs = Doing_loop drv (o1\<lparr>callback_list := l\<rparr>) (evs @ evs1)"
proof -
  have li: "list_inv (callback_list o')" and len: "length (hstmt o') = 2"
    using inv by (simp_all add: odbc_inv_def)
  have ne': "useable_count (callback_list o') \<noteq> 0" using ne by (simp add: GetCount_def)
  obtain qc where qc: "head_value (callback_list o') = Some qc"
    using hs_queue.front_None [OF li] ne' by (cases "head_value (callback_list o')") simp_all
  obtain b o1 evs1 where
    ex: "ExecuteQuery drv o' (q_statement qc) (q_callback qc) (GetCanUseHandleIndex o') = Inr (b, o1, evs1)"
    "length (hstmt o1) = 2" "callback_list o1 = callback_list o'"
    using ExecuteQuery_idle [of o' drv "q_statement qc" "q_callback qc"] idle len by auto
  obtain l where l: "RemoveHead (callback_list o') = Inr (True, l)" "list_inv l"
    "useable_count l = useable_count (callback_list o') - 1"
    "head_value l = (if useable_count (callback_list o') = 1 then None else head_value (callback_list o'))"
    using hs_queue.remove_ok [OF li ne'] by blast
  have "Doing_loop drv o' evs = Doing_loop drv (o1\<lparr>callback_list := l\<rparr>) (evs @ evs1)"
    using ne idle len hs_queue.get_head_ok [OF li] qc ex l(1)
    by (subst Doing_loop.simps) simp
  then show ?thesis
    using that [OF qc ex(1) l(1)] ex(2) l(2-4) by (simp add: odbc_inv_def GetCount_def)
qed

lemma Doing_loop_stops:
  "GetCount (callback_list o') = 0 \<Longrightarrow> Doing_loop drv o' evs = Some (Inr (o', evs))"
  "odbc_inv o' \<Longrightarrow> \<not> GetCanUseHandleIndex o' < 2 \<Longrightarrow> Doing_loop drv o' evs = Some (Inr (o', evs))"
proof -
  show "GetCount (callback_list o') = 0 \<Longrightarrow> Doing_loop drv o' evs = Some (Inr (o', evs))"
    by (subst Doing_loop.simps) simp
  assume inv: "odbc_inv o'" and busy: "\<not> GetCanUseHandleIndex o' < 2"
  have li: "list_inv (callback_list o')" using inv by (simp add: odbc_inv_def)
  show "Doing_loop drv o' evs = Some (Inr (o', evs))"
    using hs_queue.get_head_ok [OF li] hs_queue.front_None [OF li] inv busy
    by (subst Doing_loop.simps) (auto simp: odbc_inv_def GetCount_def split: option.split)
qed

lemma Doing_loop_total:
  "odbc_inv o' \<Longrightarrow> \<exists>o1 evs1. Doing_loop drv o' evs = Some (Inr (o1, evs1)) \<and> odbc_inv o1 \<and>
    (GetCount (callback_list o1) = 0 \<or> \<not> GetCanUseHandleIndex o1 < 2)"
proof (induction "GetCount (callback_list o')" arbitrary: o' evs)
  case 0
  then show ?case using Doing_loop_stops(1) [of o' drv evs] by auto
next
  case (Suc n)
  show ?case
  proof (cases "GetCanUseHandleIndex o' < 2")
    case True
    have ne: "GetCount (callback_list o') \<noteq> 0" using Suc.hyps(2) by simp
    obtain qc b o1 l evs1 where r: "odbc_inv (o1\<lparr>callback_list := l\<rparr>)"
      "GetCount l = GetCount (callback_list o') - 1"
      "Doing_loop drv o' evs = Doing_loop drv (o1\<lparr>callback_list := l\<rparr>) (evs @ evs1)"
      by (rule Doing_round [OF Suc.prems ne True, of drv evs])
    have "n = GetCount (callback_list (o1\<lparr>callback_list := l\<rparr>))" using r(2) Suc.hyps(2) by simp
    from Suc.hyps(1) [OF this r(1), of "evs @ evs1"] r(3) show ?thesis by simp
  next
    case False
    then show ?thesis using Doing_loop_stops(2) [OF Suc.prems False] Suc.prems by auto
  qed
qed

text \<open>With a driver that always finishes at once, no handle gets busy and every round is alike.\<close>

lemma Doing_loop_same:
  assumes drv: "\<And>k i t. drv k i t = SQL_SUCCESS"
  shows "odbc_inv o' \<Longrightarrow> \<not> doing (hstmt o' ! 0) \<Longrightarrow>
    GetCount (callback_list o') = n \<Longrightarrow> head_value (callback_list o') = Some qc \<or> n = 0 \<Longrightarrow>
    \<exists>o1. Doing_loop drv o' evs = Some (Inr (o1, evs @ concat (replicate n
      [Exec 0 (Some (q_statement qc)), CallBack False 0 (Some (q_callback qc))]))) \<and>
      GetCount (callback_list o1) = 0"
proof (induction n arbitrary: o' evs)
  case 0
  then show ?case using Doing_loop_stops(1) [of o' drv evs] by auto
next
  case (Suc n)
  obtain h hs where h: "hstmt o' = h # hs" "hs \<noteq> []" "\<not> doing h"
    using Suc.prems(1,2) by (auto simp: odbc_inv_def numeral_2_eq_2 length_Suc_conv)
  then have idx: "GetCanUseHandleIndex o' = 0" by (simp add: GetCanUseHandleIndex_def)
  have ne: "GetCount (callback_list o') \<noteq> 0" using Suc.prems(3) by simp
  have idle: "GetCanUseHandleIndex o' < 2" using idx by simp
  obtain qc' b o1 l evs1 where r: "head_value (callback_list o') = Some qc'"
    "ExecuteQuery drv o' (q_statement qc') (q_callback qc') (GetCanUseHandleIndex o') = Inr (b, o1, evs1)"
    "odbc_inv (o1\<lparr>callback_list := l\<rparr>)" "GetCount l = GetCount (callback_list o') - 1"
    "head_value l = (if GetCount (callback_list o') = 1 then None else head_value (callback_list o'))"
    "Doing_loop drv o' evs = Doing_loop drv (o1\<lparr>callback_list := l\<rparr>) (evs @ evs1)"
    by (rule Doing_round [OF Suc.prems(1) ne idle, of drv evs])
  have qc: "qc' = qc" using r(1) Suc.prems(4) by simp
  have ex: "evs1 = [Exec 0 (Some (q_statement qc)), CallBack False 0 (Some (q_callback qc))]"
    "hstmt o1 = hstmt o'"
    using r(2) idx drv h qc by (auto simp: ExecuteQuery_def Let_def)
  have "\<exists>o2. Doing_loop drv (o1\<lparr>callback_list := l\<rparr>) (evs @ evs1) = Some (Inr (o2, (evs @ evs1) @
      concat (replicate n [Exec 0 (Some (q_statement qc)), CallBack False 0 (Some (q_callback qc))]))) \<and>
      GetCount (callback_list o2) = 0"
    by (rule Suc.IH) (use r(3-5) ex(2) Suc.prems in auto)
  then show ?case using r(6) ex(1) by simp
qed

section \<open>Properties\<close>

text \<open>\<open>Doing\<close> always returns and never faults, whatever the driver answers: afterwards no query waits, or
  both statement handles are busy.\<close>

theorem Doing_total:
  assumes "length (hstmt o') = 2" and "list_inv (callback_list o')"
  shows "\<exists>o1 evs. Doing drv o' = Some (Inr (o1, evs)) \<and> length (hstmt o1) = 2 \<and>
    list_inv (callback_list o1) \<and>
    (GetCount (callback_list o1) = 0 \<or> list_all doing (hstmt o1))"
proof -
  obtain o2 evs2 where d: "Doing_handles drv o' [0..<length (hstmt o')] = (o2, evs2)"
    by (cases "Doing_handles drv o' [0..<length (hstmt o')]")
  have "odbc_inv o2" using Doing_handles_keeps [OF d] assms by (simp add: odbc_inv_def)
  from Doing_loop_total [OF this, of drv evs2] obtain o1 evs where
    r: "Doing_loop drv o2 evs2 = Some (Inr (o1, evs))" "odbc_inv o1"
    "GetCount (callback_list o1) = 0 \<or> \<not> GetCanUseHandleIndex o1 < 2" by blast
  have "list_all doing hs" if "first_idle hs i = None" for hs i
    using that by (induction hs i rule: first_idle.induct) (auto split: if_splits)
  then have "list_all doing (hstmt o1)" if "\<not> GetCanUseHandleIndex o1 < 2"
    using that r(2) first_idle_bound [of "hstmt o1" 0]
    by (cases "first_idle (hstmt o1) 0") (auto simp: GetCanUseHandleIndex_def odbc_inv_def)
  then show ?thesis using d r by (auto simp: Doing_def odbc_inv_def)
qed

text \<open>C34: of the queries that wait only the first is ever executed. When \<open>n\<close> queries were queued and the
  driver finishes everything at once, \<open>Doing\<close> executes the first one \<open>n\<close> times, calls its callback
  \<open>n\<close> times, and leaves the list empty: the others are lost.\<close>

theorem Doing_repeats_first_query:
  assumes "push_all PushValue HSList_new (qc # qcs) = Inr l" and "\<And>k i t. drv k i t = SQL_SUCCESS"
  shows "\<exists>o1. Doing drv (HSODBC_new\<lparr>callback_list := l\<rparr>) = Some (Inr (o1, concat (replicate (Suc (length qcs))
      [Exec 0 (Some (q_statement qc)), CallBack False 0 (Some (q_callback qc))]))) \<and>
    GetCount (callback_list o1) = 0"
proof -
  let ?o = "HSODBC_new\<lparr>callback_list := l\<rparr>"
  have l: "list_inv l" "GetCount l = Suc (length qcs)" "head_value l = Some qc"
    using hs_queue.push_all_result [OF list_inv_new, of "qc # qcs"] assms(1)
    by (auto simp: GetCount_def HSList_new_def)
  have "Doing_handles drv ?o [0..<2] = (?o, [])"
    by (simp add: upt_rec Doing_handle_def HSODBC_new_def)
  then have "Doing drv ?o = Doing_loop drv ?o []" by (simp add: Doing_def HSODBC_new_def)
  then show ?thesis
    using Doing_loop_same [OF assms(2), where o' = ?o and n = "Suc (length qcs)" and qc = qc and evs = "[]"] l
    by (simp add: odbc_inv_def HSODBC_new_def)
qed

text \<open>A statement that fails while it runs is forgotten: when the driver answers a poll with
  \<open>SQL_ERROR\<close>, the handle becomes free and its callback is never called.\<close>

theorem Doing_drops_failed_callback:
  assumes "hstmt o' = [\<lparr>doing = True, handle_callback = Some cb\<rparr>, \<lparr>doing = False, handle_callback = None\<rparr>]"
    and "GetCount (callback_list o') = 0" and "drv (clock o') 0 None = SQL_ERROR"
  shows "\<exists>o1. Doing drv o' = Some (Inr (o1, [Exec 0 None])) \<and> \<not> doing (hstmt o1 ! 0)"
proof -
  have "Doing_handles drv o' [0..<length (hstmt o')] =
      (SetDoing (o'\<lparr>clock := clock o' + 1\<rparr>) 0 False, [Exec 0 None])"
    using assms by (simp add: upt_rec Doing_handle_def Let_def SetDoing_def)
  then show ?thesis
    using assms Doing_loop_stops(1) [of "SetDoing (o'\<lparr>clock := clock o' + 1\<rparr>) 0 False" drv "[Exec 0 None]"]
    by (simp add: Doing_def SetDoing_def)
qed

section \<open>Witnesses\<close>

definition ex_query :: "nat \<Rightarrow> query_and_callback" where
  "ex_query n = \<lparr>q_callback = \<lparr>cb_param = [1, 2, 3, 4], cb_sparam = [], cb_function = n\<rparr>,
     q_statement = ''select''\<rparr>"

theorem Doing_total_witness:
  "\<exists>o1 evs. Doing (\<lambda>k i t. SQL_STILL_EXECUTING) HSODBC_new = Some (Inr (o1, evs)) \<and> length (hstmt o1) = 2"
  using Doing_total [of HSODBC_new "\<lambda>k i t. SQL_STILL_EXECUTING"] odbc_inv_new
  by (auto simp: odbc_inv_def)

theorem Doing_repeats_first_query_witness:
  "\<exists>l o1. push_all PushValue HSList_new [ex_query 1, ex_query 2] = Inr l \<and>
     Doing (\<lambda>k i t. SQL_SUCCESS) (HSODBC_new\<lparr>callback_list := l\<rparr>) = Some (Inr (o1, concat (replicate 2
       [Exec 0 (Some ''select''), CallBack False 0 (Some (q_callback (ex_query 1)))])))"
proof -
  obtain l where l: "push_all PushValue HSList_new [ex_query 1, ex_query 2] = Inr l"
    using hs_queue.push_all_result [OF list_inv_new, of "[ex_query 1, ex_query 2]"] by blast
  from Doing_repeats_first_query [OF l, where drv = "\<lambda>k i t. SQL_SUCCESS"] l show ?thesis
    by (auto simp: ex_query_def numeral_2_eq_2)
qed

theorem Doing_drops_failed_callback_witness:
  "\<exists>o1. Doing (\<lambda>k i t. SQL_ERROR) (HSODBC_new\<lparr>hstmt := [\<lparr>doing = True,
      handle_callback = Some (q_callback (ex_query 1))\<rparr>, \<lparr>doing = False, handle_callback = None\<rparr>]\<rparr>) =
      Some (Inr (o1, [Exec 0 None])) \<and> \<not> doing (hstmt o1 ! 0)"
  by (rule Doing_drops_failed_callback) (simp_all add: HSODBC_new_def HSList_new_def GetCount_def)

end
