(* ===== verification/HS_Dijkstra.thy ===== *)
theory HS_Dijkstra
  imports HS_Prelude
begin

text \<open>
  \<open>hs_Dijkstra.h\<close> and \<open>hs_Dijkstra.cpp\<close>: shortest paths between at most five nodes, numbered from 1.
  Fixed-size arrays are lists; an access outside one is a fault, and so is a sum of weights that
  leaves \<open>int32_t\<close>. Node numbers and positions are natural numbers, except the length of the node
  list, a 16-bit word that \<open>dijkstra_list_load_data\<close> counts up.

  The specification is about walks along edges of positive weight; the main theorem is that the
  search returns the length of a shortest walk, with the nodes on one, and fails exactly when there is
  no walk.
\<close>

section \<open>The code\<close>

definition MAX_NODE_NUM :: nat where "MAX_NODE_NUM = 5"

record dijkstra_node =
  d_id :: u16
  d_weight :: "int list"

record node_list =
  d_nodes :: "dijkstra_node list"
  d_len :: u16

record path_cache =
  path_nodes :: "nat list"
  path_num :: nat
  weights_len :: int

fun load_nodes :: "dijkstra_node list \<Rightarrow> nat list \<Rightarrow> node_list \<Rightarrow> node_list res" where
  "load_nodes node_data [] nl = Inr nl"
| "load_nodes node_data (i # is) nl =
     bind_res (arr node_data i) (\<lambda>node.
     bind_res (arr_set (d_nodes nl) i node) (\<lambda>ns.
     load_nodes node_data is (nl\<lparr>d_nodes := ns, d_len := d_len nl + 1\<rparr>)))"

definition dijkstra_list_load_data ::
  "dijkstra_node list option \<Rightarrow> u16 \<Rightarrow> node_list option \<Rightarrow> (int \<times> node_list option) res" where
  "dijkstra_list_load_data node_array_data len nl_ptr =
     (case (nl_ptr, node_array_data) of
        (Some nl, Some node_data) \<Rightarrow>
          if len = 0 then Inr (- 1, nl_ptr)
          else
            let len = (if unat len > MAX_NODE_NUM then MAX_NODE_NUM else unat len) in
            bind_res (load_nodes node_data [0..<len] nl) (\<lambda>nl. Inr (0, Some nl))
      | _ \<Rightarrow> Inr (- 1, nl_ptr))"

text \<open>The position of a node at or behind a given one; \<open>None\<close> when the scan ends at a 0 or finds nothing.\<close>

fun find_used :: "nat list \<Rightarrow> nat \<Rightarrow> nat list \<Rightarrow> nat option res" where
  "find_used used node_id [] = Inr None"
| "find_used used node_id (i # is) =
     bind_res (arr used i) (\<lambda>n.
       if n = 0 then Inr None
       else if n = node_id then Inr (Some i)
       else find_used used node_id is)"

definition set_used_node_to_pos :: "nat list \<Rightarrow> nat \<Rightarrow> nat \<Rightarrow> nat \<Rightarrow> nat list res" where
  "set_used_node_to_pos used node_num node_id node_serial =
     bind_res (arr used node_serial) (\<lambda>temp.
       if temp = node_id then Inr used
       else
         bind_res (find_used used node_id [node_serial..<node_num]) (\<lambda>pos.
           case pos of
             None \<Rightarrow> Inr used
           | Some i \<Rightarrow> Inr (used[node_serial := node_id, i := temp])))"

text \<open>The body of the first inner loop: try to reach \<open>next_n\<close> through \<open>use_n\<close>.\<close>

definition relax :: "node_list \<Rightarrow> nat \<Rightarrow> nat \<Rightarrow> path_cache list \<Rightarrow> path_cache list res" where
  "relax nl use_n next_n cache =
     bind_res (arr (d_nodes nl) (use_n - 1)) (\<lambda>node.
     bind_res (arr (d_weight node) (next_n - 1)) (\<lambda>weight.
       if weight \<le> 0 then Inr cache
       else
         bind_res (arr cache (next_n - 1)) (\<lambda>cn.
         bind_res (arr cache (use_n - 1)) (\<lambda>cu.
         let w = weights_len cu + weight in
         if \<not> fits_int32 w then Inl SignedOverflow
         else if path_num cn = 0 \<or> weights_len cn > w then
           bind_res (arr_set (path_nodes cu) (path_num cu) next_n) (\<lambda>ps.
             arr_set cache (next_n - 1)
               \<lparr>path_nodes = ps, path_num = path_num cu + 1, weights_len = weights_len cu + weight\<rparr>)
         else Inr cache))))"

fun relax_all :: "node_list \<Rightarrow> nat \<Rightarrow> nat list \<Rightarrow> nat list \<Rightarrow> path_cache list \<Rightarrow> path_cache list res" where
  "relax_all nl use_n used [] cache = Inr cache"
| "relax_all nl use_n used (j # js) cache =
     bind_res (arr used j) (\<lambda>next_n.
     bind_res (relax nl use_n next_n cache) (\<lambda>cache.
     relax_all nl use_n used js cache))"

text \<open>The second inner loop: the nearest of the remaining nodes that was reached, 0 if there is none.\<close>

fun min_node :: "nat list \<Rightarrow> path_cache list \<Rightarrow> nat list \<Rightarrow> int \<times> nat \<Rightarrow> (int \<times> nat) res" where
  "min_node used cache [] m = Inr m"
| "min_node used cache (j # js) (min_len, min_len_node) =
     bind_res (arr used j) (\<lambda>n.
     bind_res (arr cache (n - 1)) (\<lambda>c.
       let len = weights_len c in
       min_node used cache js
         (if len > 0 \<and> (min_len < 0 \<or> min_len > len) then (len, n) else (min_len, min_len_node))))"

fun visit_loop ::
  "node_list \<Rightarrow> nat \<Rightarrow> nat list \<Rightarrow> nat \<Rightarrow> nat list \<Rightarrow> path_cache list \<Rightarrow> path_cache list res" where
  "visit_loop nl list_len [] use_n used cache = Inr cache"
| "visit_loop nl list_len (i # is) use_n used cache =
     (if use_n = 0 then Inr cache
      else
        bind_res (set_used_node_to_pos used list_len use_n i) (\<lambda>used.
        bind_res (relax_all nl use_n used [i + 1..<list_len] cache) (\<lambda>cache.
        bind_res (min_node used cache [i + 1..<list_len] (- 1, 0)) (\<lambda>(min_len, min_len_node).
        visit_loop nl list_len is min_len_node used cache))))"

definition dijkstra_get_path ::
  "node_list option \<Rightarrow> nat \<Rightarrow> nat \<Rightarrow> (int \<times> path_cache option) res" where
  "dijkstra_get_path nl_ptr begin_node end_node =
     (case nl_ptr of
        None \<Rightarrow> Inr (- 1, None)
      | Some nl \<Rightarrow>
          if begin_node = 0 \<or> begin_node > unat (d_len nl) \<or> end_node = 0 \<or> end_node > unat (d_len nl)
          then Inr (- 1, None)
          else
            let list_len = min MAX_NODE_NUM (unat (d_len nl));
                used = map (\<lambda>i. if i < list_len then i + 1 else 0) [0..<MAX_NODE_NUM];
                cache = replicate MAX_NODE_NUM
                  \<lparr>path_nodes = replicate MAX_NODE_NUM 0, path_num = 0, weights_len = 0\<rparr> in
            bind_res (visit_loop nl list_len [0..<list_len] begin_node used cache) (\<lambda>cache.
            bind_res (arr cache (end_node - 1)) (\<lambda>c.
              if weights_len c = 0 then Inr (- 1, None) else Inr (0, Some c))))"

section \<open>Specification: walks\<close>

definition weight_of :: "node_list \<Rightarrow> nat \<Rightarrow> nat \<Rightarrow> int" where
  "weight_of nl u v = d_weight (d_nodes nl ! (u - 1)) ! (v - 1)"

fun is_walk :: "node_list \<Rightarrow> nat \<Rightarrow> nat \<Rightarrow> nat list \<Rightarrow> bool" where
  "is_walk nl n u [] = True"
| "is_walk nl n u (v # vs) = (v \<in> {1..n} \<and> weight_of nl u v > 0 \<and> is_walk nl n v vs)"

fun walk_len :: "node_list \<Rightarrow> nat \<Rightarrow> nat list \<Rightarrow> int" where
  "walk_len nl u [] = 0"
| "walk_len nl u (v # vs) = weight_of nl u v + walk_len nl v vs"

lemma is_walk_append [simp]:
  "is_walk nl n u (xs @ ys) \<longleftrightarrow> is_walk nl n u xs \<and> is_walk nl n (last (u # xs)) ys"
  by (induction xs arbitrary: u) auto

lemma walk_len_append [simp]:
  "walk_len nl u (xs @ ys) = walk_len nl u xs + walk_len nl (last (u # xs)) ys"
  by (induction xs arbitrary: u) auto

lemma walk_len_pos: "is_walk nl n u xs \<Longrightarrow> 0 \<le> walk_len nl u xs \<and> (xs \<noteq> [] \<longrightarrow> 0 < walk_len nl u xs)"
  by (induction xs arbitrary: u) force+

lemma walk_first_exit:
  "is_walk nl n u xs \<Longrightarrow> u \<in> V \<Longrightarrow> last (u # xs) \<notin> V \<Longrightarrow>
   \<exists>ys w zs. xs = ys @ w # zs \<and> last (u # ys) \<in> V \<and> w \<notin> V"
proof (induction xs arbitrary: u)
  case (Cons v vs)
  show ?case
  proof (cases "v \<in> V")
    case True
    then obtain ys w zs where "vs = ys @ w # zs" "last (v # ys) \<in> V" "w \<notin> V"
      using Cons.IH [of v] Cons.prems by auto
    then show ?thesis by (intro exI [of _ "v # ys"] exI [of _ w] exI [of _ zs]) simp
  next
    case False
    then show ?thesis using Cons.prems(2)
      by (intro exI [of _ "[]"] exI [of _ v] exI [of _ vs]) simp
  qed
qed simp

text \<open>Node lists within bounds: five weights of at most 2^28 per node, so that no sum overflows.\<close>

definition graph_ok :: "node_list \<Rightarrow> nat \<Rightarrow> bool" where
  "graph_ok nl n \<longleftrightarrow> n \<le> 5 \<and> length (d_nodes nl) = 5 \<and>
     (\<forall>u\<in>{1..n}. length (d_weight (d_nodes nl ! (u - 1))) = 5) \<and>
     (\<forall>u\<in>{1..n}. \<forall>v\<in>{1..n}. weight_of nl u v \<le> 2 ^ 28)"

lemma walk_len_bound:
  "graph_ok nl n \<Longrightarrow> u \<in> {1..n} \<Longrightarrow> is_walk nl n u xs \<Longrightarrow> walk_len nl u xs \<le> int (length xs) * 2 ^ 28"
proof (induction xs arbitrary: u)
  case (Cons v vs)
  have v: "v \<in> {1..n}" "is_walk nl n v vs" using Cons.prems(3) by simp_all
  have "weight_of nl u v \<le> 2 ^ 28" using Cons.prems(1,2) v(1) by (simp add: graph_ok_def)
  moreover have "walk_len nl v vs \<le> int (length vs) * 2 ^ 28" by (rule Cons.IH [OF Cons.prems(1) v])
  ultimately show ?case by simp
qed simp

section \<open>The cache\<close>

definition path_of :: "path_cache \<Rightarrow> nat list" where
  "path_of c = take (path_num c) (path_nodes c)"

definition entry_ok :: "node_list \<Rightarrow> nat \<Rightarrow> nat \<Rightarrow> nat \<Rightarrow> nat \<Rightarrow> path_cache \<Rightarrow> bool" where
  "entry_ok nl n b k u c \<longleftrightarrow> length (path_nodes c) = 5 \<and> path_num c \<le> k \<and>
     is_walk nl n b (path_of c) \<and> walk_len nl b (path_of c) = weights_len c \<and>
     (path_num c \<noteq> 0 \<longrightarrow> last (path_of c) = u)"

lemma entry_reached:
  assumes "entry_ok nl n b k u c" "k \<le> 5"
  shows "0 < weights_len c \<longleftrightarrow> path_num c \<noteq> 0" "0 \<le> weights_len c"
proof -
  have "length (path_of c) = path_num c" using assms by (simp add: path_of_def entry_ok_def)
  then have "path_of c = [] \<longleftrightarrow> path_num c = 0" by auto
  then show "0 < weights_len c \<longleftrightarrow> path_num c \<noteq> 0" "0 \<le> weights_len c"
    using assms(1) walk_len_pos [of nl n b "path_of c"] by (auto simp: entry_ok_def)
qed

lemma entry_ok_mono: "entry_ok nl n b k u c \<Longrightarrow> k \<le> k' \<Longrightarrow> entry_ok nl n b k' u c"
  by (auto simp: entry_ok_def)

text \<open>What relaxing along an edge from \<open>use_n\<close>, whose entry is \<open>cu\<close>, may do to an entry.\<close>

definition better :: "node_list \<Rightarrow> nat \<Rightarrow> nat \<Rightarrow> path_cache \<Rightarrow> path_cache \<Rightarrow> path_cache \<Rightarrow> bool" where
  "better nl use_n v cu c c' \<longleftrightarrow>
     (weight_of nl use_n v > 0 \<longrightarrow> path_num c' \<noteq> 0 \<and> weights_len c' \<le> weights_len cu + weight_of nl use_n v) \<and>
     (path_num c \<noteq> 0 \<longrightarrow> path_num c' \<noteq> 0 \<and> weights_len c' \<le> weights_len c)"

lemma relax_result:
  assumes g: "graph_ok nl n" and b: "b \<in> {1..n}" and u: "use_n \<in> {1..n}" and v: "v \<in> {1..n}"
    and len: "length cache = 5" and k: "k < 5"
    and cu: "entry_ok nl n b k use_n (cache ! (use_n - 1))" "use_n = b \<or> path_num (cache ! (use_n - 1)) \<noteq> 0"
      "use_n = b \<longrightarrow> path_num (cache ! (use_n - 1)) = 0"
    and cv: "entry_ok nl n b k v (cache ! (v - 1))"
  obtains c' where "relax nl use_n v cache = Inr (cache[v - 1 := c'])"
    "entry_ok nl n b (Suc k) v c'" "better nl use_n v (cache ! (use_n - 1)) (cache ! (v - 1)) c'"
proof -
  let ?cu = "cache ! (use_n - 1)" and ?cv = "cache ! (v - 1)" and ?w = "weight_of nl use_n v"
  have idx: "use_n - 1 < 5" "v - 1 < 5" using u v g by (auto simp: graph_ok_def)
  have rd: "arr (d_nodes nl) (use_n - 1) = Inr (d_nodes nl ! (use_n - 1))"
    "arr (d_weight (d_nodes nl ! (use_n - 1))) (v - 1) = Inr ?w"
    "arr cache (v - 1) = Inr ?cv" "arr cache (use_n - 1) = Inr ?cu"
    using idx g u len by (simp_all add: arr_def graph_ok_def weight_of_def)
  have cv': "entry_ok nl n b (Suc k) v ?cv" using cv by (rule entry_ok_mono) simp
  show ?thesis
  proof (cases "?w \<le> 0")
    case True
    then have "relax nl use_n v cache = Inr (cache[v - 1 := ?cv])" using rd by (simp add: relax_def)
    then show ?thesis using that [of ?cv] cv' True by (simp add: better_def)
  next
    case pos: False
    have cu': "is_walk nl n b (path_of ?cu)" "walk_len nl b (path_of ?cu) = weights_len ?cu"
      "path_num ?cu \<le> k" "length (path_nodes ?cu) = 5" "length (path_of ?cu) = path_num ?cu"
      using cu(1) k by (auto simp: entry_ok_def path_of_def)
    have last: "last (b # path_of ?cu) = use_n"
      using cu cu'(5) by (cases "path_of ?cu") (auto simp: entry_ok_def)
    have "weights_len ?cu \<le> int (path_num ?cu) * 2 ^ 28"
      using walk_len_bound [OF g b cu'(1)] cu'(2,5) by simp
    moreover have "int (path_num ?cu) * 2 ^ 28 \<le> 4 * 2 ^ 28" using cu'(3) k by simp
    moreover have "?w \<le> 2 ^ 28" using g u v by (simp add: graph_ok_def)
    moreover have "0 \<le> weights_len ?cu" using entry_reached(2) [OF cu(1)] k by simp
    ultimately have fits: "fits_int32 (weights_len ?cu + ?w)" using pos by (simp add: fits_int32_def)
    show ?thesis
    proof (cases "path_num ?cv = 0 \<or> weights_len ?cv > weights_len ?cu + ?w")
      case True
      let ?ps = "(path_nodes ?cu)[path_num ?cu := v]"
      let ?c = "\<lparr>path_nodes = ?ps, path_num = path_num ?cu + 1, weights_len = weights_len ?cu + ?w\<rparr>"
      have "relax nl use_n v cache = Inr (cache[v - 1 := ?c])"
        using rd pos fits True cu'(3,4) k len idx by (simp add: relax_def Let_def arr_set_def)
      moreover have "path_of ?c = path_of ?cu @ [v]"
        using cu'(3,4) k by (simp add: path_of_def take_Suc_conv_app_nth)
      then have "entry_ok nl n b (Suc k) v ?c"
        using cu' last pos v by (simp add: entry_ok_def)
      moreover have "better nl use_n v ?cu ?cv ?c" using True by (auto simp: better_def)
      ultimately show ?thesis by (rule that)
    next
      case False
      then have "relax nl use_n v cache = Inr (cache[v - 1 := ?cv])"
        using rd pos fits by (simp add: relax_def Let_def)
      moreover have "better nl use_n v ?cu ?cv ?cv" using False by (auto simp: better_def)
      ultimately show ?thesis using that cv' by blast
    qed
  qed
qed

text \<open>Relaxing along all edges to the nodes at some positions.\<close>

lemma relax_all_result:
  assumes g: "graph_ok nl n" and b: "b \<in> {1..n}" and u: "use_n \<in> {1..n}" and k: "k < 5"
    and cu: "entry_ok nl n b k use_n cu" "use_n = b \<or> path_num cu \<noteq> 0" "use_n = b \<longrightarrow> path_num cu = 0"
  shows "length cache = 5 \<Longrightarrow> cache ! (use_n - 1) = cu \<Longrightarrow> \<forall>j\<in>set js. j < length used \<Longrightarrow>
    distinct (map ((!) used) js) \<Longrightarrow> set (map ((!) used) js) \<subseteq> {1..n} - {use_n} \<Longrightarrow>
    \<forall>v\<in>set (map ((!) used) js). entry_ok nl n b k v (cache ! (v - 1)) \<Longrightarrow>
    \<exists>cache'. relax_all nl use_n used js cache = Inr cache' \<and> length cache' = 5 \<and>
      (\<forall>v\<in>{1..n}. v \<notin> set (map ((!) used) js) \<longrightarrow> cache' ! (v - 1) = cache ! (v - 1)) \<and>
      (\<forall>v\<in>set (map ((!) used) js). entry_ok nl n b (Suc k) v (cache' ! (v - 1)) \<and>
         better nl use_n v cu (cache ! (v - 1)) (cache' ! (v - 1)))"
proof (induction js arbitrary: cache)
  case (Cons j js)
  let ?v = "used ! j" and ?vs = "set (map ((!) used) js)"
  have v: "?v \<in> {1..n}" "?v \<noteq> use_n" "?v \<notin> ?vs" "j < length used"
    using Cons.prems(3-5) by auto
  obtain c' where c': "relax nl use_n ?v cache = Inr (cache[?v - 1 := c'])"
    "entry_ok nl n b (Suc k) ?v c'" "better nl use_n ?v cu (cache ! (?v - 1)) c'"
    using relax_result [OF g b u v(1) Cons.prems(1) k] cu Cons.prems(2,6) by auto
  let ?c1 = "cache[?v - 1 := c']"
  have other: "?c1 ! (w - 1) = cache ! (w - 1)" if "w \<in> {1..n}" "w \<noteq> ?v" for w
  proof -
    have "?v - 1 \<noteq> w - 1" using that v(1) by auto
    then show ?thesis by simp
  qed
  have same: "?c1 ! (?v - 1) = c'"
    using v(1) g Cons.prems(1) by (auto simp: graph_ok_def nth_list_update)
  have sub: "?vs \<subseteq> {1..n} - {use_n}" using Cons.prems(5) by auto
  have "\<forall>w\<in>?vs. ?c1 ! (w - 1) = cache ! (w - 1)" using other sub v(3) by blast
  then have "\<forall>w\<in>?vs. entry_ok nl n b k w (?c1 ! (w - 1))" using Cons.prems(6) by simp
  moreover have "length ?c1 = 5" "?c1 ! (use_n - 1) = cu"
    using Cons.prems(1,2) other [OF u] v(2) by simp_all
  ultimately obtain cache' where r: "relax_all nl use_n used js ?c1 = Inr cache'" "length cache' = 5"
    "\<forall>w\<in>{1..n}. w \<notin> ?vs \<longrightarrow> cache' ! (w - 1) = ?c1 ! (w - 1)"
    "\<forall>w\<in>?vs. entry_ok nl n b (Suc k) w (cache' ! (w - 1)) \<and>
       better nl use_n w cu (?c1 ! (w - 1)) (cache' ! (w - 1))"
    using Cons.IH [of ?c1] Cons.prems(3,4) sub by auto
  have run: "relax_all nl use_n used (j # js) cache = Inr cache'"
    using c'(1) r(1) v(4) by (simp add: arr_def)
  have "cache' ! (?v - 1) = c'" using r(3) v(1,3) same by simp
  moreover have "\<forall>w\<in>{1..n}. w \<notin> set (map ((!) used) (j # js)) \<longrightarrow> cache' ! (w - 1) = cache ! (w - 1)"
    using r(3) other by simp
  moreover have "\<forall>w\<in>?vs. better nl use_n w cu (cache ! (w - 1)) (cache' ! (w - 1))"
    using r(4) other sub v(3) by (metis DiffD1 subsetD)
  ultimately show ?case using run r(2,4) c'(2,3) by (intro exI [of _ cache']) simp
qed simp

text \<open>The nearest reached node among those at some positions.\<close>

definition nearest :: "(nat \<Rightarrow> int) \<Rightarrow> nat set \<Rightarrow> int \<Rightarrow> nat \<Rightarrow> bool" where
  "nearest len S m v \<longleftrightarrow>
     v = 0 \<and> m < 0 \<and> (\<forall>u\<in>S. len u \<le> 0) \<or>
     v \<in> S \<and> m = len v \<and> 0 < m \<and> (\<forall>u\<in>S. 0 < len u \<longrightarrow> m \<le> len u)"

lemma nearest_insert:
  assumes "nearest len S m v"
  shows "len u > 0 \<and> (m < 0 \<or> m > len u) \<Longrightarrow> nearest len (insert u S) (len u) u"
    and "\<not> (len u > 0 \<and> (m < 0 \<or> m > len u)) \<Longrightarrow> nearest len (insert u S) m v"
  using assms by (force simp: nearest_def)+

lemma min_node_result:
  assumes cache: "length cache = 5" and n: "n \<le> 5"
  shows "\<forall>j\<in>set js. j < length used \<and> used ! j \<in> {1..n} \<Longrightarrow>
    nearest (\<lambda>u. weights_len (cache ! (u - 1))) S m v \<Longrightarrow>
    \<exists>m' v'. min_node used cache js (m, v) = Inr (m', v') \<and>
      nearest (\<lambda>u. weights_len (cache ! (u - 1))) ((!) used ` set js \<union> S) m' v'"
proof (induction js arbitrary: S m v)
  case (Cons j js)
  let ?len = "\<lambda>u. weights_len (cache ! (u - 1))"
  have j: "j < length used" "used ! j \<in> {1..n}" using Cons.prems(1) by auto
  then have idx: "used ! j - 1 < 5" using n by auto
  have js: "\<forall>i\<in>set js. i < length used \<and> used ! i \<in> {1..n}" using Cons.prems(1) by simp
  let ?c = "?len (used ! j) > 0 \<and> (m < 0 \<or> m > ?len (used ! j))"
  have step: "min_node used cache (j # js) (m, v) =
      min_node used cache js (if ?c then (?len (used ! j), used ! j) else (m, v))"
    using j idx cache by (auto simp: arr_def Let_def)
  have un: "(!) used ` set (j # js) \<union> S = (!) used ` set js \<union> insert (used ! j) S" by auto
  show ?case
  proof (cases ?c)
    case True
    from Cons.IH [OF js nearest_insert(1) [OF Cons.prems(2) True]] show ?thesis
      unfolding step un using True by simp
  next
    case False
    from Cons.IH [OF js nearest_insert(2) [OF Cons.prems(2) False]] show ?thesis
      unfolding step un if_not_P [OF False] .
  qed
qed auto

text \<open>Moving a node to a position: a swap behind the nodes already placed.\<close>

lemma find_used_result:
  "\<forall>i\<in>set is. i < length used \<and> used ! i \<noteq> 0 \<Longrightarrow> v \<in> (!) used ` set is \<Longrightarrow>
   \<exists>i\<in>set is. find_used used v is = Inr (Some i) \<and> used ! i = v"
  by (induction used v "is" rule: find_used.induct) (auto simp: arr_def)

definition placing :: "nat \<Rightarrow> nat list \<Rightarrow> bool" where
  "placing n used \<longleftrightarrow> length used = 5 \<and> n \<le> 5 \<and> distinct (take n used) \<and> set (take n used) = {1..n}"

lemma set_used_result:
  assumes p: "placing n used" and i: "i < n" and v: "v \<in> {1..n} - set (take i used)"
  obtains used' where "set_used_node_to_pos used n v i = Inr used'" "placing n used'"
    "take i used' = take i used" "used' ! i = v"
proof -
  have len: "length used = 5" "n \<le> 5" using p by (simp_all add: placing_def)
  show ?thesis
  proof (cases "used ! i = v")
    case True
    then have "set_used_node_to_pos used n v i = Inr used"
      using i len by (simp add: set_used_node_to_pos_def arr_def)
    then show ?thesis using that p True by blast
  next
    case False
    have pos: "\<forall>j\<in>set [i..<n]. j < length used \<and> used ! j \<noteq> 0"
    proof
      fix j assume j: "j \<in> set [i..<n]"
      then have "used ! j \<in> set (take n used)" using len by (auto simp: in_set_conv_nth)
      then show "j < length used \<and> used ! j \<noteq> 0" using j len p by (auto simp: placing_def)
    qed
    have "v \<in> set (take n used)" using v p by (simp add: placing_def)
    then obtain j where j: "j < n" "used ! j = v" using len by (auto simp: in_set_conv_nth)
    have "\<not> j < i" using v j len i by (auto simp: in_set_conv_nth)
    then have "v \<in> (!) used ` set [i..<n]" using j by auto
    then obtain j where j: "j \<in> set [i..<n]" "find_used used v [i..<n] = Inr (Some j)" "used ! j = v"
      using find_used_result [OF pos] by blast
    let ?u = "used[i := used ! j, j := used ! i]"
    have "set_used_node_to_pos used n v i = Inr ?u"
      using False i len j by (simp add: set_used_node_to_pos_def arr_def)
    moreover have "take n ?u = (take n used)[i := take n used ! j, j := take n used ! i]"
      using i j by (simp add: take_update_swap)
    then have "placing n ?u"
      using p i j len distinct_swap [of i "take n used" j] set_swap [of i "take n used" j]
      by (simp add: placing_def)
    moreover have "take i ?u = take i used" using j(1) by simp
    moreover have "?u ! i = v" using i j len False by (auto simp: nth_list_update)
    ultimately show ?thesis by (rule that)
  qed
qed

section \<open>The search\<close>

lemma placing_rest:
  assumes "placing n used" "i \<le> n"
  shows "distinct (map ((!) used) [i..<n])" "(!) used ` set [i..<n] = {1..n} - set (take i used)"
    and "\<forall>j\<in>set [i..<n]. j < length used \<and> used ! j \<in> {1..n}"
proof -
  have len: "length used = 5" "n \<le> 5" using assms(1) by (simp_all add: placing_def)
  have eq: "take n used = take i used @ map ((!) used) [i..<n]"
    using assms(2) len by (intro nth_equalityI) (auto simp: nth_append)
  then have d: "distinct (take i used @ map ((!) used) [i..<n])"
    and st: "set (take i used) \<union> (!) used ` set [i..<n] = {1..n}"
    using assms(1) by (auto simp: placing_def)
  show "distinct (map ((!) used) [i..<n])" using d by simp
  have "set (take i used) \<inter> (!) used ` set [i..<n] = {}" using d by auto
  then show "(!) used ` set [i..<n] = {1..n} - set (take i used)" using st by blast
  show "\<forall>j\<in>set [i..<n]. j < length used \<and> used ! j \<in> {1..n}" using st len by auto
qed

definition settled :: "node_list \<Rightarrow> nat \<Rightarrow> nat \<Rightarrow> path_cache list \<Rightarrow> nat \<Rightarrow> bool" where
  "settled nl n b cache v \<longleftrightarrow>
     (v = b \<or> path_num (cache ! (v - 1)) \<noteq> 0) \<and>
     (\<forall>xs. is_walk nl n b xs \<longrightarrow> last (b # xs) = v \<longrightarrow> weights_len (cache ! (v - 1)) \<le> walk_len nl b xs)"

definition frontier :: "node_list \<Rightarrow> nat \<Rightarrow> path_cache list \<Rightarrow> nat set \<Rightarrow> bool" where
  "frontier nl n cache V \<longleftrightarrow>
     (\<forall>v\<in>V. \<forall>u\<in>{1..n} - V. weight_of nl v u > 0 \<longrightarrow>
        path_num (cache ! (u - 1)) \<noteq> 0 \<and>
        weights_len (cache ! (u - 1)) \<le> weights_len (cache ! (v - 1)) + weight_of nl v u)"

definition cache_ok :: "node_list \<Rightarrow> nat \<Rightarrow> nat \<Rightarrow> nat \<Rightarrow> path_cache list \<Rightarrow> bool" where
  "cache_ok nl n b k cache \<longleftrightarrow> length cache = 5 \<and> path_num (cache ! (b - 1)) = 0 \<and>
     (\<forall>u\<in>{1..n}. entry_ok nl n b k u (cache ! (u - 1)))"

text \<open>The nearest node outside the visited set is at its final distance.\<close>

lemma nearest_settled:
  assumes c: "cache_ok nl n b k cache" "k \<le> 5" and b: "b \<in> V"
    and V: "\<forall>v\<in>V. settled nl n b cache v" and f: "frontier nl n cache V"
    and near: "nearest (\<lambda>u. weights_len (cache ! (u - 1))) ({1..n} - V) m u" and u: "u \<noteq> 0"
  shows "settled nl n b cache u"
proof -
  let ?len = "\<lambda>u. weights_len (cache ! (u - 1))"
  have u': "u \<in> {1..n} - V" "0 < ?len u" "\<forall>w\<in>{1..n} - V. 0 < ?len w \<longrightarrow> ?len u \<le> ?len w"
    using near u by (auto simp: nearest_def)
  have reach: "0 < ?len w \<longleftrightarrow> path_num (cache ! (w - 1)) \<noteq> 0" if "w \<in> {1..n}" for w
    using entry_reached(1) [of nl n b k w "cache ! (w - 1)"] c that by (simp add: cache_ok_def)
  have "?len u \<le> walk_len nl b xs" if xs: "is_walk nl n b xs" "last (b # xs) = u" for xs
  proof -
    have "last (b # xs) \<notin> V" using u' xs(2) by simp
    then obtain ys w zs where w: "xs = ys @ w # zs" "last (b # ys) \<in> V" "w \<notin> V"
      using walk_first_exit [OF xs(1) b] by blast
    let ?v = "last (b # ys)"
    have e: "is_walk nl n b ys" "w \<in> {1..n}" "weight_of nl ?v w > 0" "is_walk nl n w zs"
      using xs(1) w(1) by auto
    have "path_num (cache ! (w - 1)) \<noteq> 0" "?len w \<le> ?len ?v + weight_of nl ?v w"
      using f w(2,3) e(2,3) by (auto simp: frontier_def)
    moreover from this have "?len u \<le> ?len w" using u'(3) reach e(2) w(3) by simp
    moreover have "?len ?v \<le> walk_len nl b ys" using V w(2) e(1) by (simp add: settled_def)
    moreover have "0 \<le> walk_len nl w zs" using walk_len_pos [OF e(4)] by simp
    moreover have "walk_len nl b xs = walk_len nl b ys + weight_of nl ?v w + walk_len nl w zs"
      using w(1) by simp
    ultimately show ?thesis by linarith
  qed
  then show ?thesis using reach u' by (auto simp: settled_def)
qed

definition loop_inv ::
  "node_list \<Rightarrow> nat \<Rightarrow> nat \<Rightarrow> nat \<Rightarrow> nat \<Rightarrow> nat list \<Rightarrow> path_cache list \<Rightarrow> bool" where
  "loop_inv nl n b i use_n used cache \<longleftrightarrow>
     (let V = set (take i used) in
      i \<le> n \<and> placing n used \<and> cache_ok nl n b i cache \<and>
      (\<forall>v\<in>V. settled nl n b cache v) \<and> frontier nl n cache V \<and>
      (b \<in> V \<or> (V = {} \<and> use_n = b)) \<and>
      (if use_n = 0 then \<forall>u\<in>{1..n} - V. path_num (cache ! (u - 1)) = 0
       else use_n \<in> {1..n} - V \<and> settled nl n b cache use_n))"

text \<open>Relaxing the edges of one more node keeps the cache right and moves the frontier behind that node.\<close>

lemma relaxed_cache_ok:
  assumes c: "cache_ok nl n b i cache" and len: "length cache' = 5" and b: "b \<notin> R"
    and same: "\<And>v. v \<in> {1..n} \<Longrightarrow> v \<notin> R \<Longrightarrow> cache' ! (v - 1) = cache ! (v - 1)" and bn: "b \<in> {1..n}"
    and relaxed: "\<And>v. v \<in> R \<Longrightarrow> entry_ok nl n b (Suc i) v (cache' ! (v - 1))"
  shows "cache_ok nl n b (i + 1) cache'"
proof -
  have "entry_ok nl n b (i + 1) v (cache' ! (v - 1))" if "v \<in> {1..n}" for v
  proof (cases "v \<in> R")
    case False
    have "entry_ok nl n b i v (cache ! (v - 1))" using c that by (simp add: cache_ok_def)
    then show ?thesis unfolding same [OF that False] by (rule entry_ok_mono) simp
  qed (use relaxed in simp)
  then show ?thesis using len same [OF bn b] c by (simp add: cache_ok_def)
qed

lemma relaxed_frontier:
  assumes f: "frontier nl n cache V" and same: "\<And>v. v \<in> insert u V \<Longrightarrow> cache' ! (v - 1) = cache ! (v - 1)"
    and relaxed: "\<And>w. w \<in> {1..n} - insert u V \<Longrightarrow> better nl u w (cache ! (u - 1)) (cache ! (w - 1)) (cache' ! (w - 1))"
  shows "frontier nl n cache' (insert u V)"
  unfolding frontier_def
proof (intro ballI impI)
  fix v w assume v: "v \<in> insert u V" and w: "w \<in> {1..n} - insert u V" and e: "weight_of nl v w > 0"
  note bw = relaxed [OF w, unfolded better_def]
  show "path_num (cache' ! (w - 1)) \<noteq> 0 \<and>
    weights_len (cache' ! (w - 1)) \<le> weights_len (cache' ! (v - 1)) + weight_of nl v w"
  proof (cases "v = u")
    case True
    then show ?thesis using bw e same [OF v] by simp
  next
    case False
    then have "path_num (cache ! (w - 1)) \<noteq> 0 \<and>
        weights_len (cache ! (w - 1)) \<le> weights_len (cache ! (v - 1)) + weight_of nl v w"
      using f v w e by (simp add: frontier_def)
    then show ?thesis using bw same [OF v] by fastforce
  qed
qed

text \<open>One round of the outer loop keeps the invariant.\<close>

lemma visit_round:
  assumes g: "graph_ok nl n" and b: "b \<in> {1..n}" and inv: "loop_inv nl n b i use_n used cache"
    and i: "i < n" and u: "use_n \<noteq> 0"
  obtains used' cache' m v where "set_used_node_to_pos used n use_n i = Inr used'"
    "relax_all nl use_n used' [i + 1..<n] cache = Inr cache'"
    "min_node used' cache' [i + 1..<n] (- 1, 0) = Inr (m, v)"
    "loop_inv nl n b (i + 1) v used' cache'"
proof -
  let ?V = "set (take i used)"
  have pl: "placing n used" and c: "cache_ok nl n b i cache" and f: "frontier nl n cache ?V"
    and V: "\<forall>v\<in>?V. settled nl n b cache v" and bV: "b \<in> ?V \<or> use_n = b"
    and un: "use_n \<in> {1..n} - ?V" and us: "settled nl n b cache use_n"
    using inv u by (auto simp: loop_inv_def Let_def)
  have n5: "n \<le> 5" using g by (simp add: graph_ok_def)
  obtain used' where u': "set_used_node_to_pos used n use_n i = Inr used'" "placing n used'"
    "take i used' = take i used" "used' ! i = use_n"
    by (rule set_used_result [OF pl i un])
  have len': "length used' = 5" using u'(2) by (simp add: placing_def)
  let ?V' = "insert use_n ?V"
  have V': "set (take (i + 1) used') = ?V'"
    using u'(3,4) i n5 len' by (simp add: take_Suc_conv_app_nth)
  have i1: "i + 1 \<le> n" using i by simp
  let ?R = "{1..n} - ?V'"
  note rest = placing_rest [OF u'(2) i1, unfolded V']
  have R: "set (map ((!) used') [i + 1..<n]) = ?R" using rest(2) by simp
  let ?cu = "cache ! (use_n - 1)"
  have cu: "entry_ok nl n b i use_n ?cu" "use_n = b \<or> path_num ?cu \<noteq> 0" "use_n = b \<longrightarrow> path_num ?cu = 0"
    using c un us by (auto simp: cache_ok_def settled_def)
  have k: "i < 5" using i n5 by simp
  have un1: "use_n \<in> {1..n}" using un by simp
  have pos: "\<forall>j\<in>set [i + 1..<n]. j < length used'" using rest(3) by blast
  have sub: "set (map ((!) used') [i + 1..<n]) \<subseteq> {1..n} - {use_n}" unfolding R by blast
  have ents: "\<forall>v\<in>set (map ((!) used') [i + 1..<n]). entry_ok nl n b i v (cache ! (v - 1))"
    unfolding R using c by (simp add: cache_ok_def)
  have lc: "length cache = 5" using c by (simp add: cache_ok_def)
  obtain cache' where r: "relax_all nl use_n used' [i + 1..<n] cache = Inr cache'" "length cache' = 5"
    "\<And>v. v \<in> {1..n} \<Longrightarrow> v \<notin> ?R \<Longrightarrow> cache' ! (v - 1) = cache ! (v - 1)"
    "\<And>v. v \<in> ?R \<Longrightarrow> entry_ok nl n b (Suc i) v (cache' ! (v - 1)) \<and>
       better nl use_n v ?cu (cache ! (v - 1)) (cache' ! (v - 1))"
    using relax_all_result [OF g b un1 k cu lc refl pos rest(1) sub ents] unfolding R by blast
  have VN: "?V' \<subseteq> {1..n}" using V' u'(2) i1 set_take_subset_set_take [of "i + 1" n used']
    by (metis placing_def)
  have same: "cache' ! (v - 1) = cache ! (v - 1)" if "v \<in> ?V'" for v using r(3) that VN by blast
  have bV': "b \<in> ?V'" using bV by blast
  have bR: "b \<notin> ?R" using bV' by blast
  have c': "cache_ok nl n b (i + 1) cache'"
    using relaxed_cache_ok [OF c r(2) bR r(3) b] r(4) by blast
  have V'': "\<forall>v\<in>?V'. settled nl n b cache' v" using V us same by (simp add: settled_def)
  have f': "frontier nl n cache' ?V'"
    using relaxed_frontier [OF f same] r(4) by blast
  have "nearest (\<lambda>u. weights_len (cache' ! (u - 1))) {} (- 1) 0" by (simp add: nearest_def)
  from min_node_result [OF r(2) n5 rest(3) this] rest(2) obtain m v where
    m: "min_node used' cache' [i + 1..<n] (- 1, 0) = Inr (m, v)"
    "nearest (\<lambda>u. weights_len (cache' ! (u - 1))) ?R m v" by auto
  have reach: "\<not> weights_len (cache' ! (w - 1)) \<le> 0 \<longleftrightarrow> path_num (cache' ! (w - 1)) \<noteq> 0" if "w \<in> {1..n}" for w
    using entry_reached(1) [of nl n b "i + 1" w "cache' ! (w - 1)"] c' that k by (auto simp: cache_ok_def)
  have sv: "v \<noteq> 0 \<Longrightarrow> settled nl n b cache' v"
    using nearest_settled [OF c' _ bV' V'' f' m(2)] k by simp
  have "if v = 0 then \<forall>u\<in>?R. path_num (cache' ! (u - 1)) = 0 else v \<in> ?R \<and> settled nl n b cache' v"
  proof (cases "v = 0")
    case True
    then have "\<forall>u\<in>?R. weights_len (cache' ! (u - 1)) \<le> 0" using m(2) by (auto simp: nearest_def)
    then show ?thesis using True reach by (metis DiffD1)
  next
    case False
    then show ?thesis using m(2) sv by (auto simp: nearest_def)
  qed
  then have "loop_inv nl n b (i + 1) v used' cache'"
    unfolding loop_inv_def V' Let_def using i1 u'(2) c' V'' f' bV' by blast
  then show ?thesis by (rule that [OF u'(1) r(1) m(1)])
qed

lemma visit_loop_result:
  assumes g: "graph_ok nl n" and b: "b \<in> {1..n}"
  shows "loop_inv nl n b i use_n used cache \<Longrightarrow>
    \<exists>cache' used' i'. visit_loop nl n [i..<n] use_n used cache = Inr cache' \<and>
      loop_inv nl n b i' 0 used' cache'"
proof (induction "n - i" arbitrary: i use_n used cache)
  case 0
  then have i: "i = n" by (simp add: loop_inv_def Let_def)
  then have "set (take i used) = {1..n}"
    using 0(2) by (simp add: loop_inv_def Let_def placing_def)
  then have "use_n = 0" using 0(2) by (auto simp: loop_inv_def Let_def split: if_splits)
  then show ?case using 0(2) i by auto
next
  case (Suc k)
  then have i: "i < n" by simp
  then have upt: "[i..<n] = i # [i + 1..<n]" by (simp add: upt_conv_Cons)
  show ?case
  proof (cases "use_n = 0")
    case True
    then show ?thesis using Suc.prems upt by auto
  next
    case False
    obtain used' cache' m v where r: "set_used_node_to_pos used n use_n i = Inr used'"
      "relax_all nl use_n used' [i + 1..<n] cache = Inr cache'"
      "min_node used' cache' [i + 1..<n] (- 1, 0) = Inr (m, v)"
      "loop_inv nl n b (i + 1) v used' cache'"
      by (rule visit_round [OF g b Suc.prems i False])
    have "k = n - (i + 1)" using Suc.hyps(2) by simp
    from Suc.hyps(1) [OF this r(4)] r(1-3) False show ?thesis unfolding upt by simp
  qed
qed

definition start_used :: "nat \<Rightarrow> nat list" where
  "start_used n = map (\<lambda>i. if i < n then i + 1 else 0) [0..<MAX_NODE_NUM]"

definition start_cache :: "path_cache list" where
  "start_cache = replicate MAX_NODE_NUM
     \<lparr>path_nodes = replicate MAX_NODE_NUM 0, path_num = 0, weights_len = 0\<rparr>"

lemma loop_inv_start:
  assumes g: "graph_ok nl n" and b: "b \<in> {1..n}"
  shows "loop_inv nl n b 0 b (start_used n) start_cache"
proof -
  have n: "n \<le> 5" using g by (simp add: graph_ok_def)
  have "take n (start_used n) = map Suc [0..<n]"
    using n by (intro nth_equalityI) (auto simp: start_used_def MAX_NODE_NUM_def)
  moreover have "set (map Suc [0..<n]) = {1..n}" by (auto simp: image_Suc_atLeastLessThan)
  ultimately have "placing n (start_used n)"
    using n by (simp add: placing_def start_used_def MAX_NODE_NUM_def distinct_map)
  moreover have nth: "start_cache ! (u - 1) = \<lparr>path_nodes = replicate 5 0, path_num = 0, weights_len = 0\<rparr>"
    if "u \<in> {1..n}" for u
  proof -
    have "u - 1 < 5" using that n by auto
    then show ?thesis by (simp add: start_cache_def MAX_NODE_NUM_def)
  qed
  then have "cache_ok nl n b 0 start_cache"
    using b by (simp add: cache_ok_def entry_ok_def path_of_def) (simp add: start_cache_def MAX_NODE_NUM_def)
  moreover have "settled nl n b start_cache b"
    using nth [OF b] walk_len_pos by (auto simp: settled_def)
  ultimately show ?thesis using b by (simp add: loop_inv_def frontier_def)
qed

text \<open>What holds when the search stops: what was reached is at its distance, and all that has a walk was
  reached.\<close>

lemma search_complete:
  assumes g: "graph_ok nl n" and inv: "loop_inv nl n b i 0 used cache" and b: "b \<in> {1..n}"
    and v: "v \<in> {1..n}"
  shows "(\<exists>xs. is_walk nl n b xs \<and> last (b # xs) = v) \<longleftrightarrow> v = b \<or> path_num (cache ! (v - 1)) \<noteq> 0"
    and "v = b \<or> path_num (cache ! (v - 1)) \<noteq> 0 \<Longrightarrow> settled nl n b cache v"
proof -
  let ?V = "set (take i used)"
  have k: "i \<le> 5" using inv g by (simp add: loop_inv_def Let_def graph_ok_def)
  have c: "cache_ok nl n b i cache" and f: "frontier nl n cache ?V" and bV: "b \<in> ?V"
    and V: "\<forall>v\<in>?V. settled nl n b cache v" and un: "\<forall>u\<in>{1..n} - ?V. path_num (cache ! (u - 1)) = 0"
    using inv b by (auto simp: loop_inv_def Let_def)
  have stay: "last (b # xs) \<in> ?V" if xs: "is_walk nl n b xs" for xs
  proof (rule ccontr)
    assume "last (b # xs) \<notin> ?V"
    then obtain ys w zs where w: "xs = ys @ w # zs" "last (b # ys) \<in> ?V" "w \<notin> ?V"
      using walk_first_exit [OF xs bV] by blast
    then have "w \<in> {1..n} - ?V" "weight_of nl (last (b # ys)) w > 0" using xs by auto
    then show False using f un w(2) by (auto simp: frontier_def)
  qed
  have inV: "v \<in> ?V" if a: "v = b \<or> path_num (cache ! (v - 1)) \<noteq> 0"
  proof (rule ccontr)
    assume out: "v \<notin> ?V"
    then have "path_num (cache ! (v - 1)) = 0" using un v by simp
    then show False using a bV out by simp
  qed
  show "(\<exists>xs. is_walk nl n b xs \<and> last (b # xs) = v) \<longleftrightarrow> v = b \<or> path_num (cache ! (v - 1)) \<noteq> 0"
  proof
    assume "\<exists>xs. is_walk nl n b xs \<and> last (b # xs) = v"
    then show "v = b \<or> path_num (cache ! (v - 1)) \<noteq> 0" using stay V by (auto simp: settled_def)
  next
    assume a: "v = b \<or> path_num (cache ! (v - 1)) \<noteq> 0"
    have e: "entry_ok nl n b i v (cache ! (v - 1))" using c v by (simp add: cache_ok_def)
    show "\<exists>xs. is_walk nl n b xs \<and> last (b # xs) = v"
    proof (cases "v = b")
      case True
      then show ?thesis by (intro exI [of _ "[]"]) simp
    next
      case False
      with a e k have "path_of (cache ! (v - 1)) \<noteq> []"
        by (cases "path_nodes (cache ! (v - 1))") (auto simp: entry_ok_def path_of_def)
      then show ?thesis using a e False
        by (intro exI [of _ "path_of (cache ! (v - 1))"]) (auto simp: entry_ok_def)
    qed
  qed
  show "v = b \<or> path_num (cache ! (v - 1)) \<noteq> 0 \<Longrightarrow> settled nl n b cache v" using inV V by blast
qed

section \<open>Properties\<close>

text \<open>C8: \<open>dijkstra_get_path\<close> finds shortest paths. On a node list whose weights cannot overflow, between two
  different nodes of it: if a walk exists, the result is the length of a shortest one, with the nodes of
  one behind the begin node; otherwise the answer is -1. No access leaves an array.\<close>

theorem dijkstra_shortest_path:
  assumes "graph_ok nl (unat (d_len nl))" and "b \<in> {1..unat (d_len nl)}" and "e \<in> {1..unat (d_len nl)}"
    and "b \<noteq> e"
  shows "(\<exists>c. dijkstra_get_path (Some nl) b e = Inr (0, Some c) \<and>
      is_walk nl (unat (d_len nl)) b (path_of c) \<and> last (path_of c) = e \<and>
      walk_len nl b (path_of c) = weights_len c \<and>
      (\<forall>xs. is_walk nl (unat (d_len nl)) b xs \<and> last (b # xs) = e \<longrightarrow> weights_len c \<le> walk_len nl b xs)) \<or>
    (dijkstra_get_path (Some nl) b e = Inr (- 1, None) \<and>
      (\<forall>xs. is_walk nl (unat (d_len nl)) b xs \<longrightarrow> last (b # xs) \<noteq> e))"
proof -
  let ?n = "unat (d_len nl)"
  have n: "?n \<le> 5" using assms(1) by (simp add: graph_ok_def)
  obtain cache used i where r: "visit_loop nl ?n [0..<?n] b (start_used ?n) start_cache = Inr cache"
    "loop_inv nl ?n b i 0 used cache"
    using visit_loop_result [OF assms(1,2) loop_inv_start [OF assms(1,2)]] by blast
  have c: "cache_ok nl ?n b i cache" "i \<le> 5" using r(2) n by (auto simp: loop_inv_def Let_def)
  let ?c = "cache ! (e - 1)"
  have ok: "entry_ok nl ?n b i e ?c" using c(1) assms(3) by (simp add: cache_ok_def)
  have "e - 1 < length cache" using c(1) assms(3) n by (auto simp: cache_ok_def)
  then have run: "dijkstra_get_path (Some nl) b e =
      (if weights_len ?c = 0 then Inr (- 1, None) else Inr (0, Some ?c))"
    using r(1) assms(2,3) n
    by (simp add: dijkstra_get_path_def Let_def arr_def min_absorb2 MAX_NODE_NUM_def
        start_used_def [unfolded MAX_NODE_NUM_def] start_cache_def [unfolded MAX_NODE_NUM_def])
  note sc = search_complete [OF assms(1) r(2) assms(2,3)]
  have reach: "weights_len ?c \<noteq> 0 \<longleftrightarrow> path_num ?c \<noteq> 0" using entry_reached [OF ok c(2)] by auto
  show ?thesis
  proof (cases "weights_len ?c = 0")
    case True
    then have "\<not> (\<exists>xs. is_walk nl ?n b xs \<and> last (b # xs) = e)" using sc(1) reach assms(4) by auto
    then show ?thesis using run True by auto
  next
    case False
    then have "settled nl ?n b cache e" using sc(2) reach by simp
    then show ?thesis using run False ok reach by (auto simp: settled_def entry_ok_def)
  qed
qed

lemma load_nodes_result:
  assumes "length node_data = 5" "length (d_nodes nl) = 5"
  shows "n \<le> 5 \<Longrightarrow> \<exists>nl'. load_nodes node_data [0..<n] nl = Inr nl' \<and> length (d_nodes nl') = 5 \<and>
    d_len nl' = d_len nl + of_nat n \<and> take n (d_nodes nl') = take n node_data"
proof (induction n)
  case (Suc n)
  have append: "load_nodes node_data (xs @ ys) m = bind_res (load_nodes node_data xs m) (load_nodes node_data ys)" for xs ys m
    by (induction xs arbitrary: m) (auto simp: arr_def arr_set_def)
  obtain nl1 where nl1: "load_nodes node_data [0..<n] nl = Inr nl1" "length (d_nodes nl1) = 5"
    "d_len nl1 = d_len nl + of_nat n" "take n (d_nodes nl1) = take n node_data"
    using Suc by auto
  then show ?case using Suc.prems assms
    by (simp add: append arr_def arr_set_def take_Suc_conv_app_nth)
qed (use assms in simp)

text \<open>The node list is never reset. Loading five nodes twice leaves a length of ten for an array of five,
  so the check of the node numbers lets node 6 through and the search reads behind the array.\<close>

theorem load_twice_overruns:
  assumes "length node_data = 5" and "length (d_nodes nl) = 5" and "d_len nl = 0"
  shows "\<exists>nl1 nl2. dijkstra_list_load_data (Some node_data) 5 (Some nl) = Inr (0, Some nl1) \<and>
    dijkstra_list_load_data (Some node_data) 5 (Some nl1) = Inr (0, Some nl2) \<and> d_len nl2 = 10 \<and>
    d_nodes nl2 = node_data \<and> dijkstra_get_path (Some nl2) 6 1 = Inl OutOfBounds"
proof -
  obtain nl1 where nl1: "load_nodes node_data [0..<5] nl = Inr nl1" "length (d_nodes nl1) = 5" "d_len nl1 = 5"
    using load_nodes_result [OF assms(1,2), of 5] assms(3) by auto
  obtain nl2 where nl2: "load_nodes node_data [0..<5] nl1 = Inr nl2" "length (d_nodes nl2) = 5" "d_len nl2 = 10"
    "take 5 (d_nodes nl2) = take 5 node_data"
    using load_nodes_result [OF assms(1) nl1(2), of 5] nl1(3) by auto
  have "dijkstra_get_path (Some nl2) 6 1 = Inl OutOfBounds"
    using nl2(2,3)
    by (simp add: dijkstra_get_path_def Let_def MAX_NODE_NUM_def upt_rec set_used_node_to_pos_def arr_def
        relax_def)
  then show ?thesis
    using nl1 nl2 assms(1) by (simp add: dijkstra_list_load_data_def MAX_NODE_NUM_def)
qed

section \<open>Witnesses\<close>

definition ex_graph :: node_list where
  "ex_graph = \<lparr>d_nodes = [\<lparr>d_id = 1, d_weight = [0, 4, 7, 0, 0]\<rparr>, \<lparr>d_id = 2, d_weight = [0, 0, 1, 0, 0]\<rparr>,
     \<lparr>d_id = 3, d_weight = [0, 0, 0, 0, 0]\<rparr>, \<lparr>d_id = 0, d_weight = [0, 0, 0, 0, 0]\<rparr>,
     \<lparr>d_id = 0, d_weight = [0, 0, 0, 0, 0]\<rparr>], d_len = 3\<rparr>"

lemma ex_graph_ok: "graph_ok ex_graph 3"
proof -
  have "{1..3} = {1, 2, 3 :: nat}" by auto
  then show ?thesis by (simp add: graph_ok_def weight_of_def ex_graph_def)
qed

theorem dijkstra_shortest_path_witness:
  "\<exists>c. dijkstra_get_path (Some ex_graph) 1 3 = Inr (0, Some c) \<and> weights_len c \<le> 5"
proof -
  have n: "unat (d_len ex_graph) = 3" by (simp add: ex_graph_def)
  have w: "is_walk ex_graph 3 1 [2, 3]" "walk_len ex_graph 1 [2, 3] = 5"
    by (simp_all add: weight_of_def ex_graph_def)
  have l: "last (1 # [2, 3]) = (3 :: nat)" by simp
  have b: "1 \<in> {1..3 :: nat}" "3 \<in> {1..3 :: nat}" "1 \<noteq> (3 :: nat)" by simp_all
  from dijkstra_shortest_path [of ex_graph 1 3, unfolded n, OF ex_graph_ok b] show ?thesis
  proof
    assume "\<exists>c. dijkstra_get_path (Some ex_graph) 1 3 = Inr (0, Some c) \<and> is_walk ex_graph 3 1 (path_of c) \<and>
      last (path_of c) = 3 \<and> walk_len ex_graph 1 (path_of c) = weights_len c \<and>
      (\<forall>xs. is_walk ex_graph 3 1 xs \<and> last (1 # xs) = 3 \<longrightarrow> weights_len c \<le> walk_len ex_graph 1 xs)"
    then show ?thesis using w l by metis
  next
    assume "dijkstra_get_path (Some ex_graph) 1 3 = Inr (- 1, None) \<and>
      (\<forall>xs. is_walk ex_graph 3 1 xs \<longrightarrow> last (1 # xs) \<noteq> 3)"
    then show ?thesis using w(1) l by blast
  qed
qed

theorem load_twice_overruns_witness:
  "\<exists>nl1 nl2. dijkstra_list_load_data (Some (d_nodes ex_graph)) 5 (Some (ex_graph\<lparr>d_len := 0\<rparr>)) = Inr (0, Some nl1) \<and>
    dijkstra_list_load_data (Some (d_nodes ex_graph)) 5 (Some nl1) = Inr (0, Some nl2) \<and> d_len nl2 = 10 \<and>
    d_nodes nl2 = d_nodes ex_graph \<and> dijkstra_get_path (Some nl2) 6 1 = Inl OutOfBounds"
  by (rule load_twice_overruns) (simp_all add: ex_graph_def)

end
