(* ===== verification/HS_Config.thy ===== *)
theory HS_Config
  imports HS_Prelude "HOL-Library.Sublist" Complex_Main
begin

text \<open>
  \<open>HSConfigReader.h\<close>: reading tables from delimited text. A row is a list of strings; the reader keeps a
  header row and the data rows; \<open>HSConfigFile\<close> finds rows by key and fields by header name. A file is
  its contents, or \<open>None\<close> when it cannot be opened. Positions are natural numbers where they come from
  \<open>find\<close>; the differences that the code computes with \<open>size_t\<close> are words and wrap. The loop over a line
  is a partial function. C strings are the strings they point into: text with a NUL is not modelled.

  The conversion of a string to a key is an argument of the functions on \<open>HSConfigFile\<close>, as the template
  parameter \<open>HSKeyTraits\<close> is in the code; \<open>atoi\<close> is written out, \<open>atof\<close> is an argument of \<open>ToDoubleValue\<close>.
\<close>

section \<open>Strings\<close>

fun find_sub :: "string \<Rightarrow> string \<Rightarrow> nat option" where
  "find_sub pat [] = (if pat = [] then Some 0 else None)"
| "find_sub pat (x # xs) = (if prefix pat (x # xs) then Some 0 else map_option Suc (find_sub pat xs))"

definition str_find :: "string \<Rightarrow> string \<Rightarrow> nat \<Rightarrow> nat option" where
  "str_find s pat off =
     (if off > length s then None else map_option ((+) off) (find_sub pat (drop off s)))"

definition substr :: "string \<Rightarrow> nat \<Rightarrow> size_t \<Rightarrow> string" where
  "substr s off n = take (unat n) (drop off s)"

definition newline :: char where "newline = CHR 0x0A"

definition carriage_return :: char where "carriage_return = CHR 0x0D"

section \<open>HSConfigReader\<close>

record config_reader =
  header_rows :: int
  key_row_index :: int
  delimiters :: string
  header_row :: "string list"
  data_rows :: "string list list"

definition HSConfigReader_new :: "int \<Rightarrow> int \<Rightarrow> string \<Rightarrow> config_reader" where
  "HSConfigReader_new rows key_index delims =
     \<lparr>header_rows = rows, key_row_index = key_index, delimiters = delims, header_row = [], data_rows = []\<rparr>"

text \<open>The rows: a list of strings.\<close>

definition row_Clear :: "string list \<Rightarrow> string list" where
  "row_Clear row = []"

definition GetFieldSize :: "string list \<Rightarrow> nat" where
  "GetFieldSize row = length row"

definition row_PushValue :: "string list \<Rightarrow> string \<Rightarrow> string list" where
  "row_PushValue row v = row @ [v]"

text \<open>\<open>DataRow::GetFieldByIndex\<close>: \<open>None\<close> is the null pointer.\<close>

definition GetFieldByIndex :: "string list \<Rightarrow> u32 \<Rightarrow> string option res" where
  "GetFieldByIndex row index =
     (if index > of_nat (length row) - 1 then Inr None
      else if unat index < length row then Inr (Some (row ! unat index))
      else Inl OutOfBounds)"

definition GetReaderRow :: "config_reader \<Rightarrow> size_t \<Rightarrow> string list option res" where
  "GetReaderRow r index =
     (if index > of_nat (length (data_rows r)) - 1 then Inr None
      else if unat index < length (data_rows r) then Inr (Some (data_rows r ! unat index))
      else Inl OutOfBounds)"

partial_function (option) row_loop ::
  "string \<Rightarrow> string \<Rightarrow> nat \<Rightarrow> string list \<Rightarrow> (bool \<times> string list) option" where
  [code]: "row_loop delims line offset row =
     (case str_find line delims offset of
        None \<Rightarrow>
          Some (True,
            if length line > offset then
              (case (case str_find line [newline] offset of
                       None \<Rightarrow> str_find line [carriage_return] offset | Some r \<Rightarrow> Some r) of
                 None \<Rightarrow> row
               | Some r \<Rightarrow> row @ [substr line offset (of_nat r - 1 - of_nat offset + 1)])
            else row)
      | Some r \<Rightarrow>
          if (of_nat r - 1 :: size_t) \<ge> of_nat offset then
            row_loop delims line (r + length delims)
              (row @ [substr line offset (of_nat r - of_nat (length delims) - of_nat offset + 1)])
          else Some (False, row))"

definition CreateDataRow :: "config_reader \<Rightarrow> string \<Rightarrow> string list \<Rightarrow> (bool \<times> string list) option" where
  "CreateDataRow r line row = row_loop (delimiters r) line 0 row"

text \<open>The lines that \<open>getline\<close> delivers before it meets the end of the file: those ended by a newline.\<close>

fun lines_from :: "string \<Rightarrow> string \<Rightarrow> string list" where
  "lines_from acc [] = []"
| "lines_from acc (c # cs) =
     (if c = newline then acc # lines_from [] cs else lines_from (acc @ [c]) cs)"

fun load_lines :: "config_reader \<Rightarrow> int \<Rightarrow> string list \<Rightarrow> config_reader option" where
  "load_lines r count [] = Some r"
| "load_lines r count (line # lines) =
     (if count < header_rows r then
        (if count = key_row_index r then
           Option.bind (CreateDataRow r line (header_row r)) (\<lambda>(ok, row).
             load_lines (r\<lparr>header_row := row\<rparr>) (count + 1) lines)
         else load_lines r (count + 1) lines)
      else
        Option.bind (CreateDataRow r line []) (\<lambda>(ok, row).
          load_lines (r\<lparr>data_rows := data_rows r @ [row]\<rparr>) count lines))"

definition LoadConfig :: "config_reader \<Rightarrow> string option \<Rightarrow> (bool \<times> config_reader) option" where
  "LoadConfig r file =
     (case file of
        None \<Rightarrow> Some (False, r)
      | Some text \<Rightarrow> Option.bind (load_lines r 0 (lines_from [] text)) (\<lambda>r. Some (True, r)))"

definition reader_Clear :: "config_reader \<Rightarrow> config_reader" where
  "reader_Clear r = r\<lparr>header_row := [], data_rows := []\<rparr>"

definition ReloadConfig :: "config_reader \<Rightarrow> string option \<Rightarrow> (bool \<times> config_reader) option" where
  "ReloadConfig r file = LoadConfig (reader_Clear r) file"

section \<open>HSValue\<close>

fun digits :: "int \<Rightarrow> string \<Rightarrow> int" where
  "digits acc [] = acc"
| "digits acc (c # cs) =
     (if of_char c \<ge> (48 :: int) \<and> of_char c \<le> (57 :: int) then digits (acc * 10 + (of_char c - 48)) cs else acc)"

definition is_space :: "char \<Rightarrow> bool" where
  "is_space c \<longleftrightarrow> of_char c = (32 :: int) \<or> ((9 :: int) \<le> of_char c \<and> of_char c \<le> (13 :: int))"

text \<open>\<open>atoi\<close> and \<open>atol\<close>; a number outside the type is undefined in C, the model keeps it.\<close>

definition atoi :: "string \<Rightarrow> int" where
  "atoi s =
     (case dropWhile is_space s of
        [] \<Rightarrow> 0
      | c # cs \<Rightarrow> if c = CHR ''-'' then - digits 0 cs else if c = CHR ''+'' then digits 0 cs
                   else digits 0 (c # cs))"

record hs_value =
  seted :: bool
  int_value :: int
  double_value :: real
  long_value :: int
  longlong_value :: int
  str_value :: string

definition HSValue_new :: "string \<Rightarrow> hs_value" where
  "HSValue_new s =
     \<lparr>seted = False, int_value = 0, double_value = 0, long_value = 0, longlong_value = 0, str_value = s\<rparr>"

definition ToIntegelValue :: "hs_value \<Rightarrow> int \<times> hs_value" where
  "ToIntegelValue v =
     (let v = (if \<not> seted v then v\<lparr>int_value := atoi (str_value v), seted := True\<rparr> else v) in
      (int_value v, v))"

definition ToDoubleValue :: "(string \<Rightarrow> real) \<Rightarrow> hs_value \<Rightarrow> real \<times> hs_value" where
  "ToDoubleValue atof v =
     (let v = (if \<not> seted v then v\<lparr>double_value := atof (str_value v), seted := True\<rparr> else v) in
      (double_value v, v))"

definition ToLongValue :: "hs_value \<Rightarrow> int \<times> hs_value" where
  "ToLongValue v =
     (let v = (if \<not> seted v then v\<lparr>long_value := atoi (str_value v), seted := True\<rparr> else v) in
      (long_value v, v))"

definition ToLonglongValue :: "hs_value \<Rightarrow> int" where
  "ToLonglongValue v = longlong_value v"

definition AsBool :: "hs_value \<Rightarrow> bool \<times> hs_value" where
  "AsBool v = (case ToIntegelValue v of (i, v) \<Rightarrow> (i \<noteq> 0, v))"

definition AsShort :: "hs_value \<Rightarrow> int \<times> hs_value" where
  "AsShort v = (case ToIntegelValue v of (i, v) \<Rightarrow> (sint (of_int i :: 16 word), v))"

definition AsUshort :: "hs_value \<Rightarrow> int \<times> hs_value" where
  "AsUshort v = (case ToIntegelValue v of (i, v) \<Rightarrow> (uint (of_int i :: 16 word), v))"

definition AsUint :: "hs_value \<Rightarrow> int \<times> hs_value" where
  "AsUint v = (case ToIntegelValue v of (i, v) \<Rightarrow> (uint (of_int i :: 32 word), v))"

section \<open>HSConfigFile\<close>

record 'k config_file =
  reader :: config_reader
  key_field :: string
  header2index :: "string \<rightharpoonup> nat"
  key2index :: "'k \<rightharpoonup> nat"

text \<open>The constructor assigns the C string to a \<open>std::string\<close>; \<open>None\<close> is the null pointer.\<close>

definition HSConfigFile_new :: "string option \<Rightarrow> 'k config_file res" where
  "HSConfigFile_new key =
     (case key of
        None \<Rightarrow> Inl NullDeref
      | Some k \<Rightarrow> Inr \<lparr>reader = HSConfigReader_new 1 0 '','', key_field = k,
          header2index = Map.empty, key2index = Map.empty\<rparr>)"

definition insert_new :: "('a \<rightharpoonup> 'b) \<Rightarrow> 'a \<Rightarrow> 'b \<Rightarrow> ('a \<rightharpoonup> 'b)" where
  "insert_new m k v = (case m k of None \<Rightarrow> m(k \<mapsto> v) | Some _ \<Rightarrow> m)"

fun index_header ::
  "string \<Rightarrow> string list \<Rightarrow> nat list \<Rightarrow> nat \<times> (string \<rightharpoonup> nat) \<Rightarrow> (nat \<times> (string \<rightharpoonup> nat)) res" where
  "index_header key row [] acc = Inr acc"
| "index_header key row (i # is) (key_index, m) =
     bind_res (GetFieldByIndex row (of_nat i)) (\<lambda>field.
       case field of
         None \<Rightarrow> index_header key row is (key_index, m)
       | Some s \<Rightarrow> index_header key row is (if s = key then i else key_index, insert_new m s i))"

fun index_rows ::
  "(string \<Rightarrow> 'k) \<Rightarrow> config_reader \<Rightarrow> nat \<Rightarrow> nat list \<Rightarrow> ('k \<rightharpoonup> nat) \<Rightarrow> ('k \<rightharpoonup> nat) res" where
  "index_rows to_key r key_index [] m = Inr m"
| "index_rows to_key r key_index (i # is) m =
     bind_res (GetReaderRow r (of_nat i)) (\<lambda>pd.
       case pd of
         None \<Rightarrow> index_rows to_key r key_index is m
       | Some row \<Rightarrow>
           bind_res (GetFieldByIndex row (of_nat key_index)) (\<lambda>key.
             case key of
               None \<Rightarrow> index_rows to_key r key_index is m
             | Some k \<Rightarrow> index_rows to_key r key_index is (insert_new m (to_key k) i)))"

definition Load ::
  "(string \<Rightarrow> 'k) \<Rightarrow> 'k config_file \<Rightarrow> string option \<Rightarrow> (bool \<times> 'k config_file) res option" where
  "Load to_key f file =
     (case LoadConfig (reader f) file of
        None \<Rightarrow> None
      | Some (False, r) \<Rightarrow> Some (Inr (False, f\<lparr>reader := r\<rparr>))
      | Some (True, r) \<Rightarrow>
          Some (
            bind_res (index_header (key_field f) (header_row r) [0..<length (header_row r)]
                       (0, header2index f)) (\<lambda>(key_index, hm).
            bind_res (index_rows to_key r key_index [0..<length (data_rows r)] (key2index f)) (\<lambda>km.
            Inr (True, f\<lparr>reader := r, header2index := hm, key2index := km\<rparr>)))))"

definition file_Clear :: "'k config_file \<Rightarrow> 'k config_file" where
  "file_Clear f = f\<lparr>reader := reader_Clear (reader f), header2index := Map.empty, key2index := Map.empty\<rparr>"

definition Reload ::
  "(string \<Rightarrow> 'k) \<Rightarrow> 'k config_file \<Rightarrow> string option \<Rightarrow> (bool \<times> 'k config_file) res option" where
  "Reload to_key f file = Load to_key (file_Clear f) file"

definition SetKeyField :: "'k config_file \<Rightarrow> string option \<Rightarrow> 'k config_file" where
  "SetKeyField f key = (case key of None \<Rightarrow> f | Some k \<Rightarrow> f\<lparr>key_field := k\<rparr>)"

text \<open>The lookups without the cache of row objects; \<open>HS_ConfigRows\<close> adds the cache and shows that it does not
  change the answers.\<close>

definition GetFileRow :: "'k config_file \<Rightarrow> 'k \<Rightarrow> string list option res" where
  "GetFileRow f key =
     (case key2index f key of None \<Rightarrow> Inr None | Some i \<Rightarrow> GetReaderRow (reader f) (of_nat i))"

definition GetValue :: "'k config_file \<Rightarrow> string list \<Rightarrow> string \<Rightarrow> string option res" where
  "GetValue f row field =
     (case header2index f field of None \<Rightarrow> Inr None | Some i \<Rightarrow> GetFieldByIndex row (of_nat i))"

definition GetData :: "'k config_file \<Rightarrow> 'k \<Rightarrow> string \<Rightarrow> string option res" where
  "GetData f key field =
     bind_res (GetFileRow f key) (\<lambda>row.
       case row of None \<Rightarrow> Inr None | Some row \<Rightarrow> GetValue f row field)"

text \<open>A row object fills its vector of values on the first use; \<open>vals\<close> is that vector, a returned value the
  element that the pointer addresses.\<close>

definition GetHSValue ::
  "'k config_file \<Rightarrow> string list \<Rightarrow> hs_value list \<Rightarrow> string \<Rightarrow> (hs_value option \<times> hs_value list) res" where
  "GetHSValue f row vals field =
     (let vals = (if vals = [] \<and> row \<noteq> [] then map HSValue_new row else vals) in
      case header2index f field of
        None \<Rightarrow> Inr (None, vals)
      | Some i \<Rightarrow>
          if (of_nat i :: size_t) > of_nat (length vals) - 1 then Inr (None, vals)
          else if unat (of_nat i :: size_t) < length vals then Inr (Some (vals ! unat (of_nat i :: size_t)), vals)
          else Inl OutOfBounds)"

text \<open>\<open>HSKeyTraits\<close> for the key types \<open>int\<close> and \<open>string\<close>.\<close>

definition key_int :: "string \<Rightarrow> int" where
  "key_int s = atoi s"

definition key_string :: "string \<Rightarrow> string" where
  "key_string s = s"

section \<open>Reading one line\<close>

text \<open>How a row has to be written for the reader: every field ended by the delimiter.\<close>

definition row_line :: "char \<Rightarrow> string list \<Rightarrow> string" where
  "row_line d fs = concat (map (\<lambda>f. f @ [d]) fs)"

text \<open>Fields without delimiter or line end, only the first of them possibly empty.\<close>

definition fields_ok :: "char \<Rightarrow> string list \<Rightarrow> bool" where
  "fields_ok d fs \<longleftrightarrow> (\<forall>f\<in>set fs. d \<notin> set f \<and> newline \<notin> set f) \<and> [] \<notin> set (tl fs)"

lemma find_sub_char:
  "d \<notin> set f \<Longrightarrow> find_sub [d] (f @ d # rest) = Some (length f)"
  "d \<notin> set f \<Longrightarrow> find_sub [d] f = None"
  by (induction f) auto

lemma row_loop_fields:
  "length (pre @ row_line d fs @ rest) < 2 ^ 32 \<Longrightarrow> \<forall>f\<in>set fs. d \<notin> set f \<Longrightarrow>
   (if pre = [] then [] \<notin> set (tl fs) else [] \<notin> set fs) \<Longrightarrow>
   {d, newline, carriage_return} \<inter> set rest = {} \<Longrightarrow>
   row_loop [d] (pre @ row_line d fs @ rest) (length pre) row = Some (True, row @ fs)"
proof (induction fs arbitrary: pre row)
  case Nil
  then have n: "find_sub [d] rest = None" "find_sub [newline] rest = None"
    "find_sub [carriage_return] rest = None" by (auto intro: find_sub_char(2))
  then show ?case
    by (subst row_loop.simps) (simp add: row_line_def str_find_def)
next
  case (Cons f fs)
  let ?line = "pre @ row_line d (f # fs) @ rest"
  let ?r = "length pre + length f"
  have line: "?line = (pre @ f @ [d]) @ row_line d fs @ rest" by (simp add: row_line_def)
  have small: "?r < 2 ^ 32" using Cons.prems(1) by (simp add: row_line_def)
  have "d \<notin> set f" using Cons.prems(2) by simp
  then have fnd: "str_find ?line [d] (length pre) = Some ?r"
    by (simp add: str_find_def row_line_def find_sub_char(1))
  have guard: "(of_nat ?r - 1 :: size_t) \<ge> of_nat (length pre)"
  proof (cases "?r = 0")
    case True
    then have "of_nat (length pre) = (0 :: size_t)" by simp
    then show ?thesis by (metis word_zero_le)
  next
    case False
    have "f \<noteq> []" using Cons.prems(3) False by (cases "pre = []") auto
    then have le: "length pre \<le> ?r - 1" by (cases f) simp_all
    have "1 \<le> ?r" using False by linarith
    then have "(of_nat ?r - 1 :: size_t) = of_nat (?r - 1)" by (subst of_nat_diff) simp_all
    then show ?thesis
      using le small by (simp only: word_le_nat_alt) (simp add: unat_of_nat_small del: of_nat_diff)
  qed
  have n: "of_nat ?r - of_nat (length [d]) - of_nat (length pre) + 1 = (of_nat (length f) :: size_t)"
    by simp
  have sub: "substr ?line (length pre) (of_nat (length f)) = f"
    using small by (simp add: substr_def row_line_def unat_of_nat_small)
  have "row_loop [d] ?line (length pre) row = row_loop [d] ?line (?r + 1) (row @ [f])"
    using fnd guard by (subst row_loop.simps) (simp only: option.case if_True n sub, simp)
  also have "\<dots> = row_loop [d] ((pre @ f @ [d]) @ row_line d fs @ rest) (length (pre @ f @ [d])) (row @ [f])"
    by (simp add: line)
  also have "\<dots> = Some (True, (row @ [f]) @ fs)"
    by (rule Cons.IH) (use Cons.prems line in \<open>auto split: if_splits\<close>)
  finally show ?case by simp
qed

lemma CreateDataRow_fields:
  assumes "delimiters r = [d]" "fields_ok d fs" "length (row_line d fs @ rest) < 2 ^ 32"
    and "{d, newline, carriage_return} \<inter> set rest = {}"
  shows "CreateDataRow r (row_line d fs @ rest) row = Some (True, row @ fs)"
  using row_loop_fields [of "[]" d fs rest row] assms by (auto simp: CreateDataRow_def fields_ok_def)

section \<open>Reading a whole file\<close>

lemma lines_from_line:
  "newline \<notin> set l \<Longrightarrow> lines_from acc (l @ newline # cs) = (acc @ l) # lines_from [] cs"
  by (induction l arbitrary: acc) auto

lemma lines_from_tail: "newline \<notin> set l \<Longrightarrow> lines_from acc l = []"
  by (induction l arbitrary: acc) auto

lemma lines_from_lines:
  "\<forall>l\<in>set ls. newline \<notin> set l \<Longrightarrow> newline \<notin> set tail \<Longrightarrow>
   lines_from [] (concat (map (\<lambda>l. l @ [newline]) ls) @ tail) = ls"
  by (induction ls) (simp_all add: lines_from_line lines_from_tail)

definition table_text :: "char \<Rightarrow> string list list \<Rightarrow> string" where
  "table_text d rows = concat (map (\<lambda>r. row_line d r @ [newline]) rows)"

lemma newline_row_line: "d \<noteq> newline \<Longrightarrow> fields_ok d fs \<Longrightarrow> newline \<notin> set (row_line d fs)"
  by (auto simp: row_line_def fields_ok_def)

lemma lines_from_table:
  assumes "d \<noteq> newline" "\<forall>r\<in>set rows. fields_ok d r" "newline \<notin> set tail"
  shows "lines_from [] (table_text d rows @ tail) = map (row_line d) rows"
  using lines_from_lines [of "map (row_line d) rows" tail] newline_row_line [OF assms(1)] assms(2,3)
  by (simp add: table_text_def comp_def)

lemma load_lines_rows:
  "delimiters r = [d] \<Longrightarrow> \<not> count < header_rows r \<Longrightarrow>
   \<forall>fs\<in>set rows. fields_ok d fs \<and> length (row_line d fs) < 2 ^ 32 \<Longrightarrow>
   load_lines r count (map (row_line d) rows) = Some (r\<lparr>data_rows := data_rows r @ rows\<rparr>)"
proof (induction rows arbitrary: r)
  case (Cons fs rows)
  have "CreateDataRow r (row_line d fs) [] = Some (True, fs)"
    using CreateDataRow_fields [of r d fs "[]" "[]"] Cons.prems by simp
  then show ?case using Cons.IH [of "r\<lparr>data_rows := data_rows r @ [fs]\<rparr>"] Cons.prems by simp
qed simp

lemma LoadConfig_table:
  assumes "d \<noteq> newline" "\<forall>r\<in>set (hs # rows). fields_ok d r \<and> length (row_line d r) < 2 ^ 32"
    and "newline \<notin> set tail"
  shows "LoadConfig (HSConfigReader_new 1 0 [d]) (Some (table_text d (hs # rows) @ tail)) =
    Some (True, \<lparr>header_rows = 1, key_row_index = 0, delimiters = [d], header_row = hs, data_rows = rows\<rparr>)"
proof -
  let ?r = "HSConfigReader_new 1 0 [d]"
  have "CreateDataRow ?r (row_line d hs) [] = Some (True, hs)"
    using CreateDataRow_fields [of ?r d hs "[]" "[]"] assms(2) by (simp add: HSConfigReader_new_def)
  then have "load_lines ?r 0 (map (row_line d) (hs # rows)) =
      load_lines (?r\<lparr>header_row := hs\<rparr>) 1 (map (row_line d) rows)"
    by (simp add: HSConfigReader_new_def)
  also have "\<dots> = Some ((?r\<lparr>header_row := hs\<rparr>)\<lparr>data_rows := rows\<rparr>)"
    using load_lines_rows [of "?r\<lparr>header_row := hs\<rparr>" d 1 rows] assms(2)
    by (simp add: HSConfigReader_new_def)
  finally show ?thesis
    using lines_from_table [OF assms(1) _ assms(3), of "hs # rows"] assms(2)
    by (simp add: LoadConfig_def HSConfigReader_new_def)
qed

section \<open>The indexes\<close>

lemma in_range:
  assumes "i < n" "n < 2 ^ 32"
  shows "unat (of_nat i :: u32) = i" "\<not> (of_nat i :: u32) > of_nat n - 1"
proof -
  show u: "unat (of_nat i :: u32) = i" using assms by (simp add: unat_of_nat_small)
  have "(of_nat n - 1 :: u32) = of_nat (n - 1)" using assms(1) by (simp add: of_nat_diff)
  then show "\<not> (of_nat i :: u32) > of_nat n - 1"
    using assms u by (simp only: word_less_nat_alt) (simp add: unat_of_nat_small del: of_nat_diff)
qed

lemma GetFieldByIndex_in:
  "i < length row \<Longrightarrow> length row < 2 ^ 32 \<Longrightarrow> GetFieldByIndex row (of_nat i) = Inr (Some (row ! i))"
  using in_range [of i "length row"] by (simp add: GetFieldByIndex_def)

lemma GetHSValue_in:
  "header2index f s = Some i \<Longrightarrow> i < length row \<Longrightarrow> length row < 2 ^ 32 \<Longrightarrow>
   GetHSValue f row [] s = Inr (Some (HSValue_new (row ! i)), map HSValue_new row)"
  using in_range [of i "length row"] by (auto simp: GetHSValue_def Let_def)

lemma GetFieldByIndex_empty: "GetFieldByIndex [] i = Inl OutOfBounds"
  by (simp add: GetFieldByIndex_def not_less)

lemma GetReaderRow_in:
  "i < length (data_rows r) \<Longrightarrow> length (data_rows r) < 2 ^ 32 \<Longrightarrow>
   GetReaderRow r (of_nat i) = Inr (Some (data_rows r ! i))"
  using in_range [of i "length (data_rows r)"] by (simp add: GetReaderRow_def)

lemma index_header_result:
  "length row < 2 ^ 32 \<Longrightarrow> distinct row \<Longrightarrow> set is \<subseteq> {..<length row} \<Longrightarrow> distinct is \<Longrightarrow>
   \<forall>i\<in>set is. m (row ! i) = None \<Longrightarrow>
   \<exists>k' m'. index_header key row is (k, m) = Inr (k', m') \<and>
     (\<forall>i\<in>set is. m' (row ! i) = Some i \<and> (row ! i = key \<longrightarrow> k' = i)) \<and>
     (\<forall>s. s \<notin> (!) row ` set is \<longrightarrow> m' s = m s) \<and> (key \<notin> (!) row ` set is \<longrightarrow> k' = k)"
proof (induction "is" arbitrary: k m)
  case (Cons i "is")
  let ?k = "if row ! i = key then i else k" and ?m = "m(row ! i \<mapsto> i)"
  have i: "i < length row" using Cons.prems(3) by simp
  have diff: "row ! j \<noteq> row ! i" if "j \<in> set is" for j
    using that Cons.prems(2-4) by (auto simp: nth_eq_iff_index_eq)
  have "\<exists>k' m'. index_header key row is (?k, ?m) = Inr (k', m') \<and>
      (\<forall>j\<in>set is. m' (row ! j) = Some j \<and> (row ! j = key \<longrightarrow> k' = j)) \<and>
      (\<forall>s. s \<notin> (!) row ` set is \<longrightarrow> m' s = ?m s) \<and> (key \<notin> (!) row ` set is \<longrightarrow> k' = ?k)"
    by (rule Cons.IH) (use Cons.prems diff in auto)
  then obtain k' m' where ih: "index_header key row is (?k, ?m) = Inr (k', m')"
    "\<forall>j\<in>set is. m' (row ! j) = Some j \<and> (row ! j = key \<longrightarrow> k' = j)"
    "\<forall>s. s \<notin> (!) row ` set is \<longrightarrow> m' s = ?m s" "key \<notin> (!) row ` set is \<longrightarrow> k' = ?k" by blast
  have step: "index_header key row (i # is) (k, m) = index_header key row is (?k, ?m)"
    using i Cons.prems(1,5) by (simp add: GetFieldByIndex_in insert_new_def)
  have new: "row ! i \<notin> (!) row ` set is" using diff by (metis imageE)
  have "m' (row ! i) = Some i" using ih(3) new by simp
  moreover have "k' = i" if "row ! i = key" using ih(4) new that by simp
  moreover have "m' s = m s" if "s \<notin> (!) row ` set (i # is)" for s using ih(3) that by simp
  moreover have "k' = k" if "key \<notin> (!) row ` set (i # is)" using ih(4) that by auto
  ultimately show ?case using ih(1,2) step by (intro exI [of _ k'] exI [of _ m']) simp
qed simp

lemma index_rows_result:
  "length (data_rows r) < 2 ^ 32 \<Longrightarrow>
   \<forall>i\<in>set is. i < length (data_rows r) \<and> k < length (data_rows r ! i) \<and> length (data_rows r ! i) < 2 ^ 32 \<Longrightarrow>
   inj_on (\<lambda>i. to_key (data_rows r ! i ! k)) (set is) \<Longrightarrow> distinct is \<Longrightarrow>
   \<forall>i\<in>set is. m (to_key (data_rows r ! i ! k)) = None \<Longrightarrow>
   \<exists>m'. index_rows to_key r k is m = Inr m' \<and>
     (\<forall>i\<in>set is. m' (to_key (data_rows r ! i ! k)) = Some i) \<and>
     (\<forall>x. x \<notin> (\<lambda>i. to_key (data_rows r ! i ! k)) ` set is \<longrightarrow> m' x = m x)"
proof (induction "is" arbitrary: m)
  case (Cons i "is")
  let ?key = "\<lambda>i. to_key (data_rows r ! i ! k)"
  have diff: "?key j \<noteq> ?key i" if "j \<in> set is" for j
    using that Cons.prems(3,4) by (auto simp: inj_on_def)
  have "\<exists>m'. index_rows to_key r k is (m(?key i \<mapsto> i)) = Inr m' \<and>
      (\<forall>j\<in>set is. m' (?key j) = Some j) \<and> (\<forall>x. x \<notin> ?key ` set is \<longrightarrow> m' x = (m(?key i \<mapsto> i)) x)"
    by (rule Cons.IH) (use Cons.prems diff in \<open>auto simp: inj_on_def\<close>)
  then obtain m' where ih: "index_rows to_key r k is (m(?key i \<mapsto> i)) = Inr m'"
    "\<forall>j\<in>set is. m' (?key j) = Some j" "\<forall>x. x \<notin> ?key ` set is \<longrightarrow> m' x = (m(?key i \<mapsto> i)) x" by blast
  have step: "index_rows to_key r k (i # is) m = index_rows to_key r k is (m(?key i \<mapsto> i))"
    using Cons.prems(1,2,5) by (simp add: GetReaderRow_in GetFieldByIndex_in insert_new_def)
  have new: "?key i \<notin> ?key ` set is" using diff by (metis (no_types, lifting) imageE)
  have "m' (?key i) = Some i" using ih(3) new by simp
  moreover have "m' x = m x" if "x \<notin> ?key ` set (i # is)" for x using ih(3) that by simp
  ultimately show ?case using ih(1,2) step by (intro exI [of _ m']) simp
qed simp

section \<open>Properties\<close>

text \<open>The indexes that \<open>Load\<close> builds for a table written in this way.\<close>

lemma Load_table:
  assumes "distinct hs" "k < length hs" "length hs < 2 ^ 32" "length rows < 2 ^ 32" "newline \<notin> set tail"
    and "\<forall>r\<in>set (hs # rows). fields_ok (CHR '','') r \<and> length (row_line (CHR '','') r) < 2 ^ 32"
    and "\<forall>r\<in>set rows. length r = length hs" "distinct (map (\<lambda>r. to_key (r ! k)) rows)"
  obtains f f' where "HSConfigFile_new (Some (hs ! k)) = Inr f"
    "Load to_key f (Some (table_text (CHR '','') (hs # rows) @ tail)) = Some (Inr (True, f'))"
    "\<forall>i<length rows. GetReaderRow (reader f') (of_nat i) = Inr (Some (rows ! i))"
    "\<forall>i<length rows. key2index f' (to_key (rows ! i ! k)) = Some i"
    "\<forall>c<length hs. header2index f' (hs ! c) = Some c"
proof -
  let ?f = "\<lparr>reader = HSConfigReader_new 1 0 '','', key_field = hs ! k, header2index = Map.empty,
    key2index = Map.empty\<rparr>"
  let ?r = "\<lparr>header_rows = 1, key_row_index = 0, delimiters = '','', header_row = hs, data_rows = rows\<rparr>"
  have load: "LoadConfig (reader ?f) (Some (table_text (CHR '','') (hs # rows) @ tail)) = Some (True, ?r)"
    using LoadConfig_table [OF _ assms(6,5)] by (simp add: newline_def)
  have idx: "set [0..<length hs] \<subseteq> {..<length hs}" "distinct [0..<length hs]" by auto
  have none: "\<forall>i\<in>set [0..<length hs]. Map.empty (hs ! i) = None" by simp
  from index_header_result [OF assms(3,1) idx none, of "hs ! k" 0]
  obtain k' hm where hm: "index_header (hs ! k) hs [0..<length hs] (0, Map.empty) = Inr (k', hm)"
    "\<forall>i\<in>set [0..<length hs]. hm (hs ! i) = Some i \<and> (hs ! i = hs ! k \<longrightarrow> k' = i)" by blast
  have k': "k' = k" using hm(2) assms(2) by simp
  have rows: "\<forall>i\<in>set [0..<length rows]. i < length (data_rows ?r) \<and> k < length (data_rows ?r ! i) \<and>
      length (data_rows ?r ! i) < 2 ^ 32"
    using assms(2,3,7) by simp
  have inj: "inj_on (\<lambda>i. to_key (data_rows ?r ! i ! k)) (set [0..<length rows])"
    using assms(8) by (auto simp: inj_on_def distinct_conv_nth) metis
  obtain km where km: "index_rows to_key ?r k [0..<length rows] Map.empty = Inr km"
    "\<forall>i\<in>set [0..<length rows]. km (to_key (data_rows ?r ! i ! k)) = Some i"
    using index_rows_result [OF _ rows inj, of Map.empty] assms(4) by auto
  let ?f' = "\<lparr>reader = ?r, key_field = hs ! k, header2index = hm, key2index = km\<rparr>"
  show ?thesis
  proof (rule that [of ?f ?f'])
    show "HSConfigFile_new (Some (hs ! k)) = Inr ?f" by (simp add: HSConfigFile_new_def)
    show "Load to_key ?f (Some (table_text (CHR '','') (hs # rows) @ tail)) = Some (Inr (True, ?f'))"
      using load hm(1) km(1) k' by (simp add: Load_def)
    show "\<forall>i<length rows. GetReaderRow (reader ?f') (of_nat i) = Inr (Some (rows ! i))"
      using GetReaderRow_in [of _ ?r] assms(4) by simp
  qed (use km(2) hm(2) in simp_all)
qed

text \<open>C35: a table that is written with every field ended by a comma and every line by a newline is read
  back: after \<open>Load\<close>, the data found under the key of a row and the name of a column is the field that
  was written there, and the value object of the column holds the same string. A last line without its
  newline is ignored.\<close>

theorem config_lookup:
  assumes "distinct hs" and "k < length hs" and "c < length hs" and "i < length rows"
    and "\<forall>r\<in>set (hs # rows). fields_ok (CHR '','') r \<and> length (row_line (CHR '','') r) < 2 ^ 32"
    and "\<forall>r\<in>set rows. length r = length hs" and "length hs < 2 ^ 32" and "length rows < 2 ^ 32"
    and "distinct (map (\<lambda>r. to_key (r ! k)) rows)" and "newline \<notin> set tail"
  shows "\<exists>f f'. HSConfigFile_new (Some (hs ! k)) = Inr f \<and>
    Load to_key f (Some (table_text (CHR '','') (hs # rows) @ tail)) = Some (Inr (True, f')) \<and>
    GetData f' (to_key (rows ! i ! k)) (hs ! c) = Inr (Some (rows ! i ! c)) \<and>
    GetHSValue f' (rows ! i) [] (hs ! c) = Inr (Some (HSValue_new (rows ! i ! c)), map HSValue_new (rows ! i))"
proof -
  obtain f f' where f: "HSConfigFile_new (Some (hs ! k)) = Inr f"
    "Load to_key f (Some (table_text (CHR '','') (hs # rows) @ tail)) = Some (Inr (True, f'))"
    "\<forall>i<length rows. GetReaderRow (reader f') (of_nat i) = Inr (Some (rows ! i))"
    "\<forall>i<length rows. key2index f' (to_key (rows ! i ! k)) = Some i"
    "\<forall>c<length hs. header2index f' (hs ! c) = Some c"
    using Load_table [OF assms(1,2,7,8,10,5,6,9)] by blast
  note found = f(3,4) [rule_format, OF assms(4)] f(5) [rule_format, OF assms(3)]
  have "GetFieldByIndex (rows ! i) (of_nat c) = Inr (Some (rows ! i ! c))"
    using assms(3,4,6,7) by (intro GetFieldByIndex_in) simp_all
  moreover have "GetHSValue f' (rows ! i) [] (hs ! c) =
      Inr (Some (HSValue_new (rows ! i ! c)), map HSValue_new (rows ! i))"
    using GetHSValue_in [OF found(3), of "rows ! i"] assms(3,4,6,7) by simp
  ultimately show ?thesis
    using f(1,2) found by (intro exI [of _ f] exI [of _ f']) (simp add: GetData_def GetFileRow_def GetValue_def)
qed

text \<open>A line is read as its fields up to the last delimiter; text behind the last delimiter is dropped
  silently, although the row counts as read.\<close>

theorem last_field_is_dropped:
  assumes "delimiters r = [d]" and "fields_ok d fs" and "length (row_line d fs @ rest) < 2 ^ 32"
    and "{d, newline, carriage_return} \<inter> set rest = {}"
  shows "CreateDataRow r (row_line d fs @ rest) [] = Some (True, fs)"
  using CreateDataRow_fields [OF assms, of "[]"] by simp

text \<open>A line without any delimiter behind the header, such as an empty line, makes \<open>Load\<close> read outside
  the row: its row is empty, and the check of the key index compares with \<open>size() - 1\<close>, which wraps.\<close>

theorem blank_line_overruns:
  assumes "fields_ok (CHR '','') hs" and "distinct hs" and "length (row_line (CHR '','') hs) < 2 ^ 32"
    and "length hs < 2 ^ 32" and "length blank < 2 ^ 32"
    and "{CHR '','', newline, carriage_return} \<inter> set blank = {}"
  shows "\<exists>f. HSConfigFile_new (Some key) = Inr f \<and>
    Load to_key f (Some (row_line (CHR '','') hs @ [newline] @ blank @ [newline])) = Some (Inl OutOfBounds)"
proof -
  let ?f = "\<lparr>reader = HSConfigReader_new 1 0 '','', key_field = key, header2index = Map.empty,
    key2index = Map.empty\<rparr>"
  let ?r = "\<lparr>header_rows = 1, key_row_index = 0, delimiters = '','', header_row = hs, data_rows = [[]]\<rparr>"
  have nl: "newline \<notin> set (row_line (CHR '','') hs)"
    using newline_row_line [OF _ assms(1)] by (simp add: newline_def)
  have "newline \<notin> set blank" using assms(6) by auto
  then have ls: "lines_from [] (row_line (CHR '','') hs @ [newline] @ blank @ [newline]) =
      [row_line (CHR '','') hs, blank]"
    using lines_from_line [OF nl, of "[]" "blank @ [newline]"] lines_from_line [of blank "[]" "[]"] by simp
  have "CreateDataRow (HSConfigReader_new 1 0 '','') (row_line (CHR '','') hs) [] = Some (True, hs)"
    using CreateDataRow_fields [of _ "CHR '',''" hs "[]"] assms(1,3) by (simp add: HSConfigReader_new_def)
  moreover have "CreateDataRow ((HSConfigReader_new 1 0 '','')\<lparr>header_row := hs\<rparr>) blank [] = Some (True, [])"
    using CreateDataRow_fields [of _ "CHR '',''" "[]" blank] assms(5,6)
    by (simp add: HSConfigReader_new_def row_line_def fields_ok_def)
  ultimately have load: "LoadConfig (reader ?f)
      (Some (row_line (CHR '','') hs @ [newline] @ blank @ [newline])) = Some (True, ?r)"
    by (simp add: LoadConfig_def ls [simplified] HSConfigReader_new_def)
  have idx: "set [0..<length hs] \<subseteq> {..<length hs}" "distinct [0..<length hs]" by auto
  have none: "\<forall>i\<in>set [0..<length hs]. Map.empty (hs ! i) = None" by simp
  from index_header_result [OF assms(4,2) idx none, of key 0]
  obtain k' hm where hm: "index_header key hs [0..<length hs] (0, Map.empty) = Inr (k', hm)" by blast
  have "GetReaderRow ?r 0 = Inr (Some [])" using GetReaderRow_in [of 0 ?r] by simp
  then have "index_rows to_key ?r k' [0..<length (data_rows ?r)] Map.empty = Inl OutOfBounds"
    by (simp add: GetFieldByIndex_empty)
  then have "Load to_key ?f (Some (row_line (CHR '','') hs @ [newline] @ blank @ [newline])) =
      Some (Inl OutOfBounds)"
    using load hm by (simp add: Load_def)
  then show ?thesis by (simp add: HSConfigFile_new_def)
qed

text \<open>An empty delimiter hangs the reader: \<open>find\<close> finds it at the start again and again, and each round
  pushes another field.\<close>

theorem empty_delimiter_hangs:
  "CreateDataRow (HSConfigReader_new rows key_index []) line row = None"
proof -
  have "find_sub [] line = Some 0" by (cases line) simp_all
  then have f: "str_find line [] 0 = Some 0" by (simp add: str_find_def)
  have "\<not> (delims = [] \<and> l = line \<and> off = 0)" if "row_loop delims l off row = Some y" for delims l off row y
    by (rule row_loop.raw_induct [of "\<lambda>delims l off row y. \<not> (delims = [] \<and> l = line \<and> off = 0)", OF _ that])
      (clarify, fastforce simp: f split: if_splits)
  then have "row_loop [] line 0 row \<noteq> Some y" for y by blast
  then show ?thesis
    by (cases "row_loop [] line 0 row") (auto simp: CreateDataRow_def HSConfigReader_new_def)
qed

text \<open>A value remembers only that it was converted, not to what. After \<open>AsInt\<close>, \<open>AsDouble\<close> and \<open>AsLong\<close>
  answer 0 for every string, and \<open>AsLonglong\<close> always does.\<close>

theorem value_caches_first_conversion:
  assumes "ToIntegelValue (HSValue_new s) = (i, v)"
  shows "i = atoi s \<and> fst (ToDoubleValue atof v) = 0 \<and> fst (ToLongValue v) = 0 \<and> ToLonglongValue v = 0"
  using assms
  by (auto simp: ToIntegelValue_def HSValue_new_def ToDoubleValue_def ToLongValue_def ToLonglongValue_def)

section \<open>Witnesses\<close>

theorem config_lookup_witness:
  "\<exists>f f'. HSConfigFile_new (Some ''id'') = Inr f \<and>
    Load key_int f (Some (table_text (CHR '','') [[''id'', ''hp''], [''7'', ''50''], [''8'', ''60'']] @ ''9,'')) =
      Some (Inr (True, f')) \<and> GetData f' 8 ''hp'' = Inr (Some ''60'')"
proof -
  have a: "key_int ''7'' = 7" "key_int ''8'' = 8" by (simp_all add: key_int_def atoi_def is_space_def)
  have b: "fields_ok (CHR '','') [''id'', ''hp'']" "fields_ok (CHR '','') [''7'', ''50'']"
    "fields_ok (CHR '','') [''8'', ''60'']"
    by (simp_all add: fields_ok_def newline_def)
  show ?thesis
    using config_lookup [of "[''id'', ''hp'']" 0 1 1 "[[''7'', ''50''], [''8'', ''60'']]" key_int "''9,''"] a b
    by (simp add: row_line_def newline_def) blast
qed

theorem last_field_is_dropped_witness:
  "CreateDataRow (HSConfigReader_new 1 0 '','') ''a,b,c'' [] = Some (True, [''a'', ''b''])"
  using last_field_is_dropped [of "HSConfigReader_new 1 0 '',''" "CHR '',''" "[''a'', ''b'']" "''c''"]
  by (simp add: HSConfigReader_new_def row_line_def fields_ok_def newline_def carriage_return_def)

theorem blank_line_overruns_witness:
  "\<exists>f. HSConfigFile_new (Some ''id'') = Inr f \<and>
    Load key_int f (Some (row_line (CHR '','') [''id''] @ [newline] @ [] @ [newline])) = Some (Inl OutOfBounds)"
  by (rule blank_line_overruns) (simp_all add: fields_ok_def newline_def row_line_def)

theorem value_caches_first_conversion_witness:
  "atoi ''42'' = 42 \<and> fst (ToDoubleValue (\<lambda>_. 42) ((HSValue_new ''42'')\<lparr>int_value := 42, seted := True\<rparr>)) = 0"
proof -
  have a: "atoi ''42'' = 42" by (simp add: atoi_def is_space_def)
  then have "ToIntegelValue (HSValue_new ''42'') = (42, (HSValue_new ''42'')\<lparr>int_value := 42, seted := True\<rparr>)"
    by (simp add: ToIntegelValue_def HSValue_new_def)
  from value_caches_first_conversion [OF this, of "\<lambda>_. 42"] a show ?thesis by simp
qed

end
