(* ===== verification/HS_ConfigRows.thy ===== *)
theory HS_ConfigRows
  imports HS_Config
begin

text \<open>
  \<open>HSConfigReader.h\<close>, the rest: the setters of the options, the casts of \<open>HSValue\<close>, the key type
  \<open>unsigned int\<close>, and the row objects that \<open>HSConfigFile\<close> caches by key. A row object points to a row of
  the reader, which does not change while it exists; here it holds that row. The pointer that
  \<open>HSConfigFile::GetHSValue\<close> returns is the key of the row object and the column.
\<close>

section \<open>Options\<close>

definition reader_SetDelimiters :: "config_reader \<Rightarrow> string \<Rightarrow> config_reader" where
  "reader_SetDelimiters r delims = r\<lparr>delimiters := delims\<rparr>"

definition reader_SetHeaderRows :: "config_reader \<Rightarrow> int \<Rightarrow> config_reader" where
  "reader_SetHeaderRows r rows = r\<lparr>header_rows := rows\<rparr>"

definition reader_SetKeyRowIndex :: "config_reader \<Rightarrow> int \<Rightarrow> config_reader" where
  "reader_SetKeyRowIndex r index = r\<lparr>key_row_index := index\<rparr>"

definition file_SetDelimiters :: "'k config_file \<Rightarrow> string \<Rightarrow> 'k config_file" where
  "file_SetDelimiters f delims = f\<lparr>reader := reader_SetDelimiters (reader f) delims\<rparr>"

definition file_SetHeaderRows :: "'k config_file \<Rightarrow> int \<Rightarrow> 'k config_file" where
  "file_SetHeaderRows f rows = f\<lparr>reader := reader_SetHeaderRows (reader f) rows\<rparr>"

definition file_SetKeyRowIndex :: "'k config_file \<Rightarrow> int \<Rightarrow> 'k config_file" where
  "file_SetKeyRowIndex f index = f\<lparr>reader := reader_SetKeyRowIndex (reader f) index\<rparr>"

definition GetHeaderRows :: "config_reader \<Rightarrow> int" where
  "GetHeaderRows r = header_rows r"

definition GetKeyRowIndex :: "config_reader \<Rightarrow> int" where
  "GetKeyRowIndex r = key_row_index r"

definition GetDelimiters :: "config_reader \<Rightarrow> string" where
  "GetDelimiters r = delimiters r"

definition GetDataRowsNum :: "config_reader \<Rightarrow> nat" where
  "GetDataRowsNum r = length (data_rows r)"

definition GetHeaderRow :: "config_reader \<Rightarrow> string list" where
  "GetHeaderRow r = header_row r"

definition GetDataColumnNum :: "config_reader \<Rightarrow> nat" where
  "GetDataColumnNum r = GetFieldSize (header_row r)"

section \<open>Casts and keys\<close>

text \<open>\<open>char\<close> is signed; \<open>to_float\<close> rounds a \<open>double\<close> to a \<open>float\<close>.\<close>

definition AsChar :: "hs_value \<Rightarrow> int \<times> hs_value" where
  "AsChar v = (case ToIntegelValue v of (i, v) \<Rightarrow> (sint (of_int i :: 8 word), v))"

definition AsUchar :: "hs_value \<Rightarrow> int \<times> hs_value" where
  "AsUchar v = (case ToIntegelValue v of (i, v) \<Rightarrow> (uint (of_int i :: 8 word), v))"

definition AsInt :: "hs_value \<Rightarrow> int \<times> hs_value" where
  "AsInt v = ToIntegelValue v"

definition AsFloat :: "(real \<Rightarrow> real) \<Rightarrow> (string \<Rightarrow> real) \<Rightarrow> hs_value \<Rightarrow> real \<times> hs_value" where
  "AsFloat to_float atof v = (case ToDoubleValue atof v of (d, v) \<Rightarrow> (to_float d, v))"

definition AsDouble :: "(string \<Rightarrow> real) \<Rightarrow> hs_value \<Rightarrow> real \<times> hs_value" where
  "AsDouble atof v = ToDoubleValue atof v"

definition AsLong :: "hs_value \<Rightarrow> int \<times> hs_value" where
  "AsLong v = ToLongValue v"

definition AsUlong :: "hs_value \<Rightarrow> int \<times> hs_value" where
  "AsUlong v = (case ToLongValue v of (i, v) \<Rightarrow> (uint (of_int i :: 32 word), v))"

definition AsLonglong :: "hs_value \<Rightarrow> int" where
  "AsLonglong v = ToLonglongValue v"

definition AsUlonglong :: "hs_value \<Rightarrow> int" where
  "AsUlonglong v = uint (of_int (ToLonglongValue v) :: 64 word)"

definition AsString :: "hs_value \<Rightarrow> string" where
  "AsString v = str_value v"

text \<open>\<open>strtoul\<close> in base 10: too large numbers give the largest one, a sign is applied modulo \<open>2^32\<close>.\<close>

definition key_uint :: "string \<Rightarrow> u32" where
  "key_uint s =
     (case dropWhile is_space s of
        [] \<Rightarrow> 0
      | c # cs \<Rightarrow>
          let n = (if c = CHR ''-'' \<or> c = CHR ''+'' then digits 0 cs else digits 0 (c # cs)) in
          if n \<ge> 2 ^ 32 then - 1 else if c = CHR ''-'' then - of_int n else of_int n)"

section \<open>The cache of row objects\<close>

type_synonym 'k row_cache = "'k \<rightharpoonup> string list \<times> hs_value list"

definition cache_GetDataRow ::
  "'k config_file \<Rightarrow> 'k row_cache \<Rightarrow> 'k \<Rightarrow> ((string list \<times> hs_value list) option \<times> 'k row_cache) res" where
  "cache_GetDataRow f cache key =
     (case cache key of
        Some d \<Rightarrow> Inr (Some d, cache)
      | None \<Rightarrow>
          (case key2index f key of
             None \<Rightarrow> Inr (None, cache)
           | Some i \<Rightarrow>
               bind_res (GetReaderRow (reader f) (of_nat i)) (\<lambda>data.
                 case data of
                   None \<Rightarrow> Inr (None, cache)
                 | Some row \<Rightarrow>
                     let cache = cache(key \<mapsto> (row, [])) in
                     Inr (cache key, cache))))"

definition cache_GetData ::
  "'k config_file \<Rightarrow> 'k row_cache \<Rightarrow> 'k \<Rightarrow> string \<Rightarrow> (string option \<times> 'k row_cache) res" where
  "cache_GetData f cache key field =
     bind_res (cache_GetDataRow f cache key) (\<lambda>(d, cache).
       case d of
         None \<Rightarrow> Inr (None, cache)
       | Some (row, vals) \<Rightarrow> bind_res (GetValue f row field) (\<lambda>v. Inr (v, cache)))"

definition cache_GetHSValue ::
  "'k config_file \<Rightarrow> 'k row_cache \<Rightarrow> 'k \<Rightarrow> string \<Rightarrow> (('k \<times> nat) option \<times> 'k row_cache) res" where
  "cache_GetHSValue f cache key field =
     bind_res (cache_GetDataRow f cache key) (\<lambda>(d, cache).
       case d of
         None \<Rightarrow> Inr (None, cache)
       | Some (row, vals) \<Rightarrow>
           bind_res (GetHSValue f row vals field) (\<lambda>(v, vals).
             Inr (case v of None \<Rightarrow> None | Some _ \<Rightarrow> map_option (\<lambda>i. (key, unat (of_nat i :: size_t))) (header2index f field),
               cache(key \<mapsto> (row, vals)))))"

text \<open>A conversion through such a pointer changes the value it points to.\<close>

definition at_pointer :: "(hs_value \<Rightarrow> 'a \<times> hs_value) \<Rightarrow> 'k row_cache \<Rightarrow> 'k \<times> nat \<Rightarrow> ('a \<times> 'k row_cache) res" where
  "at_pointer conv cache p =
     (case p of (key, i) \<Rightarrow>
       (case cache key of
          None \<Rightarrow> Inl WildDeref
        | Some (row, vals) \<Rightarrow>
            if i < length vals then
              (case conv (vals ! i) of (a, v) \<Rightarrow> Inr (a, cache(key \<mapsto> (row, vals[i := v]))))
            else Inl WildDeref))"

text \<open>\<open>Clear\<close> also empties the cache; \<open>Load\<close> keeps it.\<close>

definition cache_Clear :: "'k config_file \<times> 'k row_cache \<Rightarrow> 'k config_file \<times> 'k row_cache" where
  "cache_Clear s = (file_Clear (fst s), Map.empty)"

definition cache_Reload ::
  "(string \<Rightarrow> 'k) \<Rightarrow> 'k config_file \<times> 'k row_cache \<Rightarrow> string option \<Rightarrow>
   (bool \<times> 'k config_file \<times> 'k row_cache) res option" where
  "cache_Reload to_key s file =
     (case cache_Clear s of (f, cache) \<Rightarrow>
        map_option (\<lambda>r. bind_res r (\<lambda>(b, f). Inr (b, f, cache))) (Load to_key f file))"

section \<open>The cache is invisible\<close>

text \<open>The calls of a program on one \<open>HSConfigFile\<close>: lookups, conversions of values, loads and reloads. The
  number of rows stays a \<open>size_t\<close>.\<close>

inductive cache_step ::
  "(string \<Rightarrow> 'k) \<Rightarrow> 'k config_file \<times> 'k row_cache \<Rightarrow> 'k config_file \<times> 'k row_cache \<Rightarrow> bool" for to_key where
  step_data: "cache_GetData f cache key field = Inr (v, cache') \<Longrightarrow> cache_step to_key (f, cache) (f, cache')"
| step_value: "cache_GetHSValue f cache key field = Inr (p, cache') \<Longrightarrow> cache_step to_key (f, cache) (f, cache')"
| step_integer: "at_pointer ToIntegelValue cache p = Inr (i, cache') \<Longrightarrow> cache_step to_key (f, cache) (f, cache')"
| step_double: "at_pointer (ToDoubleValue atof) cache p = Inr (x, cache') \<Longrightarrow> cache_step to_key (f, cache) (f, cache')"
| step_long: "at_pointer ToLongValue cache p = Inr (i, cache') \<Longrightarrow> cache_step to_key (f, cache) (f, cache')"
| step_load: "Load to_key f file = Some (Inr (b, f')) \<Longrightarrow> length (data_rows (reader f')) < 2 ^ 32 \<Longrightarrow>
    cache_step to_key (f, cache) (f', cache)"
| step_reload: "cache_Reload to_key (f, cache) file = Some (Inr (b, f', cache')) \<Longrightarrow>
    length (data_rows (reader f')) < 2 ^ 32 \<Longrightarrow> cache_step to_key (f, cache) (f', cache')"
| step_clear: "cache_step to_key (f, cache) (cache_Clear (f, cache))"

inductive_cases cache_stepE: "cache_step to_key (f, cache) (f', cache')"

text \<open>A row object holds the row that the indexes find, and its values, once filled, hold the fields.\<close>

definition row_object_ok :: "'k config_file \<Rightarrow> 'k \<Rightarrow> string list \<times> hs_value list \<Rightarrow> bool" where
  "row_object_ok f key d \<longleftrightarrow>
     (\<exists>i. key2index f key = Some i \<and> GetReaderRow (reader f) (of_nat i) = Inr (Some (fst d))) \<and>
     (snd d = [] \<or> map str_value (snd d) = fst d)"

definition cache_ok :: "'k config_file \<times> 'k row_cache \<Rightarrow> bool" where
  "cache_ok s \<longleftrightarrow> (\<forall>key d. snd s key = Some d \<longrightarrow> row_object_ok (fst s) key d)"

lemma cache_okD: "cache_ok (f, cache) \<Longrightarrow> cache key = Some d \<Longrightarrow> row_object_ok f key d"
  by (cases d) (simp add: cache_ok_def)

lemma cache_ok_update: "cache_ok (f, cache) \<Longrightarrow> row_object_ok f key d \<Longrightarrow> cache_ok (f, cache(key \<mapsto> d))"
  by (cases d) (simp add: cache_ok_def)

lemma cache_GetDataRow_ok:
  assumes "cache_ok (f, cache)"
  shows "\<exists>cache' d. cache_GetDataRow f cache key = bind_res (GetFileRow f key) (\<lambda>_. Inr (d, cache')) \<and>
    cache_ok (f, cache') \<and> (\<forall>row. GetFileRow f key = Inr row \<longrightarrow> map_option fst d = row) \<and>
    (\<forall>x. d = Some x \<longrightarrow> cache' key = Some x)"
proof (cases "cache key")
  case (Some d)
  then show ?thesis
    using assms cache_okD [OF assms Some]
    by (cases d) (auto simp: cache_GetDataRow_def GetFileRow_def row_object_ok_def)
next
  case None
  show ?thesis
  proof (cases "key2index f key")
    case (Some i)
    show ?thesis
    proof (cases "GetReaderRow (reader f) (of_nat i)")
      case (Inr data)
      then show ?thesis
        using None Some assms cache_ok_update [OF assms, of key]
        by (cases data) (auto simp: cache_GetDataRow_def GetFileRow_def row_object_ok_def)
    qed (use None Some assms in \<open>auto simp: cache_GetDataRow_def GetFileRow_def\<close>)
  qed (use None assms in \<open>auto simp: cache_GetDataRow_def GetFileRow_def\<close>)
qed

lemma at_pointer_ok:
  assumes "cache_ok (f, cache)" "at_pointer conv cache p = Inr (a, cache')" "\<And>v. str_value (snd (conv v)) = str_value v"
  shows "cache_ok (f, cache')"
proof -
  obtain key i row vals where p: "p = (key, i)" "cache key = Some (row, vals)" "i < length vals"
    "cache' = cache(key \<mapsto> (row, vals[i := snd (conv (vals ! i))]))"
    using assms(2) by (cases p) (auto simp: at_pointer_def split: option.splits if_splits prod.splits)
  have "map str_value (vals[i := snd (conv (vals ! i))]) = map str_value vals"
    by (simp add: map_update assms(3)) (metis list_update_id map_update)
  then show ?thesis
    using cache_ok_update [OF assms(1)] cache_okD [OF assms(1) p(2)] p by (auto simp: row_object_ok_def)
qed

lemma GetHSValue_vals:
  assumes "GetHSValue f row vals field = Inr (v, vals')" "vals = [] \<or> map str_value vals = row"
  shows "vals' = [] \<or> map str_value vals' = row"
  using assms by (auto simp: GetHSValue_def Let_def HSValue_new_def comp_def split: option.splits if_splits)

lemma load_lines_appends: "load_lines r count ls = Some r' \<Longrightarrow> prefix (data_rows r) (data_rows r')"
proof (induction ls arbitrary: r count)
  case (Cons l ls)
  then show ?case
    by (fastforce simp: prefix_def Option.bind_eq_Some_conv split: if_splits)
qed simp

lemma index_rows_extends: "index_rows to_key r k is m = Inr m' \<Longrightarrow> m \<subseteq>\<^sub>m m'"
proof (induction "is" arbitrary: m)
  case (Cons i "is")
  have "m \<subseteq>\<^sub>m insert_new m x i" for x by (auto simp: insert_new_def map_le_def split: option.splits)
  then show ?case using Cons by (auto simp: bind_res_Inr_conv split: option.splits) (blast intro: map_le_trans)+
qed simp

lemma GetReaderRow_appends:
  assumes "GetReaderRow r i = Inr (Some row)" "prefix (data_rows r) (data_rows r')" "length (data_rows r') < 2 ^ 32"
  shows "GetReaderRow r' i = Inr (Some row)"
proof -
  obtain rows where rows: "data_rows r' = data_rows r @ rows" using assms(2) by (auto simp: prefix_def)
  have i: "unat i < length (data_rows r)" "data_rows r ! unat i = row"
    using assms(1) by (auto simp: GetReaderRow_def split: if_splits)
  then have "GetReaderRow r' (of_nat (unat i)) = Inr (Some (data_rows r' ! unat i))"
    using assms(3) rows by (intro GetReaderRow_in) auto
  then show ?thesis using i rows by (simp add: nth_append)
qed

lemma Load_keeps_rows:
  assumes "Load to_key f file = Some (Inr (b, f'))" "length (data_rows (reader f')) < 2 ^ 32" "cache_ok (f, cache)"
  shows "cache_ok (f', cache)"
proof -
  have le: "key2index f \<subseteq>\<^sub>m key2index f'" and pre: "prefix (data_rows (reader f)) (data_rows (reader f'))"
    using assms(1) by (auto simp: Load_def LoadConfig_def Option.bind_eq_Some_conv bind_res_Inr_conv
      split: option.splits prod.splits bool.splits dest: load_lines_appends index_rows_extends)
  have "row_object_ok f' key d" if "row_object_ok f key d" for key d
    using that GetReaderRow_appends [OF _ pre assms(2)] le
    by (auto simp: row_object_ok_def map_le_def dom_def)
  then show ?thesis using assms(3) by (simp add: cache_ok_def)
qed

lemma cache_GetData_ok:
  assumes "cache_ok (f, cache)"
  shows "\<exists>cache'. cache_GetData f cache key field = bind_res (GetData f key field) (\<lambda>v. Inr (v, cache')) \<and> cache_ok (f, cache')"
proof -
  obtain cache' d where d: "cache_GetDataRow f cache key = bind_res (GetFileRow f key) (\<lambda>_. Inr (d, cache'))"
    "cache_ok (f, cache')" "\<And>row. GetFileRow f key = Inr row \<Longrightarrow> map_option fst d = row"
    using cache_GetDataRow_ok [OF assms, of key] by blast
  show ?thesis
  proof (cases "GetFileRow f key")
    case (Inr row)
    then show ?thesis
      using d d(3) [OF Inr] by (cases d) (auto simp: cache_GetData_def GetData_def)
  qed (use d in \<open>auto simp: cache_GetData_def GetData_def\<close>)
qed

lemma cache_GetHSValue_ok:
  assumes "cache_ok (f, cache)" "cache_GetHSValue f cache key field = Inr (p, cache')"
  shows "cache_ok (f, cache') \<and> (\<forall>q. p = Some q \<longrightarrow> (\<exists>row vals i. q = (key, i) \<and> cache' key = Some (row, vals) \<and>
    i < length vals \<and> GetData f key field = Inr (Some (AsString (vals ! i)))))"
proof -
  obtain cache1 d where d: "cache_GetDataRow f cache key = bind_res (GetFileRow f key) (\<lambda>_. Inr (d, cache1))"
    "cache_ok (f, cache1)" "\<And>row. GetFileRow f key = Inr row \<Longrightarrow> map_option fst d = row"
    "\<And>x. d = Some x \<Longrightarrow> cache1 key = Some x"
    using cache_GetDataRow_ok [OF assms(1), of key] by blast
  obtain r where r: "GetFileRow f key = Inr r"
    using assms(2) d(1) by (cases "GetFileRow f key") (auto simp: cache_GetHSValue_def)
  show ?thesis
  proof (cases d)
    case None
    then show ?thesis using assms(2) d r by (auto simp: cache_GetHSValue_def)
  next
    case (Some x)
    obtain row vals where x: "x = (row, vals)" by (cases x)
    obtain v vals' where v: "GetHSValue f row vals field = Inr (v, vals')" "cache' = cache1(key \<mapsto> (row, vals'))"
      "p = (case v of None \<Rightarrow> None | Some _ \<Rightarrow> map_option (\<lambda>i. (key, unat (of_nat i :: size_t))) (header2index f field))"
      using assms(2) d(1) r Some x by (auto simp: cache_GetHSValue_def bind_res_Inr_conv)
    have ok: "row_object_ok f key (row, vals)" using cache_okD [OF d(2) d(4) [OF Some]] x by simp
    then have vals': "vals' = [] \<or> map str_value vals' = row"
      using GetHSValue_vals [OF v(1)] by (simp add: row_object_ok_def)
    then have "cache_ok (f, cache')"
      using cache_ok_update [OF d(2), of key "(row, vals')"] ok v(2) by (simp add: row_object_ok_def)
    moreover have "\<exists>i. q = (key, i) \<and> i < length vals' \<and> GetData f key field = Inr (Some (AsString (vals' ! i)))"
      if pq: "p = Some q" for q
    proof -
      obtain i where i: "header2index f field = Some i" "q = (key, unat (of_nat i :: size_t))"
        using pq v(3) by (cases v; cases "header2index f field") auto
      then have in_vals: "\<not> (of_nat i :: size_t) > of_nat (length vals') - 1" "unat (of_nat i :: size_t) < length vals'"
        using v(1,3) pq by (auto simp: GetHSValue_def Let_def split: if_splits)
      moreover have "vals' \<noteq> []" using in_vals(2) by auto
      then have row: "row = map str_value vals'" using vals' by simp
      moreover have "GetFileRow f key = Inr (Some row)" using r d(3) [OF r] Some x by simp
      ultimately show ?thesis using i by (simp add: GetData_def GetValue_def GetFieldByIndex_def AsString_def)
    qed
    ultimately show ?thesis using v(2) by auto
  qed
qed

lemma cache_step_ok: "cache_step to_key s s' \<Longrightarrow> cache_ok s \<Longrightarrow> cache_ok s'"
proof (induction rule: cache_step.induct)
  case (step_data f cache key field v cache')
  then show ?case
    using cache_GetData_ok [OF step_data(2), of key field] by (cases "GetData f key field") auto
next
  case (step_value f cache key field p cache')
  then show ?case using cache_GetHSValue_ok by fast
next
  case (step_integer cache p i cache' f)
  show ?case by (rule at_pointer_ok [OF step_integer(2,1)]) (simp add: ToIntegelValue_def Let_def)
next
  case (step_double atof cache p x cache' f)
  show ?case by (rule at_pointer_ok [OF step_double(2,1)]) (simp add: ToDoubleValue_def Let_def)
next
  case (step_long cache p i cache' f)
  show ?case by (rule at_pointer_ok [OF step_long(2,1)]) (simp add: ToLongValue_def Let_def)
next
  case (step_load f contents b f' cache)
  then show ?case using Load_keeps_rows by blast
next
  case (step_reload f cache contents b f' cache')
  then show ?case by (auto simp: cache_Reload_def cache_Clear_def cache_ok_def bind_res_Inr_conv)
qed (simp add: cache_Clear_def cache_ok_def)


section \<open>Numbers\<close>

text \<open>The decimal representation of a number.\<close>

fun dec :: "nat \<Rightarrow> string" where
  "dec n = (if n < 10 then [char_of (48 + n)] else dec (n div 10) @ [char_of (48 + n mod 10)])"

definition dec_int :: "int \<Rightarrow> string" where
  "dec_int i = (if i < 0 then CHR ''-'' # dec (nat (- i)) else dec (nat i))"

declare dec.simps [simp del]

definition is_digit :: "char \<Rightarrow> bool" where
  "is_digit c \<longleftrightarrow> (48 :: int) \<le> of_char c \<and> of_char c \<le> (57 :: int)"

lemma digit_char:
  "d < 10 \<Longrightarrow> (of_char (char_of (48 + d :: nat)) :: int) = 48 + int d"
proof -
  assume d: "d < 10"
  have "(of_char (char_of (48 + d)) :: int) = int (of_char (char_of (48 + d) :: char))"
    by (simp only: of_nat_of_char)
  then show ?thesis using d by simp
qed

lemma digits_append: "\<forall>c\<in>set cs. is_digit c \<Longrightarrow> digits acc (cs @ ds) = digits (digits acc cs) ds"
  by (induction cs arbitrary: acc) (simp_all add: is_digit_def)

lemma dec_digits: "\<forall>c\<in>set (dec n). is_digit c"
  by (induction n rule: dec.induct) (subst dec.simps, auto simp: is_digit_def digit_char)

lemma dec_nonempty: "dec n \<noteq> []"
  by (subst dec.simps) simp

lemma digits_dec: "digits 0 (dec n) = int n"
proof (induction n rule: dec.induct)
  case (1 n)
  show ?case
  proof (cases "n < 10")
    case True
    then show ?thesis by (subst dec.simps) (simp add: digit_char)
  next
    case False
    then have "digits 0 (dec n) = digits (digits 0 (dec (n div 10))) [char_of (48 + n mod 10)]"
      by (subst dec.simps) (simp add: digits_append dec_digits)
    also have "\<dots> = int (n div 10) * 10 + int (n mod 10)"
      using 1 [OF False] digit_char [of "n mod 10"] by simp
    also have "\<dots> = int (n div 10 * 10 + n mod 10)" by (simp only: of_nat_add of_nat_mult of_nat_numeral)
    also have "\<dots> = int n" by (simp only: div_mult_mod_eq)
    finally show ?thesis .
  qed
qed

lemma dec_head: "\<exists>c cs. dec n = c # cs \<and> is_digit c"
  using dec_digits [of n] dec_nonempty [of n] by (cases "dec n") auto

lemma atoi_dec_int: "atoi (dec_int i) = i"
proof (cases "i < 0")
  case True
  then show ?thesis by (simp add: dec_int_def atoi_def is_space_def digits_dec)
next
  case False
  obtain c cs where c: "dec (nat i) = c # cs" "is_digit c" using dec_head by blast
  then have "\<not> is_space c" "c \<noteq> CHR ''-''" "c \<noteq> CHR ''+''" by (auto simp: is_digit_def is_space_def)
  then show ?thesis using False c digits_dec [of "nat i"] by (simp add: dec_int_def atoi_def)
qed

lemma key_uint_dec_int:
  assumes "0 \<le> i" "i < 2 ^ 32"
  shows "key_uint (dec_int i) = of_int i"
proof -
  obtain c cs where c: "dec (nat i) = c # cs" "is_digit c" using dec_head by blast
  then have "\<not> is_space c" "c \<noteq> CHR ''-''" "c \<noteq> CHR ''+''" by (auto simp: is_digit_def is_space_def)
  then show ?thesis using assms c digits_dec [of "nat i"] by (simp add: dec_int_def key_uint_def Let_def)
qed

text \<open>C39: numbers survive the way through a table. The decimal text of an \<open>int\<close> is read back as this number
  by the conversions of a new value to \<open>int\<close> and \<open>long\<close> and by the key of type \<open>int\<close>, and by the narrower
  and the unsigned conversions when it is in their range.\<close>

theorem number_roundtrip:
  assumes "fits_int32 i"
  shows "fst (AsInt (HSValue_new (dec_int i))) = i \<and> fst (AsLong (HSValue_new (dec_int i))) = i \<and>
    fst (AsBool (HSValue_new (dec_int i))) = (i \<noteq> 0) \<and> key_int (dec_int i) = i \<and>
    (- (2 ^ 7) \<le> i \<and> i < 2 ^ 7 \<longrightarrow> fst (AsChar (HSValue_new (dec_int i))) = i) \<and>
    (- (2 ^ 15) \<le> i \<and> i < 2 ^ 15 \<longrightarrow> fst (AsShort (HSValue_new (dec_int i))) = i) \<and>
    (0 \<le> i \<and> i < 2 ^ 8 \<longrightarrow> fst (AsUchar (HSValue_new (dec_int i))) = i) \<and>
    (0 \<le> i \<and> i < 2 ^ 16 \<longrightarrow> fst (AsUshort (HSValue_new (dec_int i))) = i) \<and>
    (0 \<le> i \<longrightarrow> fst (AsUint (HSValue_new (dec_int i))) = i \<and> fst (AsUlong (HSValue_new (dec_int i))) = i \<and>
      key_uint (dec_int i) = of_int i)"
proof -
  have conv: "fst (ToIntegelValue (HSValue_new (dec_int i))) = i" "fst (ToLongValue (HSValue_new (dec_int i))) = i"
    by (simp_all add: ToIntegelValue_def ToLongValue_def HSValue_new_def Let_def atoi_dec_int)
  have s: "sint (of_int i :: 8 word) = i" if "- (2 ^ 7) \<le> i" "i < 2 ^ 7"
    using that by (simp add: int_word_sint mod_pos_pos_trivial)
  have s': "sint (of_int i :: 16 word) = i" if "- (2 ^ 15) \<le> i" "i < 2 ^ 15"
    using that by (simp add: int_word_sint mod_pos_pos_trivial)
  have u: "0 \<le> i \<Longrightarrow> i < 2 ^ 8 \<Longrightarrow> uint (of_int i :: 8 word) = i"
    "0 \<le> i \<Longrightarrow> i < 2 ^ 16 \<Longrightarrow> uint (of_int i :: 16 word) = i"
    "0 \<le> i \<Longrightarrow> i < 2 ^ 32 \<Longrightarrow> uint (of_int i :: 32 word) = i"
    by (simp_all add: uint_word_of_int mod_pos_pos_trivial)
  have "i < 2 ^ 32" using assms by (simp add: fits_int32_def)
  note facts = conv key_uint_dec_int [OF _ this] s s' u(1,2) u(3) [OF _ this] atoi_dec_int
  show ?thesis
    by (intro conjI impI; (elim conjE)?)
      (simp_all add: facts AsInt_def AsLong_def AsBool_def AsChar_def AsShort_def AsUchar_def AsUshort_def
        AsUint_def AsUlong_def key_int_def split_beta)
qed

section \<open>Witnesses\<close>

definition ex_file :: "int config_file" where
  "ex_file = \<lparr>reader = \<lparr>header_rows = 1, key_row_index = 0, delimiters = '','', header_row = [''id'', ''name''],
      data_rows = [[''1'', ''x''], [''2'', ''y'']]\<rparr>, key_field = ''id'',
    header2index = [''id'' \<mapsto> 0, ''name'' \<mapsto> 1], key2index = [1 \<mapsto> 0, 2 \<mapsto> 1]\<rparr>"


theorem number_roundtrip_witness: "fst (AsInt (HSValue_new ''-42'')) = - 42 \<and> key_int ''-42'' = - 42"
proof -
  have "dec_int (- 42) = ''-42''" by code_simp
  then show ?thesis using number_roundtrip [of "- 42"] by (simp add: fits_int32_def)
qed

end
