(* ===== verification/HS_Astar.thy ===== *)
theory HS_Astar
  imports HS_Prelude "HOL-Library.Signed_Division"
begin

text \<open>
  \<open>hs_astar.h\<close> and \<open>hs_astar.cpp\<close>: A* on a grid. Coordinates are 16-bit words, read signed where the code
  stores them in \<open>int16_t\<close>. The pool of nodes has 32 blocks of 128 nodes; the address of a node counts
  through the blocks, and a node in a block that was not allocated is behind the null pointer. The one
  array of a search holds the open nodes from the front and the closed nodes from the back. Its counters
  are natural numbers: each counts nodes of the pool, of which there are at most 4096. \<open>malloc\<close> succeeds;
  the pointers to the result and to the output coordinates are not null.
\<close>

section \<open>Grids\<close>

definition MAX_ARRAY_WIDTH :: nat where "MAX_ARRAY_WIDTH = 128"

definition MAX_ARRAY_HEIGHT :: nat where "MAX_ARRAY_HEIGHT = 128"

record astar_array =
  cells :: "int list"
  a_width :: u16
  a_height :: u16

record astar_res =
  index_list :: "int list"
  index_count :: nat

definition hs_coord2index :: "u16 \<Rightarrow> u16 \<Rightarrow> u16 \<Rightarrow> u16 \<Rightarrow> int res" where
  "hs_coord2index x y width height =
     (if x \<ge> width \<or> y \<ge> height then Inr (- 1)
      else let index = uint y * uint width + uint x in
        if fits_int32 index then Inr index else Inl SignedOverflow)"

text \<open>\<open>None\<close> stands for the result -1, which leaves the coordinates alone.\<close>

definition hs_index2coord :: "int \<Rightarrow> u16 \<Rightarrow> u16 \<Rightarrow> (u16 \<times> u16) option res" where
  "hs_index2coord index width height =
     (if \<not> fits_int32 (uint width * uint height) then Inl SignedOverflow
      else if index \<ge> uint width * uint height then Inr None
      else if width = 0 then Inl DivideByZero
      else let to_y = of_int (index sdiv uint width);
               to_x = of_int (index - uint to_y * uint width)
           in Inr (Some (to_x, to_y)))"

definition calc_hvalue :: "u16 \<Rightarrow> u16 \<Rightarrow> u16 \<Rightarrow> u16 \<Rightarrow> int" where
  "calc_hvalue cx cy ex ey = \<bar>uint cx - uint ex\<bar> + \<bar>uint cy - uint ey\<bar>"

definition calc_hvalue_byindex :: "int \<Rightarrow> u16 \<Rightarrow> u16 \<Rightarrow> u16 \<Rightarrow> u16 \<Rightarrow> int res" where
  "calc_hvalue_byindex index width height end_x end_y =
     bind_res (hs_index2coord index width height) (\<lambda>b.
       case b of None \<Rightarrow> Inr (- 1) | Some (bx, by) \<Rightarrow> Inr (calc_hvalue bx by end_x end_y))"

text \<open>Whether the function returns 0, for blocked.\<close>

definition is_blocked :: "astar_array \<Rightarrow> u16 \<Rightarrow> u16 \<Rightarrow> bool res" where
  "is_blocked aa cx cy =
     (if sint cy < 0 \<or> sint cy \<ge> uint (a_height aa) then Inr True
      else if sint cx < 0 \<or> sint cx \<ge> uint (a_width aa) then Inr True
      else
        bind_res (hs_coord2index cx cy (a_width aa) (a_height aa)) (\<lambda>index.
        bind_res (arr (cells aa) (nat index)) (\<lambda>v. Inr (v = 1))))"

section \<open>The pool of nodes\<close>

record astar_node =
  node_index :: int
  node_state :: int
  f_val :: int
  g_val :: int
  h_val :: int
  node_parent :: "nat option"

definition zero_node :: astar_node where
  "zero_node = \<lparr>node_index = 0, node_state = 0, f_val = 0, g_val = 0, h_val = 0, node_parent = None\<rparr>"

definition alloc_list_array_size :: nat where "alloc_list_array_size = 32"

definition alloc_one_list_size :: nat where "alloc_one_list_size = 128"

record node_alloc =
  inited :: bool
  cur_list :: nat
  cur_index :: nat
  list_array :: "astar_node list option list"

definition new_block :: "astar_node list" where
  "new_block = replicate alloc_one_list_size zero_node"

text \<open>The global \<open>alloc_data\<close> before its first use.\<close>

definition alloc_zero :: node_alloc where
  "alloc_zero = \<lparr>inited = False, cur_list = 0, cur_index = 0,
     list_array = replicate alloc_list_array_size None\<rparr>"

definition atar_node_allocator_init :: "node_alloc \<Rightarrow> node_alloc" where
  "atar_node_allocator_init A =
     alloc_zero\<lparr>list_array := (list_array alloc_zero)[0 := Some new_block], inited := True\<rparr>"

definition astar_node_alloc :: "node_alloc \<Rightarrow> (nat option \<times> node_alloc) res" where
  "astar_node_alloc A =
     (if cur_list A \<ge> alloc_list_array_size - 1 \<and> cur_index A \<ge> alloc_one_list_size - 1 then Inr (None, A)
      else
        bind_res
          (if cur_index A \<ge> alloc_one_list_size then
             bind_res (arr (list_array A) (cur_list A + 1)) (\<lambda>b.
             bind_res (if b = None then arr_set (list_array A) (cur_list A + 1) (Some new_block)
                       else Inr (list_array A)) (\<lambda>ls.
             Inr (A\<lparr>list_array := ls, cur_list := cur_list A + 1, cur_index := 0\<rparr>)))
           else Inr A)
          (\<lambda>A. Inr (Some (cur_list A * alloc_one_list_size + cur_index A), A\<lparr>cur_index := cur_index A + 1\<rparr>)))"

definition astar_node_allocator_recycle :: "node_alloc \<Rightarrow> node_alloc" where
  "astar_node_allocator_recycle A =
     (if \<not> inited A then atar_node_allocator_init A else A\<lparr>cur_index := 0, cur_list := 0\<rparr>)"

text \<open>The blocks that are given to \<open>free\<close>, and the pool afterwards.\<close>

definition astar_node_free :: "node_alloc \<Rightarrow> nat list \<times> node_alloc" where
  "astar_node_free A = (filter (\<lambda>i. list_array A ! i \<noteq> None) [0..<cur_list A], alloc_zero)"

definition get_node :: "node_alloc \<Rightarrow> nat \<Rightarrow> astar_node res" where
  "get_node A a =
     bind_res (arr (list_array A) (a div alloc_one_list_size)) (\<lambda>b.
       case b of None \<Rightarrow> Inl NullDeref | Some ns \<Rightarrow> arr ns (a mod alloc_one_list_size))"

definition put_node :: "node_alloc \<Rightarrow> nat \<Rightarrow> astar_node \<Rightarrow> node_alloc res" where
  "put_node A a n =
     bind_res (arr (list_array A) (a div alloc_one_list_size)) (\<lambda>b.
       case b of
         None \<Rightarrow> Inl NullDeref
       | Some ns \<Rightarrow>
           bind_res (arr_set ns (a mod alloc_one_list_size) n) (\<lambda>ns.
           bind_res (arr_set (list_array A) (a div alloc_one_list_size) (Some ns)) (\<lambda>ls.
           Inr (A\<lparr>list_array := ls\<rparr>))))"

definition calc_gvalue :: "node_alloc \<Rightarrow> nat option \<Rightarrow> int res" where
  "calc_gvalue A parent =
     (case parent of None \<Rightarrow> Inr 0 | Some a \<Rightarrow> bind_res (get_node A a) (\<lambda>n. Inr (g_val n + 1)))"

section \<open>The search\<close>

text \<open>The scan of \<open>get_min_f_index\<close>, with the smallest \<open>f\<close> so far and its position.\<close>

fun min_f_scan :: "node_alloc \<Rightarrow> nat option list \<Rightarrow> nat list \<Rightarrow> int \<times> nat \<Rightarrow> nat res" where
  "min_f_scan A open_list [] (f, min_f_i) = Inr min_f_i"
| "min_f_scan A open_list (i # is) (f, min_f_i) =
     bind_res (arr open_list i) (\<lambda>p.
       case p of
         None \<Rightarrow> min_f_scan A open_list is (f, min_f_i)
       | Some a \<Rightarrow>
           bind_res (get_node A a) (\<lambda>n.
             if f = 0 \<or> f \<ge> f_val n then min_f_scan A open_list is (f_val n, i)
             else min_f_scan A open_list is (f, min_f_i)))"

definition get_min_f_index :: "node_alloc \<Rightarrow> nat option list \<Rightarrow> nat \<Rightarrow> nat res" where
  "get_min_f_index A open_list open_list_len = min_f_scan A open_list [0..<open_list_len] (0, 0)"

text \<open>The position, among some positions of the array, of a node with an index.\<close>

fun scan_nodes :: "node_alloc \<Rightarrow> nat option list \<Rightarrow> int \<Rightarrow> nat list \<Rightarrow> nat option res" where
  "scan_nodes A nodes index [] = Inr None"
| "scan_nodes A nodes index (i # is) =
     bind_res (arr nodes i) (\<lambda>p.
       case p of
         None \<Rightarrow> scan_nodes A nodes index is
       | Some a \<Rightarrow>
           bind_res (get_node A a) (\<lambda>n.
             if node_index n = index then Inr (Some i) else scan_nodes A nodes index is))"

text \<open>The closed list starts at a position of the array.\<close>

definition is_in_closed ::
  "node_alloc \<Rightarrow> nat option list \<Rightarrow> nat \<Rightarrow> nat \<Rightarrow> u16 \<Rightarrow> u16 \<Rightarrow> u16 \<Rightarrow> u16 \<Rightarrow> bool res" where
  "is_in_closed A nodes closed_list closed_list_len width height x y =
     bind_res (hs_coord2index x y width height) (\<lambda>index.
     bind_res (scan_nodes A nodes index [closed_list..<closed_list + closed_list_len]) (\<lambda>pos.
     Inr (pos \<noteq> None)))"

definition is_in_open_byindex :: "node_alloc \<Rightarrow> nat option list \<Rightarrow> nat \<Rightarrow> int \<Rightarrow> nat option res" where
  "is_in_open_byindex A open_list open_list_len index = scan_nodes A open_list index [0..<open_list_len]"

definition is_in_open ::
  "node_alloc \<Rightarrow> nat option list \<Rightarrow> nat \<Rightarrow> u16 \<Rightarrow> u16 \<Rightarrow> u16 \<Rightarrow> u16 \<Rightarrow> nat option res" where
  "is_in_open A open_list open_list_len width height x y =
     bind_res (hs_coord2index x y width height) (\<lambda>index.
       if index < 0 then Inr None else is_in_open_byindex A open_list open_list_len index)"

record search =
  pool :: node_alloc
  open_close_nodes :: "nat option list"
  open_num :: nat
  closed_num :: nat
  closed_curr_index :: nat

definition tt_len :: nat where "tt_len = MAX_ARRAY_WIDTH * MAX_ARRAY_HEIGHT"

text \<open>Taking the node with the smallest \<open>f\<close> from the open nodes to the closed ones; \<open>None\<close> when its slot
  is empty.\<close>

definition close_min :: "search \<Rightarrow> (nat option \<times> search) res" where
  "close_min s =
     bind_res (get_min_f_index (pool s) (open_close_nodes s) (open_num s)) (\<lambda>f_index.
     bind_res (arr (open_close_nodes s) f_index) (\<lambda>cur.
       if cur = None then Inr (None, s)
       else
         bind_res (arr_set (open_close_nodes s) (closed_curr_index s) cur) (\<lambda>nodes.
         let nodes = (if f_index < open_num s - 1
           then take f_index nodes @ take (open_num s - f_index - 1) (drop (f_index + 1) nodes) @
             drop (open_num s - 1) nodes
           else nodes) in
         bind_res (arr_set nodes (open_num s - 1) None) (\<lambda>nodes.
         Inr (cur, s\<lparr>open_close_nodes := nodes, open_num := open_num s - 1,
           closed_num := closed_num s + 1, closed_curr_index := closed_curr_index s - 1\<rparr>)))))"

definition open_node :: "astar_array \<Rightarrow> u16 \<Rightarrow> u16 \<Rightarrow> nat \<Rightarrow> u16 \<Rightarrow> u16 \<Rightarrow> search \<Rightarrow> search res" where
  "open_node aa ex ey cur nx ny s =
     bind_res (astar_node_alloc (pool s)) (\<lambda>(p, A).
       case p of
         None \<Rightarrow> Inl NullDeref
       | Some a \<Rightarrow>
           bind_res (hs_coord2index nx ny (a_width aa) (a_height aa)) (\<lambda>index.
           bind_res (calc_gvalue A (Some cur)) (\<lambda>g.
           let h = calc_hvalue nx ny ex ey in
           bind_res (put_node A a \<lparr>node_index = index, node_state = 1, f_val = g + h, g_val = g,
             h_val = h, node_parent = Some cur\<rparr>) (\<lambda>A.
           bind_res (arr_set (open_close_nodes s) (open_num s) (Some a)) (\<lambda>nodes.
           Inr (s\<lparr>pool := A, open_close_nodes := nodes, open_num := open_num s + 1\<rparr>))))))"

definition improve_node :: "u16 \<Rightarrow> u16 \<Rightarrow> nat \<Rightarrow> u16 \<Rightarrow> u16 \<Rightarrow> nat \<Rightarrow> search \<Rightarrow> search res" where
  "improve_node ex ey cur nx ny pos s =
     bind_res (arr (open_close_nodes s) pos) (\<lambda>p.
       case p of
         None \<Rightarrow> Inr s
       | Some a \<Rightarrow>
           bind_res (get_node (pool s) a) (\<lambda>pos_node.
           bind_res (get_node (pool s) cur) (\<lambda>parent.
           let new_g = g_val parent + 1 in
           if g_val pos_node > new_g then
             let h = calc_hvalue nx ny ex ey in
             bind_res (put_node (pool s) a (pos_node\<lparr>node_parent := Some cur, g_val := new_g,
               h_val := h, f_val := new_g + h\<rparr>)) (\<lambda>A.
             Inr (s\<lparr>pool := A\<rparr>))
           else Inr s)))"

text \<open>One round of the loop over the neighbours, and the loop.\<close>

definition visit_neighbour :: "astar_array \<Rightarrow> u16 \<Rightarrow> u16 \<Rightarrow> nat \<Rightarrow> u16 \<times> u16 \<Rightarrow> search \<Rightarrow> search res" where
  "visit_neighbour aa ex ey cur n s =
     (case n of (nx, ny) \<Rightarrow>
        bind_res (is_blocked aa nx ny) (\<lambda>blocked.
          if blocked then Inr s
          else
            bind_res (is_in_closed (pool s) (open_close_nodes s) (closed_curr_index s) (closed_num s)
                        (a_width aa) (a_height aa) nx ny) (\<lambda>closed.
              if closed then Inr s
              else
                bind_res (is_in_open (pool s) (open_close_nodes s) (open_num s)
                            (a_width aa) (a_height aa) nx ny) (\<lambda>pos.
                  case pos of
                    None \<Rightarrow> open_node aa ex ey cur nx ny s
                  | Some i \<Rightarrow> improve_node ex ey cur nx ny i s))))"

fun visit_neighbours ::
  "astar_array \<Rightarrow> u16 \<Rightarrow> u16 \<Rightarrow> nat \<Rightarrow> (u16 \<times> u16) list \<Rightarrow> search \<Rightarrow> search res" where
  "visit_neighbours aa ex ey cur [] s = Inr s"
| "visit_neighbours aa ex ey cur (n # ns) s =
     bind_res (visit_neighbour aa ex ey cur n s) (visit_neighbours aa ex ey cur ns)"

definition neighbours :: "u16 \<Rightarrow> u16 \<Rightarrow> (u16 \<times> u16) list" where
  "neighbours cx cy = [(cx, cy - 1), (cx, cy + 1), (cx - 1, cy), (cx + 1, cy)]"

function get_result_list :: "node_alloc \<Rightarrow> nat option \<Rightarrow> nat \<Rightarrow> astar_res \<Rightarrow> astar_res res" where
  "get_result_list A None i r = Inr (r\<lparr>index_count := i\<rparr>)"
| "get_result_list A (Some a) i r =
     (case get_node A a of
        Inl e \<Rightarrow> Inl e
      | Inr n \<Rightarrow>
          if i < length (index_list r)
          then get_result_list A (node_parent n) (i + 1) (r\<lparr>index_list := (index_list r)[i := node_index n]\<rparr>)
          else Inl OutOfBounds)"
  by pat_completeness auto

termination
  by (relation "measure (\<lambda>(A, p, i, r). length (index_list r) - i)") auto

text \<open>The outer loop. A round that finds an empty slot starts again without any change. The coordinates of
  the last node stay when those of a node cannot be computed.\<close>

partial_function (option) search_loop ::
  "astar_array \<Rightarrow> int \<Rightarrow> u16 \<Rightarrow> u16 \<Rightarrow> astar_res \<Rightarrow> u16 \<times> u16 \<Rightarrow> search \<Rightarrow>
   (int \<times> astar_res \<times> node_alloc) res option" where
  [code]: "search_loop aa end_index ex ey r c s =
     (if open_num s = 0 then Some (Inr (- 1, r, pool s))
      else case close_min s of
        Inl e \<Rightarrow> Some (Inl e)
      | Inr (None, s) \<Rightarrow> search_loop aa end_index ex ey r c s
      | Inr (Some cur, s) \<Rightarrow>
          (case get_node (pool s) cur of
             Inl e \<Rightarrow> Some (Inl e)
           | Inr n \<Rightarrow>
               if node_index n = end_index then
                 Some (bind_res (arr (open_close_nodes s) (closed_curr_index s + 1)) (\<lambda>p.
                   bind_res (get_result_list (pool s) p 0 r) (\<lambda>r. Inr (0, r, pool s))))
               else
                 (case hs_index2coord (node_index n) (a_width aa) (a_height aa) of
                    Inl e \<Rightarrow> Some (Inl e)
                  | Inr coord \<Rightarrow>
                      (case visit_neighbours aa ex ey cur
                              (case coord of None \<Rightarrow> neighbours (fst c) (snd c)
                               | Some (cx, cy) \<Rightarrow> neighbours cx cy) s of
                         Inl e \<Rightarrow> Some (Inl e)
                       | Inr s \<Rightarrow> search_loop aa end_index ex ey r
                           (case coord of None \<Rightarrow> c | Some c \<Rightarrow> c) s))))"

text \<open>The first node of a search.\<close>

definition start_search :: "u16 \<Rightarrow> u16 \<Rightarrow> u16 \<Rightarrow> u16 \<Rightarrow> int \<Rightarrow> node_alloc \<Rightarrow> search res" where
  "start_search cx cy ex ey begin_index A =
     bind_res (astar_node_alloc A) (\<lambda>(p, A).
       case p of
         None \<Rightarrow> Inl NullDeref
       | Some a \<Rightarrow>
           let h = calc_hvalue cx cy ex ey in
           bind_res (put_node A a \<lparr>node_index = begin_index, node_state = 1, f_val = 0 + h, g_val = 0,
             h_val = h, node_parent = None\<rparr>) (\<lambda>A.
           bind_res (arr_set (replicate tt_len None) 0 (Some a)) (\<lambda>nodes.
           Inr \<lparr>pool = A, open_close_nodes = nodes, open_num = 1, closed_num = 0,
             closed_curr_index = tt_len - 1 - 0\<rparr>)))"

definition hs_astar_find_path ::
  "astar_array option \<Rightarrow> int \<Rightarrow> int \<Rightarrow> astar_res \<Rightarrow> node_alloc \<Rightarrow>
   (int \<times> astar_res \<times> node_alloc) res option" where
  "hs_astar_find_path ta begin_index end_index r A =
     (case ta of
        None \<Rightarrow> Some (Inr (- 1, r, A))
      | Some aa \<Rightarrow>
          if begin_index < 0 \<or> end_index < 0 then Some (Inr (- 1, r, A))
          else case hs_index2coord begin_index (a_width aa) (a_height aa) of
            Inl e \<Rightarrow> Some (Inl e)
          | Inr None \<Rightarrow> Some (Inr (- 1, r, A))
          | Inr (Some (cx, cy)) \<Rightarrow>
              (case hs_index2coord end_index (a_width aa) (a_height aa) of
                 Inl e \<Rightarrow> Some (Inl e)
               | Inr None \<Rightarrow> Some (Inr (- 1, r, A))
               | Inr (Some (ex, ey)) \<Rightarrow>
                   (case start_search cx cy ex ey begin_index A of
                      Inl e \<Rightarrow> Some (Inl e)
                    | Inr s \<Rightarrow> search_loop aa end_index ex ey r (cx, cy) s)))"

section \<open>Loading, recycling and clearing\<close>

fun fill_cells :: "int list \<Rightarrow> u16 \<Rightarrow> u16 \<Rightarrow> (nat \<times> nat) list \<Rightarrow> int list \<Rightarrow> int list res" where
  "fill_cells data width height [] cs = Inr cs"
| "fill_cells data width height ((i, j) # ps) cs =
     bind_res (hs_coord2index (of_nat i) (of_nat j) width height) (\<lambda>index.
     bind_res (arr data (unat width * j + i)) (\<lambda>v.
     bind_res (arr_set cs (nat index) v) (\<lambda>cs.
     fill_cells data width height ps cs)))"

definition hs_astar_load_data ::
  "int list option \<Rightarrow> u16 \<Rightarrow> u16 \<Rightarrow> astar_array option \<Rightarrow> node_alloc \<Rightarrow>
   (int \<times> astar_array option \<times> node_alloc) res" where
  "hs_astar_load_data data width height ta A =
     (case (data, ta) of
        (Some d, Some aa) \<Rightarrow>
          if width = 0 \<or> height = 0 then Inr (- 1, ta, A)
          else if unat width > MAX_ARRAY_WIDTH \<or> unat height > MAX_ARRAY_HEIGHT then Inr (- 1, ta, A)
          else
            bind_res (fill_cells d width height
              (concat (map (\<lambda>i. map (Pair i) [0..<unat height]) [0..<unat width])) (cells aa)) (\<lambda>cs.
            Inr (0, Some \<lparr>cells = cs, a_width = width, a_height = height\<rparr>,
              astar_node_allocator_recycle A))
      | _ \<Rightarrow> Inr (- 1, ta, A))"

definition hs_astar_clear :: "node_alloc \<Rightarrow> nat list \<times> node_alloc" where
  "hs_astar_clear A = astar_node_free A"

definition hs_astar_recycle :: "node_alloc \<Rightarrow> node_alloc" where
  "hs_astar_recycle A = astar_node_allocator_recycle A"

end
