(* ===== verification/HS_AstarPool.thy ===== *)
theory HS_AstarPool
  imports HS_Astar
begin

text \<open>
  The memory of the A* search of \<open>HS_Astar\<close>: the pool hands out the addresses 0 to 4094 in order, and a
  node that was handed out can be read and written; the array of a search holds a list of open and a list
  of closed nodes (\<open>layout\<close>), and the operations on positions are operations on these lists.
\<close>

section \<open>The pool\<close>

lemmas pool_sizes = alloc_list_array_size_def alloc_one_list_size_def

definition pool_top :: "node_alloc \<Rightarrow> nat" where
  "pool_top A = cur_list A * alloc_one_list_size + cur_index A"

definition pool_wf :: "node_alloc \<Rightarrow> bool" where
  "pool_wf A \<longleftrightarrow> inited A \<and> length (list_array A) = alloc_list_array_size \<and>
     cur_list A < alloc_list_array_size \<and> cur_index A \<le> alloc_one_list_size \<and>
     (cur_list A = alloc_list_array_size - 1 \<longrightarrow> cur_index A < alloc_one_list_size) \<and>
     (\<forall>b. Some b \<in> set (list_array A) \<longrightarrow> length b = alloc_one_list_size) \<and>
     (\<forall>i\<le>cur_list A. list_array A ! i \<noteq> None)"

definition node_at :: "node_alloc \<Rightarrow> nat \<Rightarrow> astar_node" where
  "node_at A a = the (list_array A ! (a div alloc_one_list_size)) ! (a mod alloc_one_list_size)"

lemma pool_block:
  assumes "pool_wf A" "a < pool_top A"
  obtains ns where "a div alloc_one_list_size < length (list_array A)"
    "list_array A ! (a div alloc_one_list_size) = Some ns" "length ns = alloc_one_list_size"
proof -
  have le: "a div alloc_one_list_size \<le> cur_list A"
    using assms by (auto simp: pool_wf_def pool_top_def pool_sizes)
  then have lt: "a div alloc_one_list_size < length (list_array A)" using assms(1) by (simp add: pool_wf_def)
  obtain ns where ns: "list_array A ! (a div alloc_one_list_size) = Some ns"
    using le assms(1) by (auto simp: pool_wf_def)
  then have "Some ns \<in> set (list_array A)" using lt by (metis nth_mem)
  then have "length ns = alloc_one_list_size" using assms(1) by (simp add: pool_wf_def)
  then show ?thesis using lt ns that by blast
qed

lemma get_node_at:
  assumes "pool_wf A" "a < pool_top A"
  shows "get_node A a = Inr (node_at A a)"
proof -
  obtain ns where "a div alloc_one_list_size < length (list_array A)"
    "list_array A ! (a div alloc_one_list_size) = Some ns" "length ns = alloc_one_list_size"
    by (rule pool_block [OF assms])
  then show ?thesis by (simp add: get_node_def node_at_def pool_sizes)
qed

lemma put_node_at:
  assumes "pool_wf A" "a < pool_top A"
  shows "\<exists>B. put_node A a n = Inr B \<and> pool_wf B \<and> pool_top B = pool_top A \<and> node_at B = (node_at A)(a := n)"
proof -
  let ?l = "a div alloc_one_list_size" and ?i = "a mod alloc_one_list_size"
  obtain ns where ns: "?l < length (list_array A)" "list_array A ! ?l = Some ns" "length ns = alloc_one_list_size"
    by (rule pool_block [OF assms])
  let ?B = "A\<lparr>list_array := (list_array A)[?l := Some (ns[?i := n])]\<rparr>"
  have "put_node A a n = Inr ?B" using ns by (simp add: put_node_def pool_sizes)
  moreover have "pool_wf ?B"
    using assms(1) ns by (auto simp: pool_wf_def nth_list_update dest!: set_update_subset_insert [THEN subsetD])
  moreover have "pool_top ?B = pool_top A" by (simp add: pool_top_def)
  moreover have "node_at ?B b = ((node_at A)(a := n)) b" for b
  proof (cases "b div alloc_one_list_size = ?l")
    case True
    have "b = a \<longleftrightarrow> b mod alloc_one_list_size = ?i"
      using True by (metis div_mult_mod_eq)
    then show ?thesis using True ns by (auto simp: node_at_def nth_list_update pool_sizes)
  next
    case False
    then show ?thesis by (auto simp: node_at_def)
  qed
  ultimately show ?thesis by blast
qed

lemma pool_top_le: "pool_wf A \<Longrightarrow> pool_top A \<le> 4095"
  by (cases "cur_list A = 31") (auto simp: pool_wf_def pool_top_def pool_sizes)

text \<open>The pool has one node less than its blocks could hold.\<close>

lemma alloc_full: "pool_wf A \<Longrightarrow> pool_top A = 4095 \<Longrightarrow> astar_node_alloc A = Inr (None, A)"
  by (cases "cur_list A = 31") (auto simp: pool_wf_def pool_top_def pool_sizes astar_node_alloc_def)

lemma alloc_next:
  assumes "pool_wf A" "pool_top A < 4095"
  shows "\<exists>B. astar_node_alloc A = Inr (Some (pool_top A), B) \<and> pool_wf B \<and> pool_top B = pool_top A + 1 \<and>
    (\<forall>b<pool_top A. node_at B b = node_at A b)"
proof (cases "cur_index A = alloc_one_list_size")
  case False
  then have "astar_node_alloc A = Inr (Some (pool_top A), A\<lparr>cur_index := cur_index A + 1\<rparr>)"
    using assms by (auto simp: astar_node_alloc_def pool_top_def pool_wf_def pool_sizes)
  moreover have "pool_wf (A\<lparr>cur_index := cur_index A + 1\<rparr>)"
    using assms False by (auto simp: pool_wf_def pool_top_def pool_sizes)
  ultimately show ?thesis by (auto simp: pool_top_def node_at_def)
next
  case True
  let ?l = "cur_list A + 1"
  have l: "?l < alloc_list_array_size" "?l < length (list_array A)"
    using assms(1) True by (auto simp: pool_wf_def pool_sizes)
  let ?ls = "if list_array A ! ?l = None then (list_array A)[?l := Some new_block] else list_array A"
  let ?B = "A\<lparr>list_array := ?ls, cur_list := ?l, cur_index := 1\<rparr>"
  have "astar_node_alloc A = Inr (Some (pool_top A), ?B)"
    using True l by (simp add: astar_node_alloc_def pool_top_def pool_sizes)
  moreover have "pool_wf ?B"
    using assms(1) True l
    by (auto simp: pool_wf_def pool_sizes new_block_def nth_list_update le_Suc_eq
        dest!: set_update_subset_insert [THEN subsetD])
  moreover have "pool_top ?B = pool_top A + 1" using True by (simp add: pool_top_def)
  moreover have "node_at ?B b = node_at A b" if "b < pool_top A" for b
  proof -
    have "b div alloc_one_list_size < ?l" using that True by (simp add: pool_top_def pool_sizes)
    then show ?thesis by (simp add: node_at_def)
  qed
  ultimately show ?thesis by blast
qed

lemma recycle_wf:
  assumes "A = alloc_zero \<or> pool_wf A"
  shows "pool_wf (astar_node_allocator_recycle A)" "pool_top (astar_node_allocator_recycle A) = 0"
proof -
  have "pool_wf (atar_node_allocator_init alloc_zero)"
    by (auto simp: pool_wf_def atar_node_allocator_init_def alloc_zero_def pool_sizes new_block_def
        dest!: set_update_subset_insert [THEN subsetD])
  then show "pool_wf (astar_node_allocator_recycle A)"
    using assms by (auto simp: astar_node_allocator_recycle_def alloc_zero_def)
      (auto simp: pool_wf_def pool_sizes)
  show "pool_top (astar_node_allocator_recycle A) = 0"
    by (simp add: pool_top_def astar_node_allocator_recycle_def atar_node_allocator_init_def alloc_zero_def)
qed

section \<open>The array of open and closed nodes\<close>

lemma tt_len: "tt_len = 16384"
  by (simp add: tt_len_def MAX_ARRAY_WIDTH_def MAX_ARRAY_HEIGHT_def)

definition layout :: "nat list \<Rightarrow> nat list \<Rightarrow> nat option list" where
  "layout os cs = map Some os @ replicate (tt_len - length os - length cs) None @ map Some cs"

lemma length_layout: "length os + length cs \<le> tt_len \<Longrightarrow> length (layout os cs) = tt_len"
  by (simp add: layout_def)

lemma layout_open: "i < length os \<Longrightarrow> layout os cs ! i = Some (os ! i)"
  by (simp add: layout_def nth_append)

lemma layout_closed:
  "length os + length cs \<le> tt_len \<Longrightarrow> i < length cs \<Longrightarrow>
   layout os cs ! (tt_len - length cs + i) = Some (cs ! i)"
  using nth_append_length_plus [of "map Some os @ replicate (tt_len - length os - length cs) None" "map Some cs" i]
  by (simp add: layout_def)

lemma layout_gap:
  "length os \<le> i \<Longrightarrow> i < tt_len - length cs \<Longrightarrow> layout os cs ! i = None"
  by (simp add: layout_def nth_append)

lemma layout_push_open:
  assumes "length os + length cs < tt_len"
  shows "(layout os cs)[length os := Some a] = layout (os @ [a]) cs"
proof -
  obtain k where k: "tt_len - length os - length cs = Suc k" using assms by (cases "tt_len - length os - length cs") auto
  then have "tt_len - length (os @ [a]) - length cs = k" by simp
  then show ?thesis using k by (simp add: layout_def list_update_append)
qed

text \<open>What \<open>close_min\<close> does to the array.\<close>

lemma layout_close:
  assumes "length xs + length ys + length cs + 1 < tt_len"
  shows "(let nodes = (layout (xs @ a # ys) cs)[tt_len - 1 - length cs := Some a];
      n = length (xs @ a # ys); f = length xs;
      nodes = (if f < n - 1 then take f nodes @ take (n - f - 1) (drop (f + 1) nodes) @ drop (n - 1) nodes else nodes)
      in nodes[n - 1 := None]) = layout (xs @ ys) (a # cs)"
proof -
  let ?k = "tt_len - length xs - length ys - length cs - 2"
  let ?r = "replicate ?k None :: nat option list"
  let ?nodes = "map Some xs @ Some a # map Some ys @ ?r @ Some a # map Some cs"
  have "replicate (tt_len - length (xs @ a # ys) - length cs) None = ?r @ [None :: nat option]"
    using assms by (simp flip: replicate_Suc add: replicate_append_same Suc_diff_Suc)
  then have lay: "layout (xs @ a # ys) cs = (map Some xs @ Some a # map Some ys @ ?r) @ None # map Some cs"
    by (simp add: layout_def)
  have len: "tt_len - 1 - length cs = length (map Some xs @ Some a # map Some ys @ ?r)" using assms by simp
  have upd: "(layout (xs @ a # ys) cs)[tt_len - 1 - length cs := Some a] = ?nodes"
    unfolding lay len by (simp only: list_update_length) simp
  have res: "layout (xs @ ys) (a # cs) = map Some (xs @ ys) @ None # ?r @ Some a # map Some cs"
  proof -
    have "tt_len - length (xs @ ys) - length (a # cs) = Suc ?k" using assms by simp
    then show ?thesis by (simp add: layout_def)
  qed
  show ?thesis
  proof (cases ys rule: rev_cases)
    case Nil
    then show ?thesis unfolding upd res by (simp add: Let_def list_update_append)
  next
    case (snoc zs z)
    have "take (length ys) (drop (length xs + 1) ?nodes) = map Some ys" by simp
    moreover have "drop (length xs + length ys) ?nodes = Some z # ?r @ Some a # map Some cs"
      using snoc by simp
    ultimately show ?thesis
      unfolding upd res using snoc by (simp add: Let_def list_update_append)
  qed
qed

section \<open>Scans\<close>

text \<open>All nodes that the array names were handed out.\<close>

definition readable :: "node_alloc \<Rightarrow> nat option list \<Rightarrow> nat list \<Rightarrow> bool" where
  "readable A nodes is \<longleftrightarrow> (\<forall>i\<in>set is. i < length nodes \<and> (\<forall>a. nodes ! i = Some a \<longrightarrow> get_node A a = Inr (node_at A a)))"

lemma readable_Cons [simp]:
  "readable A nodes (i # is) \<longleftrightarrow> i < length nodes \<and>
     (\<forall>a. nodes ! i = Some a \<longrightarrow> get_node A a = Inr (node_at A a)) \<and> readable A nodes is"
  by (auto simp: readable_def)

lemma scan_nodes_None:
  "readable A nodes is \<Longrightarrow> \<forall>i\<in>set is. \<forall>a. nodes ! i = Some a \<longrightarrow> node_index (node_at A a) \<noteq> index \<Longrightarrow>
   scan_nodes A nodes index is = Inr None"
  by (induction "is") (auto split: option.splits)

lemma scan_nodes_Some:
  "readable A nodes is \<Longrightarrow> i \<in> set is \<Longrightarrow> nodes ! i = Some a \<Longrightarrow> node_index (node_at A a) = index \<Longrightarrow>
   \<exists>j b. scan_nodes A nodes index is = Inr (Some j) \<and> j \<in> set is \<and> nodes ! j = Some b \<and>
     node_index (node_at A b) = index"
  by (induction "is") (auto split: option.splits)

text \<open>The scan for the smallest \<open>f\<close>. The code takes 0 for no value yet; the values of the nodes are
  positive, or there is just one node.\<close>

definition f_at :: "node_alloc \<Rightarrow> nat option list \<Rightarrow> nat \<Rightarrow> int" where
  "f_at A nodes i = f_val (node_at A (the (nodes ! i)))"

lemma min_f_scan_best:
  "readable A nodes is \<Longrightarrow> \<forall>i\<in>set is. nodes ! i \<noteq> None \<and> 0 < f_at A nodes i \<Longrightarrow> 0 < f_at A nodes m \<Longrightarrow>
   \<exists>j. min_f_scan A nodes is (f_at A nodes m, m) = Inr j \<and> (j = m \<or> j \<in> set is) \<and>
     f_at A nodes j \<le> f_at A nodes m \<and> (\<forall>i\<in>set is. f_at A nodes j \<le> f_at A nodes i)"
proof (induction "is" arbitrary: m)
  case (Cons i "is")
  obtain a where a: "nodes ! i = Some a" using Cons.prems(2) by auto
  then have fa: "f_val (node_at A a) = f_at A nodes i" by (simp add: f_at_def)
  let ?m = "if f_at A nodes i \<le> f_at A nodes m then i else m"
  have step: "min_f_scan A nodes (i # is) (f_at A nodes m, m) = min_f_scan A nodes is (f_at A nodes ?m, ?m)"
    using Cons.prems a by (simp add: fa)
  have "0 < f_at A nodes ?m" using Cons.prems by simp
  then obtain j where "min_f_scan A nodes is (f_at A nodes ?m, ?m) = Inr j" "j = ?m \<or> j \<in> set is"
    "f_at A nodes j \<le> f_at A nodes ?m" "\<forall>i\<in>set is. f_at A nodes j \<le> f_at A nodes i"
    using Cons.IH [of ?m] Cons.prems by auto
  then show ?case unfolding step by (intro exI [of _ j]) (auto split: if_splits)
qed simp

lemma get_min_f_index_best:
  assumes "readable A nodes [0..<n]" "0 < n" "\<forall>i<n. nodes ! i \<noteq> None" "n = 1 \<or> (\<forall>i<n. 0 < f_at A nodes i)"
  shows "\<exists>j<n. get_min_f_index A nodes n = Inr j \<and> (\<forall>i<n. f_at A nodes j \<le> f_at A nodes i)"
proof -
  have n: "[0..<n] = 0 # [1..<n]" using assms(2) by (simp add: upt_rec)
  obtain a where a: "nodes ! 0 = Some a" using assms(2,3) by auto
  then have fa: "f_val (node_at A a) = f_at A nodes 0" by (simp add: f_at_def)
  have r: "get_node A a = Inr (node_at A a)" "readable A nodes [1..<n]" "0 < length nodes"
    using assms(1) a unfolding n by simp_all
  have step: "get_min_f_index A nodes n = min_f_scan A nodes [1..<n] (f_at A nodes 0, 0)"
    using a r unfolding get_min_f_index_def n by (simp add: fa)
  show ?thesis
  proof (cases "n = 1")
    case True
    then show ?thesis unfolding step by simp
  next
    case False
    then obtain j where "min_f_scan A nodes [1..<n] (f_at A nodes 0, 0) = Inr j" "j = 0 \<or> j \<in> set [1..<n]"
      "f_at A nodes j \<le> f_at A nodes 0" "\<forall>i\<in>set [1..<n]. f_at A nodes j \<le> f_at A nodes i"
      using min_f_scan_best [OF r(2), of 0] assms by auto
    moreover have "f_at A nodes j \<le> f_at A nodes i" if "i < n" for i
      using calculation(3,4) that by (cases "i = 0") auto
    ultimately show ?thesis unfolding step using assms(2) by auto
  qed
qed

end
