(* ===== verification/HS_AstarSearch.thy ===== *)
theory HS_AstarSearch
  imports HS_Astar
begin

text \<open>
  The correctness of the A* search of \<open>HS_Astar\<close>. The locale \<open>consistent_search\<close> is the contract of a
  graph and a heuristic; inside it the invariant of a search with open and closed nodes is kept by closing
  the best open node and by visiting its neighbours, and a closed node is optimal. The grid of the code is
  its interpretation. Paths of length \<open>n\<close> are pairs of \<open>edge ^^ n\<close>.

  One peculiarity of the code is part of the invariant: the closed list handed to \<open>is_in_closed\<close> starts
  one slot early, so its oldest node, the first of the search, is never found, and the first cell can be
  opened a second time. That node is not optimal; it is never the goal.
\<close>

section \<open>The invariant\<close>

abbreviation idx :: "(nat \<Rightarrow> astar_node) \<Rightarrow> nat \<Rightarrow> int" where
  "idx N a \<equiv> node_index (N a)"

abbreviation gv :: "(nat \<Rightarrow> astar_node) \<Rightarrow> nat \<Rightarrow> int" where
  "gv N a \<equiv> g_val (N a)"

definition is_root :: "int \<Rightarrow> (nat \<Rightarrow> astar_node) \<Rightarrow> nat \<Rightarrow> bool" where
  "is_root src N a \<longleftrightarrow> node_parent (N a) = None \<and> idx N a = src \<and> gv N a = 0"

definition is_child :: "(int \<times> int) set \<Rightarrow> (nat \<Rightarrow> astar_node) \<Rightarrow> nat list \<Rightarrow> nat \<Rightarrow> bool" where
  "is_child edge N cs a \<longleftrightarrow>
     (\<exists>p\<in>set cs. node_parent (N a) = Some p \<and> (idx N p, idx N a) \<in> edge \<and> gv N a = gv N p + 1)"

definition optimal :: "(int \<times> int) set \<Rightarrow> int \<Rightarrow> (nat \<Rightarrow> astar_node) \<Rightarrow> nat \<Rightarrow> bool" where
  "optimal edge src N a \<longleftrightarrow> (\<forall>n. (src, idx N a) \<in> edge ^^ n \<longrightarrow> gv N a \<le> int n)"

text \<open>\<open>os\<close> are the open and \<open>cs\<close> the closed nodes, the latest first; \<open>X\<close> are the edges from closed nodes
  that the search has still to look at.\<close>

record astar_view =
  nodes :: "nat \<Rightarrow> astar_node"
  opened :: "nat list"
  closed :: "nat list"
  todo :: "(nat \<times> int) set"

definition covered :: "(int \<times> int) set \<Rightarrow> astar_view \<Rightarrow> bool" where
  "covered edge V \<longleftrightarrow>
     (\<forall>c\<in>set (closed V). \<forall>v. (idx (nodes V) c, v) \<in> edge \<longrightarrow> (c, v) \<in> todo V \<or>
        (\<exists>a\<in>set (opened V) \<union> set (closed V). idx (nodes V) a = v \<and> gv (nodes V) a \<le> gv (nodes V) c + 1))"

definition tree :: "(int \<times> int) set \<Rightarrow> int \<Rightarrow> astar_view \<Rightarrow> bool" where
  "tree edge src V \<longleftrightarrow>
     (\<forall>a\<in>set (opened V) \<union> set (closed V). 0 \<le> gv (nodes V) a \<and>
        (is_root src (nodes V) a \<or> is_child edge (nodes V) (closed V) a))"

definition rooted :: "int \<Rightarrow> astar_view \<Rightarrow> bool" where
  "rooted src V \<longleftrightarrow>
     (if closed V = [] then \<exists>r. opened V = [r] \<and> is_root src (nodes V) r
      else is_root src (nodes V) (last (closed V)))"

definition astar_inv :: "(int \<times> int) set \<Rightarrow> (int \<Rightarrow> int) \<Rightarrow> int \<Rightarrow> int \<Rightarrow> astar_view \<Rightarrow> bool" where
  "astar_inv edge hv src tgt V \<longleftrightarrow>
     tree edge src V \<and> rooted src V \<and> covered edge V \<and>
     distinct (opened V @ closed V) \<and> distinct (map (idx (nodes V)) (opened V @ butlast (closed V))) \<and>
     (\<forall>a\<in>set (opened V). f_val (nodes V a) = gv (nodes V) a + hv (idx (nodes V) a) \<and>
        gv (nodes V) a \<le> int (length (closed V)) \<and> (closed V = [] \<or> 0 < gv (nodes V) a)) \<and>
     (\<forall>c\<in>set (closed V). gv (nodes V) c < int (length (closed V)) \<and> idx (nodes V) c \<noteq> tgt \<and>
        (idx (nodes V) c = src \<or> optimal edge src (nodes V) c))"

lemma last_in_butlast: "distinct cs \<Longrightarrow> cs \<noteq> [] \<Longrightarrow> last cs \<notin> set (butlast cs)"
  by (metis append_butlast_last_id distinct_butlast not_distinct_conv_prefix)

lemma set_last_butlast: "c \<in> set cs \<Longrightarrow> c = last cs \<or> c \<in> set (butlast cs)"
  by (induction cs) (auto split: if_splits)

text \<open>The invariant is about the opened and closed nodes only.\<close>

lemma astar_inv_cong:
  assumes "astar_inv edge hv src tgt V" and same: "\<forall>a\<in>set (opened V) \<union> set (closed V). N a = nodes V a"
  shows "astar_inv edge hv src tgt (V\<lparr>nodes := N\<rparr>)"
proof -
  have b: "set (butlast (closed V)) \<subseteq> set (closed V)" by (auto dest: in_set_butlastD)
  have c: "N c = nodes V c" if "c \<in> set (closed V)" for c using same that by simp
  have o: "N a = nodes V a" if "a \<in> set (opened V)" for a using same that by simp
  have "map (idx N) (opened V @ butlast (closed V)) = map (idx (nodes V)) (opened V @ butlast (closed V))"
    using b c o by auto
  moreover have "is_child edge N (closed V) a = is_child edge (nodes V) (closed V) a"
    if "a \<in> set (opened V) \<union> set (closed V)" for a
    using that same c unfolding is_child_def by (intro bex_cong) auto
  then have "tree edge src (V\<lparr>nodes := N\<rparr>) = tree edge src V"
    using same unfolding tree_def by (intro ball_cong) (auto simp: is_root_def)
  moreover have "rooted src (V\<lparr>nodes := N\<rparr>) = rooted src V"
    using c [of "last (closed V)"] o by (auto simp: rooted_def is_root_def)
  moreover have "covered edge (V\<lparr>nodes := N\<rparr>) = covered edge V"
    using same c unfolding covered_def by simp
  ultimately show ?thesis
    using assms(1) o c by (simp add: astar_inv_def optimal_def del: map_append map_eq_conv)
qed

section \<open>Best-first search with a consistent heuristic\<close>

locale consistent_search =
  fixes edge :: "(int \<times> int) set" and hv :: "int \<Rightarrow> int"
  assumes consistent: "(u, v) \<in> edge \<Longrightarrow> hv u \<le> hv v + 1"
    and nonneg: "0 \<le> hv v"
begin

lemma hv_walk: "(u, v) \<in> edge ^^ n \<Longrightarrow> hv u \<le> hv v + int n"
proof (induction n arbitrary: u)
  case (Suc n)
  then obtain w where "(u, w) \<in> edge" "(w, v) \<in> edge ^^ n" by (meson relpow_Suc_D2)
  then show ?case using consistent [of u w] Suc.IH [of w] by simp
qed simp

text \<open>The nodes form a tree of walks from the source.\<close>

lemma tree_reaches:
  "tree edge src V \<Longrightarrow> a \<in> set (opened V) \<union> set (closed V) \<Longrightarrow>
   (src, idx (nodes V) a) \<in> edge ^^ nat (gv (nodes V) a)"
proof (induction "nat (gv (nodes V) a)" arbitrary: a)
  case 0
  have "0 \<le> gv (nodes V) a" using 0(2,3) by (simp add: tree_def)
  then have g: "gv (nodes V) a = 0" using 0(1) by linarith
  have "\<not> is_child edge (nodes V) (closed V) a"
  proof
    assume "is_child edge (nodes V) (closed V) a"
    then obtain p where "p \<in> set (closed V)" "gv (nodes V) p < 0" using g by (auto simp: is_child_def)
    moreover have "0 \<le> gv (nodes V) p" if "p \<in> set (closed V)" using 0(2) that by (simp add: tree_def)
    ultimately show False by simp
  qed
  then show ?case using 0 by (auto simp: tree_def is_root_def)
next
  case (Suc n)
  then have "\<not> is_root src (nodes V) a" by (auto simp: is_root_def)
  then obtain p where p: "p \<in> set (closed V)" "(idx (nodes V) p, idx (nodes V) a) \<in> edge"
    "gv (nodes V) a = gv (nodes V) p + 1"
    using Suc.prems by (auto simp: tree_def is_child_def)
  then have "n = nat (gv (nodes V) p)" using Suc.hyps(2) by simp
  then have "(src, idx (nodes V) p) \<in> edge ^^ n" using Suc.hyps(1) Suc.prems(1) p(1) by blast
  then show ?case using p(2) Suc.hyps(2) by (metis relpow_Suc_I)
qed

lemma covered_closed_optimal:
  assumes "astar_inv edge hv src tgt V" "c \<in> set (closed V)"
  shows "\<exists>b\<in>set (closed V). idx (nodes V) b = idx (nodes V) c \<and> optimal edge src (nodes V) b"
proof (cases "idx (nodes V) c = src")
  case True
  have "closed V \<noteq> []" using assms(2) by auto
  then have "is_root src (nodes V) (last (closed V))" using assms(1) by (simp add: astar_inv_def rooted_def)
  then show ?thesis using True \<open>closed V \<noteq> []\<close> by (intro bexI [of _ "last (closed V)"]) (auto simp: is_root_def optimal_def)
next
  case False
  then show ?thesis using assms by (auto simp: astar_inv_def)
qed

lemma covered_closed:
  "astar_inv edge hv src tgt V \<Longrightarrow> todo V = {} \<Longrightarrow> c \<in> set (closed V) \<Longrightarrow> (idx (nodes V) c, v) \<in> edge \<Longrightarrow>
   \<exists>a\<in>set (opened V) \<union> set (closed V). idx (nodes V) a = v \<and> gv (nodes V) a \<le> gv (nodes V) c + 1"
  by (auto simp: astar_inv_def covered_def)

text \<open>On every walk to a cell that is not closed there is an open node that the walk reaches no cheaper.\<close>

lemma open_on_walk:
  assumes inv: "astar_inv edge hv src tgt V" and X: "todo V = {}" and ne: "closed V \<noteq> []"
  shows "(src, v) \<in> edge ^^ n \<Longrightarrow> (\<exists>c\<in>set (closed V). idx (nodes V) c = v) \<or>
    (\<exists>k\<le>n. \<exists>a\<in>set (opened V). gv (nodes V) a \<le> int k \<and> (idx (nodes V) a, v) \<in> edge ^^ (n - k))"
proof (induction n arbitrary: v)
  case 0
  have "is_root src (nodes V) (last (closed V))" using inv ne by (simp add: astar_inv_def rooted_def)
  then show ?case using 0 ne by (intro disjI1 bexI [of _ "last (closed V)"]) (auto simp: is_root_def)
next
  case (Suc n)
  then obtain u where u: "(src, u) \<in> edge ^^ n" "(u, v) \<in> edge" by (auto elim: relpow_Suc_E)
  from Suc.IH [OF u(1)] show ?case
  proof (elim disjE bexE exE conjE)
    fix c assume c: "c \<in> set (closed V)" "idx (nodes V) c = u"
    obtain b where b: "b \<in> set (closed V)" "idx (nodes V) b = u" "gv (nodes V) b \<le> int n"
      using covered_closed_optimal [OF inv c(1)] c(2) u(1) by (auto simp: optimal_def)
    then obtain a where a: "a \<in> set (opened V) \<union> set (closed V)" "idx (nodes V) a = v"
      "gv (nodes V) a \<le> gv (nodes V) b + 1"
      using covered_closed [OF inv X b(1)] u(2) b(2) by blast
    show ?thesis
    proof (cases "a \<in> set (closed V)")
      case True
      then show ?thesis using a(2) by blast
    next
      case False
      then show ?thesis using a b(3) by (intro disjI2 exI [of _ "Suc n"] conjI bexI [of _ a]) auto
    qed
  next
    fix k a assume k: "k \<le> n" "a \<in> set (opened V)" "gv (nodes V) a \<le> int k"
      "(idx (nodes V) a, u) \<in> edge ^^ (n - k)"
    then have "(idx (nodes V) a, v) \<in> edge ^^ (Suc n - k)"
      using u(2) by (metis Suc_diff_le relpow_Suc_I)
    then show ?thesis using k by (intro disjI2 exI [of _ k]) auto
  qed
qed

text \<open>The best open node is optimal, unless it is the second node of the source.\<close>

lemma best_is_optimal:
  assumes inv: "astar_inv edge hv src tgt V" and X: "todo V = {}"
    and cur: "cur \<in> set (opened V)" "\<forall>a\<in>set (opened V). f_val (nodes V cur) \<le> f_val (nodes V a)"
  shows "idx (nodes V) cur = src \<or> optimal edge src (nodes V) cur"
proof (cases "closed V = []")
  case True
  then show ?thesis using inv cur(1) by (auto simp: astar_inv_def rooted_def is_root_def)
next
  case ne: False
  have "gv (nodes V) cur \<le> int n" if other: "idx (nodes V) cur \<noteq> src"
    and walk: "(src, idx (nodes V) cur) \<in> edge ^^ n" for n
  proof -
    have "idx (nodes V) c \<noteq> idx (nodes V) cur" if "c \<in> set (closed V)" for c
    proof (cases "c = last (closed V)")
      case True
      then show ?thesis using inv ne other by (auto simp: astar_inv_def rooted_def is_root_def)
    next
      case False
      then have "c \<in> set (butlast (closed V))" using set_last_butlast [OF that] by simp
      then show ?thesis using inv cur(1) by (fastforce simp: astar_inv_def)
    qed
    then obtain k a where a: "k \<le> n" "a \<in> set (opened V)" "gv (nodes V) a \<le> int k"
      "(idx (nodes V) a, idx (nodes V) cur) \<in> edge ^^ (n - k)"
      using open_on_walk [OF inv X ne walk] by blast
    have "hv (idx (nodes V) a) \<le> hv (idx (nodes V) cur) + int (n - k)" by (rule hv_walk [OF a(4)])
    moreover have "f_val (nodes V cur) \<le> f_val (nodes V a)" using cur(2) a(2) by blast
    moreover have "f_val (nodes V x) = gv (nodes V) x + hv (idx (nodes V) x)" if "x \<in> set (opened V)" for x
      using inv that by (simp add: astar_inv_def)
    ultimately show ?thesis using a(1,2,3) cur(1) by fastforce
  qed
  then show ?thesis by (auto simp: optimal_def)
qed

lemma closing_keeps:
  assumes inv: "astar_inv edge hv src tgt V" and X: "todo V = {}"
    and split: "opened V = xs @ cur # ys" and best: "\<forall>a\<in>set (opened V). f_val (nodes V cur) \<le> f_val (nodes V a)"
    and other: "idx (nodes V) cur \<noteq> tgt"
  shows "astar_inv edge hv src tgt
    (V\<lparr>opened := xs @ ys, closed := cur # closed V, todo := {cur} \<times> {v. (idx (nodes V) cur, v) \<in> edge}\<rparr>)"
proof -
  have opt: "idx (nodes V) cur = src \<or> optimal edge src (nodes V) cur"
    using best_is_optimal [OF inv X _ best] split by simp
  have "tree edge src V" using inv by (simp add: astar_inv_def)
  then have "tree edge src (V\<lparr>opened := xs @ ys, closed := cur # closed V, todo := Z\<rparr>)" for Z
    using split by (auto simp: tree_def is_child_def)
  moreover have "covered edge V" using inv by (simp add: astar_inv_def)
  then have "covered edge (V\<lparr>opened := xs @ ys, closed := cur # closed V,
      todo := {cur} \<times> {v. (idx (nodes V) cur, v) \<in> edge}\<rparr>)"
    using split X by (auto simp: covered_def)
  moreover have "rooted src (V\<lparr>opened := xs @ ys, closed := cur # closed V, todo := Z\<rparr>)" for Z
    using inv split by (auto simp: astar_inv_def rooted_def Cons_eq_append_conv append_eq_Cons_conv split: if_splits)
  moreover have "distinct (map (idx (nodes V)) ((xs @ ys) @ butlast (cur # closed V)))"
    using inv split by (auto simp: astar_inv_def)
  moreover have "distinct ((xs @ ys) @ cur # closed V)"
    using inv split by (auto simp: astar_inv_def)
  moreover have "f_val (nodes V a) = gv (nodes V) a + hv (idx (nodes V) a) \<and>
      gv (nodes V) a \<le> int (length (cur # closed V)) \<and> 0 < gv (nodes V) a" if "a \<in> set (xs @ ys)" for a
  proof -
    have "a \<in> set (opened V)" using split that by auto
    then have "f_val (nodes V a) = gv (nodes V) a + hv (idx (nodes V) a)" "gv (nodes V) a \<le> int (length (closed V))"
      "closed V = [] \<or> 0 < gv (nodes V) a" using inv by (simp_all add: astar_inv_def)
    moreover have "closed V \<noteq> []"
      using inv split that by (auto simp: astar_inv_def rooted_def append_eq_Cons_conv split: if_splits)
    ultimately show ?thesis by simp
  qed
  moreover have "gv (nodes V) c < int (length (cur # closed V)) \<and> idx (nodes V) c \<noteq> tgt \<and>
      (idx (nodes V) c = src \<or> optimal edge src (nodes V) c)" if "c \<in> set (cur # closed V)" for c
  proof (cases "c = cur")
    case True
    have "gv (nodes V) cur \<le> int (length (closed V))" using inv split by (simp add: astar_inv_def)
    then show ?thesis using True opt other by simp
  next
    case False
    then have "c \<in> set (closed V)" using that by simp
    then have "gv (nodes V) c < int (length (closed V)) \<and> idx (nodes V) c \<noteq> tgt \<and>
      (idx (nodes V) c = src \<or> optimal edge src (nodes V) c)" using inv by (simp add: astar_inv_def)
    then show ?thesis by simp
  qed
  ultimately show ?thesis unfolding astar_inv_def by simp
qed

text \<open>Visiting a neighbour \<open>v\<close> of the closed node \<open>cur\<close>: found with a good value, opened, or improved.\<close>

lemma found_keeps:
  assumes "astar_inv edge hv src tgt V"
    and "a \<in> set (opened V) \<union> set (closed V)" "idx (nodes V) a = v" "gv (nodes V) a \<le> gv (nodes V) cur + 1"
  shows "astar_inv edge hv src tgt (V\<lparr>todo := todo V - {(cur, v)}\<rparr>)"
proof -
  have "covered edge V" using assms(1) by (simp add: astar_inv_def)
  then have "covered edge (V\<lparr>todo := todo V - {(cur, v)}\<rparr>)"
    unfolding covered_def using assms(2-4) by simp blast
  moreover have "tree edge src (V\<lparr>todo := Z\<rparr>) = tree edge src V" "rooted src (V\<lparr>todo := Z\<rparr>) = rooted src V" for Z
    by (simp_all add: tree_def rooted_def)
  ultimately show ?thesis using assms(1) by (simp add: astar_inv_def)
qed

lemma closed_keeps:
  assumes inv: "astar_inv edge hv src tgt V" and cur: "cur \<in> set (closed V)" "(idx (nodes V) cur, v) \<in> edge"
    and c: "c \<in> set (closed V)" "idx (nodes V) c = v"
  shows "astar_inv edge hv src tgt (V\<lparr>todo := todo V - {(cur, v)}\<rparr>)"
proof -
  have t: "tree edge src V" using inv by (simp add: astar_inv_def)
  then have pos: "0 \<le> gv (nodes V) cur" using cur(1) by (simp add: tree_def)
  have "(src, idx (nodes V) cur) \<in> edge ^^ nat (gv (nodes V) cur)"
    using tree_reaches [OF t] cur(1) by blast
  then have walk: "(src, v) \<in> edge ^^ Suc (nat (gv (nodes V) cur))" using cur(2) by (metis relpow_Suc_I)
  obtain b where b: "b \<in> set (closed V)" "idx (nodes V) b = v" "optimal edge src (nodes V) b"
    using covered_closed_optimal [OF inv c(1)] c(2) by auto
  then have "gv (nodes V) b \<le> int (Suc (nat (gv (nodes V) cur)))" using walk unfolding optimal_def by blast
  then have "gv (nodes V) b \<le> gv (nodes V) cur + 1" using pos by simp
  then show ?thesis using found_keeps [OF inv _ b(2)] b(1) by blast
qed

text \<open>A new value for a node that is not closed leaves the closed nodes alone.\<close>

lemma value_keeps:
  assumes inv: "astar_inv edge hv src tgt V" and cur: "cur \<in> set (closed V)" "(idx (nodes V) cur, v) \<in> edge"
    and a: "a \<notin> set (closed V)" "a \<in> set os" "set os = insert a (set (opened V))" "distinct os"
    and os: "distinct (map (idx ((nodes V)(a := n))) (os @ butlast (closed V)))"
    and n: "node_index n = v" "g_val n = gv (nodes V) cur + 1" "f_val n = g_val n + hv v"
      "node_parent n = Some cur"
    and better: "a \<in> set (opened V) \<Longrightarrow> idx (nodes V) a = v \<and> g_val n \<le> gv (nodes V) a"
  shows "astar_inv edge hv src tgt
    (V\<lparr>nodes := (nodes V)(a := n), opened := os, todo := todo V - {(cur, v)}\<rparr>)"
proof -
  let ?N = "(nodes V)(a := n)" and ?V = "V\<lparr>nodes := (nodes V)(a := n), opened := os, todo := todo V - {(cur, v)}\<rparr>"
  have same: "?N c = nodes V c" if "c \<in> set (closed V)" for c using a(1) that by auto
  have inv': "tree edge src V" "covered edge V" "rooted src V" using inv by (simp_all add: astar_inv_def)
  have ne: "closed V \<noteq> []" using cur(1) by auto
  have "0 \<le> gv (nodes V) cur" using inv'(1) cur(1) by (simp add: tree_def)
  then have "0 \<le> g_val n" using n(2) by simp
  have child: "is_child edge ?N (closed V) b" if "is_child edge (nodes V) (closed V) b" "b \<noteq> a" for b
    using that same unfolding is_child_def by (metis fun_upd_other)
  have "is_child edge ?N (closed V) a"
    using cur n same unfolding is_child_def by (intro bexI [of _ cur]) auto
  then have "tree edge src ?V"
    using inv'(1) \<open>0 \<le> g_val n\<close> child a(3) by (auto simp: tree_def is_root_def)
  moreover have "rooted src ?V"
    using inv'(3) ne same [of "last (closed V)"] by (simp add: rooted_def is_root_def)
  moreover have "covered edge ?V"
    unfolding covered_def
  proof (intro ballI allI impI)
    fix c w assume c: "c \<in> set (closed ?V)" and w: "(idx (nodes ?V) c, w) \<in> edge"
    have c': "c \<in> set (closed V)" "?N c = nodes V c" using c same by simp_all
    have "(c, w) \<in> todo V \<or> (\<exists>b\<in>set (opened V) \<union> set (closed V). idx (nodes V) b = w \<and>
        gv (nodes V) b \<le> gv (nodes V) c + 1)"
      using inv'(2) c' w unfolding covered_def by simp
    then show "(c, w) \<in> todo ?V \<or> (\<exists>b\<in>set (opened ?V) \<union> set (closed ?V). idx (nodes ?V) b = w \<and>
        gv (nodes ?V) b \<le> gv (nodes ?V) c + 1)"
    proof
      assume t: "(c, w) \<in> todo V"
      show ?thesis
      proof (cases "(c, w) = (cur, v)")
        case True
        then show ?thesis using a(2) n c'(2) by (intro disjI2 bexI [of _ a]) auto
      next
        case False
        then show ?thesis using t by auto
      qed
    next
      assume "\<exists>b\<in>set (opened V) \<union> set (closed V). idx (nodes V) b = w \<and> gv (nodes V) b \<le> gv (nodes V) c + 1"
      then obtain b where b: "b \<in> set (opened V) \<union> set (closed V)" "idx (nodes V) b = w"
        "gv (nodes V) b \<le> gv (nodes V) c + 1" by blast
      show ?thesis
      proof (cases "b = a")
        case True
        then have "a \<in> set (opened V)" using b(1) a(1) by auto
        then have "v = w" "g_val n \<le> gv (nodes V) c + 1" using better b(2,3) True by auto
        then show ?thesis using n(1) c'(2) a(2) by (intro disjI2 bexI [of _ a]) auto
      next
        case False
        then show ?thesis using b c'(2) a(3) by (intro disjI2 bexI [of _ b]) auto
      qed
    qed
  qed
  moreover have "distinct (os @ closed V)" using inv a by (auto simp: astar_inv_def)
  moreover have "f_val (?N b) = gv ?N b + hv (idx ?N b) \<and> gv ?N b \<le> int (length (closed V)) \<and> 0 < gv ?N b" if "b \<in> set os" for b
  proof (cases "b = a")
    case True
    have "gv (nodes V) cur < int (length (closed V))" using inv cur(1) by (simp add: astar_inv_def)
    then show ?thesis using True n \<open>0 \<le> gv (nodes V) cur\<close> by simp
  next
    case False
    then have "b \<in> set (opened V)" using that a(3) by auto
    then show ?thesis using inv False ne by (simp add: astar_inv_def)
  qed
  moreover have "gv ?N c < int (length (closed V)) \<and> idx ?N c \<noteq> tgt \<and>
      (idx ?N c = src \<or> optimal edge src ?N c)" if "c \<in> set (closed V)" for c
    using inv that same [OF that] by (simp add: astar_inv_def optimal_def)
  ultimately show ?thesis using os unfolding astar_inv_def by simp
qed

lemma opening_keeps:
  assumes inv: "astar_inv edge hv src tgt V" and cur: "cur \<in> set (closed V)" "(idx (nodes V) cur, v) \<in> edge"
    and a: "a \<notin> set (opened V) \<union> set (closed V)"
    and new: "v \<notin> idx (nodes V) ` set (opened V @ butlast (closed V))"
    and n: "node_index n = v" "g_val n = gv (nodes V) cur + 1" "f_val n = g_val n + hv v" "node_parent n = Some cur"
  shows "astar_inv edge hv src tgt
    (V\<lparr>nodes := (nodes V)(a := n), opened := opened V @ [a], todo := todo V - {(cur, v)}\<rparr>)"
proof -
  let ?f = "idx ((nodes V)(a := n))"
  have old: "map ?f (opened V) = map (idx (nodes V)) (opened V)"
    "map ?f (butlast (closed V)) = map (idx (nodes V)) (butlast (closed V))"
    using a by (auto dest: in_set_butlastD)
  have "distinct (map (idx (nodes V)) (opened V) @ map (idx (nodes V)) (butlast (closed V)))"
    using inv by (simp add: astar_inv_def)
  then have "distinct (map (idx (nodes V)) (opened V) @ [v] @ map (idx (nodes V)) (butlast (closed V)))"
    using new by auto
  moreover have "map ?f ((opened V @ [a]) @ butlast (closed V)) =
      map (idx (nodes V)) (opened V) @ [v] @ map (idx (nodes V)) (butlast (closed V))"
    using old n(1) by (simp del: map_eq_conv)
  ultimately have "distinct (map ?f ((opened V @ [a]) @ butlast (closed V)))" by (simp only:)
  then show ?thesis
    using a inv by (intro value_keeps [OF inv cur _ _ _ _ _ n]) (auto simp: astar_inv_def)
qed

lemma improving_keeps:
  assumes inv: "astar_inv edge hv src tgt V" and cur: "cur \<in> set (closed V)" "(idx (nodes V) cur, v) \<in> edge"
    and a: "a \<in> set (opened V)" "idx (nodes V) a = v" "gv (nodes V) cur + 1 < gv (nodes V) a"
    and n: "node_index n = v" "g_val n = gv (nodes V) cur + 1" "f_val n = g_val n + hv v" "node_parent n = Some cur"
  shows "astar_inv edge hv src tgt (V\<lparr>nodes := (nodes V)(a := n), todo := todo V - {(cur, v)}\<rparr>)"
proof -
  have "map (idx ((nodes V)(a := n))) xs = map (idx (nodes V)) xs" for xs using a(2) n(1) by simp
  then have "distinct (map (idx ((nodes V)(a := n))) (opened V @ butlast (closed V)))"
    using inv by (simp only: astar_inv_def)
  then have "astar_inv edge hv src tgt
      (V\<lparr>nodes := (nodes V)(a := n), opened := opened V, todo := todo V - {(cur, v)}\<rparr>)"
    using a inv by (intro value_keeps [OF inv cur _ _ _ _ _ n]) (auto simp: astar_inv_def n)
  then show ?thesis by simp
qed

text \<open>When no node is open, the closed nodes are all that the source reaches.\<close>

lemma exhausted:
  assumes inv: "astar_inv edge hv src tgt V" and "todo V = {}" "opened V = []"
  shows "(src, tgt) \<notin> edge ^^ n"
proof
  assume walk: "(src, tgt) \<in> edge ^^ n"
  have "closed V \<noteq> []" using inv assms(3) by (auto simp: astar_inv_def rooted_def)
  then obtain c where "c \<in> set (closed V)" "idx (nodes V) c = tgt"
    using open_on_walk [OF inv assms(2) _ walk] assms(3) by auto
  then show False using inv by (auto simp: astar_inv_def)
qed

end

end
