(* ===== verification/HS_AstarPath.thy ===== *)
theory HS_AstarPath
  imports HS_AstarPool HS_AstarSearch
begin

text \<open>
  The A* search of \<open>HS_Astar\<close> finds shortest paths: its grid is a graph with a consistent heuristic, and
  every round of the loop over arrays and pool is a round of the abstract search of \<open>HS_AstarSearch\<close>.
\<close>

section \<open>Coordinates\<close>

lemma coord_less: "x < width \<longleftrightarrow> uint x < uint width" "x \<ge> width \<longleftrightarrow> \<not> uint x < uint width" for x width :: u16
  by (simp_all add: word_less_def word_le_def not_less)

lemma cell_bound:
  fixes x y w h :: int
  assumes "0 \<le> x" "x < w" "0 \<le> y" "y < h"
  shows "0 \<le> y * w + x" "y * w + x < w * h"
proof -
  show "0 \<le> y * w + x" using assms by simp
  have "y * w + x < (y + 1) * w" using assms by (simp add: algebra_simps)
  also have "\<dots> \<le> h * w" using assms by (intro mult_right_mono) auto
  finally show "y * w + x < w * h" by (simp add: mult.commute)
qed

lemma cell_split: "0 \<le> x \<Longrightarrow> x < w \<Longrightarrow> (y * w + x) mod w = x" "0 \<le> x \<Longrightarrow> x < w \<Longrightarrow> (y * w + x) div w = y"
  for x y w :: int
  by simp_all

lemma hs_coord2index_in:
  assumes "uint x < uint w" "uint y < uint h" "fits_int32 (uint w * uint h)"
  shows "hs_coord2index x y w h = Inr (uint y * uint w + uint x)"
proof -
  have "0 \<le> uint y * uint w + uint x" "uint y * uint w + uint x < uint w * uint h"
    using assms by (simp_all only: cell_bound uint_ge_0)
  then have "fits_int32 (uint y * uint w + uint x)"
    using assms(3) unfolding fits_int32_def by linarith
  then show ?thesis using assms by (simp add: hs_coord2index_def coord_less)
qed

lemma div_less_height: "i < b * h \<Longrightarrow> i div b < h" if "0 < b" for b h i :: int
proof -
  assume "i < b * h"
  moreover have "b * (i div b) + i mod b = i" "0 \<le> i mod b" using that by simp_all
  ultimately have "b * (i div b) < b * h" by linarith
  then show ?thesis using that by simp
qed

lemma hs_index2coord_in:
  assumes "0 \<le> i" "i < uint w * uint h" "fits_int32 (uint w * uint h)"
  shows "hs_index2coord i w h = Inr (Some (of_int (i mod uint w), of_int (i div uint w)))"
    and "uint (of_int (i mod uint w) :: u16) = i mod uint w" "uint (of_int (i div uint w) :: u16) = i div uint w"
    and "i mod uint w < uint w" "i div uint w < uint h"
proof -
  have w: "0 < uint w" using assms by (metis less_le_not_le mult_zero_left uint_nonnegative verit_la_disequality)
  have h: "i div uint w < uint h"
    using div_less_height [OF w] assms(2) by (simp add: mult.commute)
  then show "i div uint w < uint h" .
  show m: "i mod uint w < uint w" using w by simp
  have lt: "uint w < 2 ^ 16" "uint h < 2 ^ 16" using uint_bounded [of w] uint_bounded [of h] by simp_all
  have d: "0 \<le> i div uint w" using assms w by (simp add: pos_imp_zdiv_nonneg_iff)
  show ux: "uint (of_int (i mod uint w) :: u16) = i mod uint w"
    using order.strict_trans [OF m lt(1)] w by (simp add: uint_word_of_int mod_pos_pos_trivial)
  show uy: "uint (of_int (i div uint w) :: u16) = i div uint w"
    using h d lt by (simp add: uint_word_of_int)
  have "i sdiv uint w = i div uint w" using assms(1) w by (simp add: signed_divide_int_def sgn_if)
  moreover have "w \<noteq> 0" using w by auto
  moreover have "i - i div uint w * uint w = i mod uint w" by (simp add: minus_div_mult_eq_mod)
  ultimately show "hs_index2coord i w h = Inr (Some (of_int (i mod uint w), of_int (i div uint w)))"
    using assms uy by (simp add: hs_index2coord_def Let_def del: of_int_diff of_int_mult)
qed

definition grid_ok :: "astar_array \<Rightarrow> bool" where
  "grid_ok aa \<longleftrightarrow> 0 < uint (a_width aa) \<and> uint (a_width aa) \<le> 128 \<and>
     0 < uint (a_height aa) \<and> uint (a_height aa) \<le> 128 \<and> length (cells aa) = tt_len"

definition grid_size :: "astar_array \<Rightarrow> int" where
  "grid_size aa = uint (a_width aa) * uint (a_height aa)"

text \<open>The cells beside each other that are not blocked, and the distance without obstacles.\<close>

definition grid_dist :: "astar_array \<Rightarrow> int \<Rightarrow> int \<Rightarrow> int" where
  "grid_dist aa i j = \<bar>i mod uint (a_width aa) - j mod uint (a_width aa)\<bar> +
     \<bar>i div uint (a_width aa) - j div uint (a_width aa)\<bar>"

definition grid_edge :: "astar_array \<Rightarrow> (int \<times> int) set" where
  "grid_edge aa = {(i, j). i \<in> {0..<grid_size aa} \<and> j \<in> {0..<grid_size aa} \<and> grid_dist aa i j = 1 \<and>
     cells aa ! nat j \<noteq> 1}"

interpretation grid: consistent_search "grid_edge aa" "\<lambda>i. grid_dist aa i e" for aa e
  by unfold_locales (auto simp: grid_edge_def grid_dist_def)

lemma grid_fits: "grid_ok aa \<Longrightarrow> fits_int32 (uint (a_width aa) * uint (a_height aa))"
proof -
  assume a: "grid_ok aa"
  then have "uint (a_width aa) * uint (a_height aa) \<le> 128 * 128"
    unfolding grid_ok_def by (intro mult_mono) auto
  moreover have "fits_int32 k" if "0 \<le> k" "k \<le> 128 * 128" for k using that by (simp add: fits_int32_def)
  ultimately show ?thesis by simp
qed

lemma grid_size_le: "grid_ok aa \<Longrightarrow> grid_size aa \<le> 16384"
proof -
  assume "grid_ok aa"
  then have "uint (a_width aa) * uint (a_height aa) \<le> 128 * 128"
    unfolding grid_ok_def by (intro mult_mono) auto
  then show ?thesis by (simp add: grid_size_def)
qed

text \<open>A cell of the grid that is not blocked.\<close>

definition free_at :: "astar_array \<Rightarrow> u16 \<Rightarrow> u16 \<Rightarrow> bool" where
  "free_at aa nx ny \<longleftrightarrow> uint nx < uint (a_width aa) \<and> uint ny < uint (a_height aa) \<and>
     cells aa ! nat (uint ny * uint (a_width aa) + uint nx) \<noteq> 1"

lemma mod_offset: "32768 \<le> k \<Longrightarrow> k < 65536 \<Longrightarrow> (k + 32768) mod 65536 = k - 32768" for k :: int
  by (simp add: mod_pos_geq)

lemma sint_small: "sint x < 0 \<or> sint x \<ge> n \<longleftrightarrow> uint x \<ge> n" if "0 < n" "n \<le> 128" for x :: u16 and n :: int
proof -
  have b: "0 \<le> uint x" "uint x < 65536" using uint_bounded [of x] by simp_all
  have "sint x = (uint x + 32768) mod 65536 - 32768"
    by (simp add: sint_uint signed_take_bit_eq_take_bit_shift take_bit_eq_mod)
  also have "\<dots> = (if uint x < 32768 then uint x else uint x - 65536)" using b mod_offset by simp
  finally show ?thesis using that b by simp
qed

lemma is_blocked_free:
  assumes "grid_ok aa"
  shows "is_blocked aa nx ny = Inr (\<not> free_at aa nx ny)"
proof (cases "uint nx < uint (a_width aa) \<and> uint ny < uint (a_height aa)")
  case True
  let ?i = "uint ny * uint (a_width aa) + uint nx"
  have i: "0 \<le> ?i" "?i < uint (a_width aa) * uint (a_height aa)"
    using True by (simp_all add: cell_bound)
  then have "nat ?i < length (cells aa)"
    using grid_size_le [OF assms] assms by (simp add: grid_ok_def grid_size_def tt_len nat_less_iff)
  moreover have "\<not> (sint ny < 0 \<or> sint ny \<ge> uint (a_height aa))" "\<not> (sint nx < 0 \<or> sint nx \<ge> uint (a_width aa))"
    using True assms by (simp_all only: sint_small grid_ok_def) auto
  ultimately show ?thesis
    using True hs_coord2index_in [of nx "a_width aa" ny "a_height aa"] grid_fits [OF assms]
    by (simp add: is_blocked_def free_at_def)
next
  case False
  then have "(sint ny < 0 \<or> sint ny \<ge> uint (a_height aa)) \<or> (sint nx < 0 \<or> sint nx \<ge> uint (a_width aa))"
    using assms by (simp only: sint_small grid_ok_def) auto
  then show ?thesis using False by (auto simp: is_blocked_def free_at_def)
qed

lemma neighbours_coords:
  fixes cx cy :: u16
  assumes "uint cx < 128" "uint cy < 128"
  shows "uint (cx + 1) = uint cx + 1" "uint (cy + 1) = uint cy + 1"
    "uint (cx - 1) = (if cx = 0 then 65535 else uint cx - 1)"
    "uint (cy - 1) = (if cy = 0 then 65535 else uint cy - 1)"
proof -
  have p: "uint (c + 1) = uint c + 1" if "uint c < 128" for c :: u16
    using that by (simp add: uint_word_ariths)
  have m: "uint (c - 1) = (if c = 0 then 65535 else uint c - 1)" if "uint c < 128" for c :: u16
  proof (cases "c = 0")
    case False
    then have "0 < uint c" by (simp add: uint_0_iff less_le)
    then show ?thesis using that False by (simp add: uint_word_ariths)
  qed (simp add: unsigned_minus_1_eq_mask mask_eq_exp_minus_1)
  show "uint (cx + 1) = uint cx + 1" by (rule p [OF assms(1)])
  show "uint (cy + 1) = uint cy + 1" by (rule p [OF assms(2)])
  show "uint (cx - 1) = (if cx = 0 then 65535 else uint cx - 1)" by (rule m [OF assms(1)])
  show "uint (cy - 1) = (if cy = 0 then 65535 else uint cy - 1)" by (rule m [OF assms(2)])
qed

text \<open>The edges out of a cell are its free neighbours.\<close>

lemma edge_neighbours:
  assumes "grid_ok aa" "uint cx < uint (a_width aa)" "uint cy < uint (a_height aa)"
  shows "(uint cy * uint (a_width aa) + uint cx, j) \<in> grid_edge aa \<longleftrightarrow>
    (\<exists>nx ny. (nx, ny) \<in> set (neighbours cx cy) \<and> free_at aa nx ny \<and> j = uint ny * uint (a_width aa) + uint nx)"
    (is "?l \<longleftrightarrow> ?r")
proof -
  let ?w = "uint (a_width aa)" and ?h = "uint (a_height aa)"
  have wh: "0 < ?w" "?w \<le> 128" "0 < ?h" "?h \<le> 128" using assms(1) by (simp_all add: grid_ok_def)
  note split = cell_split
  have c: "uint cx < 128" "uint cy < 128" using assms wh by linarith+
  note nb = neighbours_coords [OF c]
  have zero: "uint v = 0 \<longleftrightarrow> v = 0" for v :: u16 by (simp add: uint_0_iff)
  have size: "y * ?w + x \<in> {0..<grid_size aa}" if "0 \<le> x" "x < ?w" "0 \<le> y" "y < ?h" for x y
    using cell_bound [OF that] by (simp add: grid_size_def)
  show ?thesis
  proof
    assume ?r
    then obtain nx ny where n: "(nx, ny) \<in> set (neighbours cx cy)" "free_at aa nx ny" "j = uint ny * ?w + uint nx"
      by blast
    have f: "uint nx < ?w" "uint ny < ?h" "cells aa ! nat j \<noteq> 1" using n by (simp_all add: free_at_def)
    have "\<bar>uint cx - uint nx\<bar> + \<bar>uint cy - uint ny\<bar> = 1"
      using n(1) f wh nb by (auto simp: neighbours_def split: if_splits)
    then show ?l
      using f n(3) assms(2,3) size by (simp add: grid_edge_def grid_dist_def split)
  next
    assume e: ?l
    obtain x y where xy: "x = j mod ?w" "y = j div ?w" by simp
    have j: "0 \<le> j" "j < ?w * ?h" "cells aa ! nat j \<noteq> 1" using e by (simp_all add: grid_edge_def grid_size_def)
    have d: "\<bar>uint cx - x\<bar> + \<bar>uint cy - y\<bar> = 1"
      using e assms(2) xy by (simp add: grid_edge_def grid_dist_def split)
    have b: "0 \<le> x" "x < ?w" "0 \<le> y" "y < ?h"
      using xy j wh div_less_height [OF wh(1) j(2)] by (simp_all add: pos_imp_zdiv_nonneg_iff)
    have jxy: "j = y * ?w + x" using xy by simp
    have found: ?r if "(nx, ny) \<in> set (neighbours cx cy)" "uint nx = x" "uint ny = y" for nx ny
      using that b j(3) jxy by (intro exI [of _ nx] exI [of _ ny]) (simp add: free_at_def)
    consider "x = uint cx" "y = uint cy - 1" | "x = uint cx" "y = uint cy + 1"
      | "x = uint cx - 1" "y = uint cy" | "x = uint cx + 1" "y = uint cy" using d by linarith
    then show ?r
    proof cases
      case 1
      then have "cy \<noteq> 0" using b(3) by auto
      then show ?thesis using 1 nb by (intro found [of cx "cy - 1"]) (auto simp: neighbours_def)
    next
      case 2
      then show ?thesis using nb by (intro found [of cx "cy + 1"]) (auto simp: neighbours_def)
    next
      case 3
      then have "cx \<noteq> 0" using b(1) by auto
      then show ?thesis using 3 nb by (intro found [of "cx - 1" cy]) (auto simp: neighbours_def)
    next
      case 4
      then show ?thesis using nb by (intro found [of "cx + 1" cy]) (auto simp: neighbours_def)
    qed
  qed
qed

section \<open>Rounds of the loop\<close>

text \<open>A state of the search as the view of the abstract search; \<open>start\<close> counts the nodes that were taken
  from the pool before it.\<close>

definition memory_ok :: "nat \<Rightarrow> search \<Rightarrow> nat list \<Rightarrow> nat list \<Rightarrow> bool" where
  "memory_ok start s os cs \<longleftrightarrow>
     pool_wf (pool s) \<and> open_close_nodes s = layout os cs \<and> open_num s = length os \<and>
     closed_num s = length cs \<and> closed_curr_index s = tt_len - 1 - length cs \<and>
     (\<forall>a\<in>set os \<union> set cs. a < start + length os + length cs) \<and>
     pool_top (pool s) = start + length os + length cs"

definition refines :: "astar_array \<Rightarrow> nat \<Rightarrow> int \<Rightarrow> int \<Rightarrow> search \<Rightarrow> astar_view \<Rightarrow> bool" where
  "refines aa start src tgt s V \<longleftrightarrow>
     memory_ok start s (opened V) (closed V) \<and> nodes V = node_at (pool s) \<and>
     src \<in> {0..<grid_size aa} \<and> astar_inv (grid_edge aa) (\<lambda>i. grid_dist aa i tgt) src tgt V"

definition room :: "astar_array \<Rightarrow> nat \<Rightarrow> bool" where
  "room aa start \<longleftrightarrow> grid_ok aa \<and> int start + grid_size aa + 1 \<le> 4095"

lemma refinesD:
  assumes "refines aa start src tgt s V"
  shows "pool_wf (pool s)" "open_close_nodes s = layout (opened V) (closed V)" "open_num s = length (opened V)"
    "closed_num s = length (closed V)" "closed_curr_index s = tt_len - 1 - length (closed V)"
    "pool_top (pool s) = start + length (opened V) + length (closed V)" "nodes V = node_at (pool s)"
    "astar_inv (grid_edge aa) (\<lambda>i. grid_dist aa i tgt) src tgt V"
  using assms by (simp_all add: refines_def memory_ok_def)

lemma refines_get:
  assumes "refines aa start src tgt s V" "a \<in> set (opened V) \<union> set (closed V)"
  shows "get_node (pool s) a = Inr (nodes V a)" "a < pool_top (pool s)"
proof -
  show "a < pool_top (pool s)" using assms by (simp add: refines_def memory_ok_def)
  then show "get_node (pool s) a = Inr (nodes V a)"
    using get_node_at refinesD(1,7) [OF assms(1)] by simp
qed

lemma refines_cell:
  assumes "refines aa start src tgt s V" "a \<in> set (opened V) \<union> set (closed V)"
  shows "idx (nodes V) a \<in> {0..<grid_size aa}"
proof -
  have "is_root src (nodes V) a \<or> is_child (grid_edge aa) (nodes V) (closed V) a"
    using refinesD(8) [OF assms(1)] assms(2) by (simp add: astar_inv_def tree_def)
  then show ?thesis using assms(1) by (auto simp: is_root_def is_child_def refines_def grid_edge_def)
qed

text \<open>Distinct cells bound the number of nodes.\<close>

lemma cells_card:
  assumes "refines aa start src tgt s V"
  shows "int (length (opened V @ butlast (closed V))) \<le> grid_size aa"
proof -
  let ?xs = "map (idx (nodes V)) (opened V @ butlast (closed V))"
  have "set ?xs \<subseteq> {0..<grid_size aa}"
    using refines_cell [OF assms] by (fastforce dest: in_set_butlastD)
  then have "card (set ?xs) \<le> card {0..<grid_size aa}" by (intro card_mono) auto
  moreover have "distinct ?xs" using refinesD(8) [OF assms] by (simp only: astar_inv_def)
  ultimately have "length ?xs \<le> nat (grid_size aa)" by (simp only: distinct_card card_atLeastLessThan_int diff_0_right)
  moreover have "0 \<le> grid_size aa" by (simp add: grid_size_def)
  ultimately show ?thesis by simp
qed

lemma room_sizes:
  assumes "refines aa start src tgt s V" "room aa start"
  shows "length (opened V) + length (closed V) \<le> nat (grid_size aa) + 1"
    "length (opened V) + length (closed V) + 1 < tt_len"
    "start + length (opened V) + length (closed V) \<le> 4095"
  using cells_card [OF assms(1)] assms(2) by (auto simp: room_def tt_len)

lemma readable_layout:
  assumes "refines aa start src tgt s V" "length (opened V) + length (closed V) \<le> tt_len" "set is \<subseteq> {..<tt_len}"
  shows "readable (pool s) (open_close_nodes s) is"
proof -
  have "a \<in> set (opened V) \<union> set (closed V)" if "i < tt_len" "layout (opened V) (closed V) ! i = Some a" for i a
  proof -
    have "Some a \<in> set (layout (opened V) (closed V))"
      using that length_layout [OF assms(2)] by (metis nth_mem)
    then show ?thesis by (auto simp: layout_def)
  qed
  then have "get_node (pool s) a = Inr (node_at (pool s) a)"
    if "i < tt_len" "layout (opened V) (closed V) ! i = Some a" for i a
    using refines_get(1) [OF assms(1)] refinesD(7) [OF assms(1)] that by metis
  then show ?thesis
    using assms(3) length_layout [OF assms(2)]
    unfolding readable_def refinesD(2) [OF assms(1)] by auto
qed

text \<open>Looking for a cell among the open nodes, and among the closed nodes but the oldest.\<close>

lemma is_in_open_result:
  assumes "refines aa start src tgt s V" "room aa start" "uint nx < uint (a_width aa)" "uint ny < uint (a_height aa)"
  defines "v \<equiv> uint ny * uint (a_width aa) + uint nx"
  shows "v \<notin> idx (nodes V) ` set (opened V) \<Longrightarrow>
      is_in_open (pool s) (open_close_nodes s) (open_num s) (a_width aa) (a_height aa) nx ny = Inr None"
    and "v \<in> idx (nodes V) ` set (opened V) \<Longrightarrow>
      \<exists>i<length (opened V). is_in_open (pool s) (open_close_nodes s) (open_num s) (a_width aa) (a_height aa) nx ny =
        Inr (Some i) \<and> idx (nodes V) (opened V ! i) = v"
proof -
  have c: "hs_coord2index nx ny (a_width aa) (a_height aa) = Inr v" "0 \<le> v"
    using hs_coord2index_in [OF assms(3,4)] grid_fits assms(2) unfolding v_def by (simp_all add: room_def)
  let ?is = "[0..<open_num s]"
  have scan: "is_in_open (pool s) (open_close_nodes s) (open_num s) (a_width aa) (a_height aa) nx ny =
      scan_nodes (pool s) (open_close_nodes s) v ?is"
    using c by (simp add: is_in_open_def is_in_open_byindex_def)
  note sizes = room_sizes [OF assms(1,2)]
  have r: "readable (pool s) (open_close_nodes s) ?is"
    using sizes refinesD(3) [OF assms(1)] by (intro readable_layout [OF assms(1)]) auto
  have at: "open_close_nodes s ! i = Some (opened V ! i)" if "i < length (opened V)" for i
    using refinesD(2) [OF assms(1)] that by (simp add: layout_open)
  have n: "nodes V = node_at (pool s)" "open_num s = length (opened V)" using refinesD(3,7) [OF assms(1)] by auto
  show "v \<notin> idx (nodes V) ` set (opened V) \<Longrightarrow>
      is_in_open (pool s) (open_close_nodes s) (open_num s) (a_width aa) (a_height aa) nx ny = Inr None"
    unfolding scan using at n by (intro scan_nodes_None [OF r]) auto
  assume "v \<in> idx (nodes V) ` set (opened V)"
  then obtain i where i: "i < length (opened V)" "idx (nodes V) (opened V ! i) = v" by (auto simp: in_set_conv_nth)
  then obtain j b where "scan_nodes (pool s) (open_close_nodes s) v ?is = Inr (Some j)" "j \<in> set ?is"
    "open_close_nodes s ! j = Some b" "node_index (node_at (pool s) b) = v"
    using scan_nodes_Some [OF r, of i "opened V ! i" v] at n by auto
  then show "\<exists>i<length (opened V). is_in_open (pool s) (open_close_nodes s) (open_num s) (a_width aa) (a_height aa) nx ny =
        Inr (Some i) \<and> idx (nodes V) (opened V ! i) = v"
    unfolding scan using at n by (intro exI [of _ j]) auto
qed

lemma butlast_nth: "(\<exists>x\<in>set (butlast xs). P x) \<longleftrightarrow> (\<exists>i<length xs - 1. P (xs ! i))"
proof -
  have "(\<exists>x\<in>set (butlast xs). P x) \<longleftrightarrow> (\<exists>i<length (butlast xs). P (butlast xs ! i))"
    by (metis in_set_conv_nth)
  then show ?thesis by (auto simp: nth_butlast)
qed

lemma is_in_closed_result:
  assumes "refines aa start src tgt s V" "room aa start" "uint nx < uint (a_width aa)" "uint ny < uint (a_height aa)"
    and ne: "closed V \<noteq> []"
  shows "is_in_closed (pool s) (open_close_nodes s) (closed_curr_index s) (closed_num s) (a_width aa) (a_height aa) nx ny =
    Inr (uint ny * uint (a_width aa) + uint nx \<in> idx (nodes V) ` set (butlast (closed V)))"
proof -
  obtain v where v: "v = uint ny * uint (a_width aa) + uint nx" by simp
  have c: "hs_coord2index nx ny (a_width aa) (a_height aa) = Inr v"
    using hs_coord2index_in [OF assms(3,4)] grid_fits assms(2) unfolding v by (simp add: room_def)
  obtain k where k: "length (closed V) = Suc k" using ne by (cases "closed V") auto
  note sizes = room_sizes [OF assms(1,2)]
  have base: "closed_curr_index s = tt_len - 1 - Suc k" "closed_num s = Suc k"
    using refinesD(4,5) [OF assms(1)] k by simp_all
  have "tt_len - 1 - Suc k + Suc k = tt_len - 1" using sizes(2) k by simp
  then have is_def: "[closed_curr_index s..<closed_curr_index s + closed_num s] = [tt_len - 1 - Suc k..<tt_len - 1]"
    by (simp only: base)
  let ?is = "[tt_len - 1 - Suc k..<tt_len - 1]"
  have r: "readable (pool s) (open_close_nodes s) ?is"
    using sizes by (intro readable_layout [OF assms(1)]) auto
  have lay: "open_close_nodes s = layout (opened V) (closed V)" "nodes V = node_at (pool s)"
    using refinesD(2,7) [OF assms(1)] by auto
  have gap: "open_close_nodes s ! (tt_len - 1 - Suc k) = None"
    using sizes(2) k unfolding lay by (intro layout_gap) auto
  have at: "open_close_nodes s ! (tt_len - Suc k + i) = Some (closed V ! i)" if "i < Suc k" for i
    using that sizes(2) k layout_closed [of "opened V" "closed V" i] unfolding lay by simp
  show ?thesis
  proof (cases "v \<in> idx (nodes V) ` set (butlast (closed V))")
    case True
    then obtain i where i: "i < k" "idx (nodes V) (closed V ! i) = v"
      using butlast_nth [of "closed V" "\<lambda>x. idx (nodes V) x = v"] k by auto
    have "tt_len - Suc k + i \<in> set ?is" using i sizes(2) k by auto
    then obtain j where "scan_nodes (pool s) (open_close_nodes s) v ?is = Inr (Some j)"
      using scan_nodes_Some [OF r _ at] i lay by fastforce
    then show ?thesis using True c unfolding v by (simp add: is_in_closed_def is_def)
  next
    case notin: False
    have "node_index (node_at (pool s) a) \<noteq> v" if i: "i \<in> set ?is" "open_close_nodes s ! i = Some a" for i a
    proof (cases "i = tt_len - 1 - Suc k")
      case False
      obtain j where j: "j = i - (tt_len - Suc k)" by simp
      then have j: "i = tt_len - Suc k + j" "j < k" using i(1) False sizes(2) k by auto
      then have "a = closed V ! j" using at [of j] i(2) by simp
      moreover have "closed V ! j \<in> set (butlast (closed V))"
        using j(2) k by (metis diff_Suc_1 length_butlast nth_butlast nth_mem)
      ultimately show ?thesis using notin lay(2) by auto
    qed (use gap i in simp)
    then have "scan_nodes (pool s) (open_close_nodes s) v ?is = Inr None"
      by (intro scan_nodes_None [OF r]) blast
    then show ?thesis using notin c unfolding v by (simp add: is_in_closed_def is_def)
  qed
qed

lemma cells_card_new:
  assumes "refines aa start src tgt s V" "room aa start" "closed V \<noteq> []"
    and "v \<in> {0..<grid_size aa}" "v \<notin> idx (nodes V) ` set (opened V @ butlast (closed V))"
  shows "start + length (opened V) + length (closed V) < 4095"
proof -
  let ?xs = "v # map (idx (nodes V)) (opened V @ butlast (closed V))"
  have "set ?xs \<subseteq> {0..<grid_size aa}"
    using refines_cell [OF assms(1)] assms(4) by (fastforce dest: in_set_butlastD)
  then have "card (set ?xs) \<le> card {0..<grid_size aa}" by (intro card_mono) auto
  moreover have "distinct (map (idx (nodes V)) (opened V @ butlast (closed V)))"
    using refinesD(8) [OF assms(1)] by (simp only: astar_inv_def)
  then have "distinct ?xs" using assms(5) by (simp only: distinct.simps set_map) simp
  ultimately have "length ?xs \<le> nat (grid_size aa)" by (simp only: distinct_card card_atLeastLessThan_int diff_0_right)
  moreover have "length ?xs = length (opened V) + length (closed V)" using assms(3) by (cases "closed V") simp_all
  moreover have "0 \<le> grid_size aa" by (simp add: grid_size_def)
  ultimately have "int (length (opened V) + length (closed V)) \<le> grid_size aa" by (metis le_nat_iff)
  then show ?thesis using assms(2) by (simp add: room_def)
qed

lemma hvalue_dist:
  assumes "grid_ok aa" "tgt \<in> {0..<grid_size aa}" "uint nx < uint (a_width aa)"
  shows "calc_hvalue nx ny (of_int (tgt mod uint (a_width aa))) (of_int (tgt div uint (a_width aa))) =
    grid_dist aa (uint ny * uint (a_width aa) + uint nx) tgt"
proof -
  have "(uint ny * uint (a_width aa) + uint nx) div uint (a_width aa) = uint ny"
    "(uint ny * uint (a_width aa) + uint nx) mod uint (a_width aa) = uint nx" using assms(3) by (simp_all add: cell_split)
  then show ?thesis
    using assms hs_index2coord_in(2,3) [of tgt "a_width aa" "a_height aa"] grid_fits [OF assms(1)]
    by (simp only: calc_hvalue_def grid_dist_def grid_size_def atLeastLessThan_iff)
qed

text \<open>A free neighbour that is neither closed nor open is opened.\<close>

lemma open_node_step:
  assumes R: "refines aa start src tgt s V" and room: "room aa start" and tgt: "tgt \<in> {0..<grid_size aa}"
    and cur: "cur \<in> set (closed V)" "(idx (nodes V) cur, v) \<in> grid_edge aa"
    and n: "uint nx < uint (a_width aa)" "uint ny < uint (a_height aa)" "v = uint ny * uint (a_width aa) + uint nx"
    and new: "v \<notin> idx (nodes V) ` set (opened V @ butlast (closed V))"
  shows "\<exists>s' V'. open_node aa (of_int (tgt mod uint (a_width aa))) (of_int (tgt div uint (a_width aa))) cur nx ny s = Inr s' \<and>
    refines aa start src tgt s' V' \<and> todo V' = todo V - {(cur, v)} \<and> closed V' = closed V \<and>
    nodes V' cur = nodes V cur"
proof -
  have ok: "grid_ok aa" using room by (simp add: room_def)
  have ne: "closed V \<noteq> []" using cur(1) by auto
  have "v \<in> {0..<grid_size aa}" using cur(2) by (simp add: grid_edge_def)
  note top = cells_card_new [OF R room ne this new]
  note R' = refinesD [OF R]
  let ?a = "pool_top (pool s)"
  obtain B where B: "astar_node_alloc (pool s) = Inr (Some ?a, B)" "pool_wf B" "pool_top B = ?a + 1"
    "\<forall>b<?a. node_at B b = node_at (pool s) b"
    using alloc_next [OF R'(1)] top R'(6) by auto
  have below: "b < ?a" if "b \<in> set (opened V) \<union> set (closed V)" for b using refines_get(2) [OF R that] .
  have cur_at: "node_at B cur = nodes V cur" "cur < pool_top B"
    using B(3,4) below [of cur] cur(1) R'(7) by simp_all
  let ?g = "gv (nodes V) cur + 1" and ?h = "grid_dist aa v tgt"
  let ?n = "\<lparr>node_index = v, node_state = 1, f_val = ?g + ?h, g_val = ?g, h_val = ?h, node_parent = Some cur\<rparr>"
  obtain C where C: "put_node B ?a ?n = Inr C" "pool_wf C" "pool_top C = ?a + 1" "node_at C = (node_at B)(?a := ?n)"
    using put_node_at [OF B(2), of ?a ?n] B(3) by auto
  let ?s = "s\<lparr>pool := C, open_close_nodes := layout (opened V @ [?a]) (closed V), open_num := open_num s + 1\<rparr>"
  let ?V = "V\<lparr>opened := opened V @ [?a], todo := todo V - {(cur, v)}, nodes := node_at C\<rparr>"
  have push: "arr_set (open_close_nodes s) (open_num s) (Some ?a) = Inr (layout (opened V @ [?a]) (closed V))"
    using R'(2,3) layout_push_open length_layout room_sizes(2) [OF R room] by simp
  have "open_node aa (of_int (tgt mod uint (a_width aa))) (of_int (tgt div uint (a_width aa))) cur nx ny s = Inr ?s"
    using B(1) hs_coord2index_in [OF n(1,2) grid_fits [OF ok]] get_node_at [OF B(2) cur_at(2)] cur_at(1) C(1) push
      hvalue_dist [OF ok tgt n(1), of ny]
    by (simp add: open_node_def calc_gvalue_def n(3))
  moreover have "refines aa start src tgt ?s ?V"
  proof -
    have fresh: "?a \<notin> set (opened V) \<union> set (closed V)" using below by blast
    have inv: "astar_inv (grid_edge aa) (\<lambda>i. grid_dist aa i tgt) src tgt
        (V\<lparr>nodes := (nodes V)(?a := ?n), opened := opened V @ [?a], todo := todo V - {(cur, v)}\<rparr>)"
      using grid.opening_keeps [OF R'(8) cur fresh new, of ?n] by simp
    have "node_at C b = ((nodes V)(?a := ?n)) b" if "b \<in> set (opened V @ [?a]) \<union> set (closed V)" for b
      using that below [of b] B(4) C(4) R'(7) by auto
    then have "astar_inv (grid_edge aa) (\<lambda>i. grid_dist aa i tgt) src tgt ?V"
      using astar_inv_cong [OF inv, of "node_at C"] by simp
    moreover have "memory_ok start ?s (opened ?V) (closed ?V)"
      using R' C(2,3) below by (fastforce simp: memory_ok_def)
    ultimately show ?thesis using R by (simp add: refines_def)
  qed
  moreover have "node_at C cur = nodes V cur" using C(4) cur_at(1) below [of cur] cur(1) by auto
  ultimately show ?thesis by (intro exI [of _ ?s] exI [of _ ?V]) simp
qed

text \<open>A free neighbour that is open gets the better of its values.\<close>

lemma improve_node_step:
  assumes R: "refines aa start src tgt s V" and room: "room aa start" and tgt: "tgt \<in> {0..<grid_size aa}"
    and cur: "cur \<in> set (closed V)" "(idx (nodes V) cur, v) \<in> grid_edge aa"
    and n: "uint nx < uint (a_width aa)" "v = uint ny * uint (a_width aa) + uint nx"
    and i: "i < length (opened V)" "idx (nodes V) (opened V ! i) = v"
  shows "\<exists>s' V'. improve_node (of_int (tgt mod uint (a_width aa))) (of_int (tgt div uint (a_width aa))) cur nx ny i s = Inr s' \<and>
    refines aa start src tgt s' V' \<and> todo V' = todo V - {(cur, v)} \<and> closed V' = closed V \<and>
    nodes V' cur = nodes V cur"
proof -
  have ok: "grid_ok aa" using room by (simp add: room_def)
  note R' = refinesD [OF R]
  let ?a = "opened V ! i" and ?ex = "of_int (tgt mod uint (a_width aa))" and ?ey = "of_int (tgt div uint (a_width aa))"
  have a: "?a \<in> set (opened V)" using i(1) by simp
  have at: "arr (open_close_nodes s) i = Inr (Some ?a)"
    using i(1) R'(2) layout_open length_layout room_sizes(2) [OF R room] by simp
  have gets: "get_node (pool s) ?a = Inr (nodes V ?a)" "get_node (pool s) cur = Inr (nodes V cur)"
    using refines_get(1) [OF R] a cur(1) by simp_all
  let ?g = "gv (nodes V) cur + 1" and ?h = "grid_dist aa v tgt"
  have h: "calc_hvalue nx ny ?ex ?ey = ?h" using hvalue_dist [OF ok tgt n(1), of ny] n(2) by simp
  show ?thesis
  proof (cases "?g < gv (nodes V) ?a")
    case False
    have "improve_node ?ex ?ey cur nx ny i s = Inr s" using at gets False by (simp add: improve_node_def)
    moreover have "refines aa start src tgt s (V\<lparr>todo := todo V - {(cur, v)}\<rparr>)"
      using grid.found_keeps [OF R'(8) _ i(2)] a False R by (simp add: refines_def)
    ultimately show ?thesis by (intro exI [of _ s] exI [of _ "V\<lparr>todo := todo V - {(cur, v)}\<rparr>"]) simp
  next
    case True
    let ?n = "(nodes V ?a)\<lparr>node_parent := Some cur, g_val := ?g, h_val := ?h, f_val := ?g + ?h\<rparr>"
    obtain C where C: "put_node (pool s) ?a ?n = Inr C" "pool_wf C" "pool_top C = pool_top (pool s)"
      "node_at C = (node_at (pool s))(?a := ?n)"
      using put_node_at [OF R'(1) refines_get(2) [OF R], of ?a ?n] a by auto
    let ?s = "s\<lparr>pool := C\<rparr>" and ?V = "V\<lparr>nodes := (nodes V)(?a := ?n), todo := todo V - {(cur, v)}\<rparr>"
    have "improve_node ?ex ?ey cur nx ny i s = Inr ?s"
      using at gets True h C(1) by (simp add: improve_node_def Let_def)
    moreover have "refines aa start src tgt ?s ?V"
      using grid.improving_keeps [OF R'(8) cur a i(2) True, of ?n] i(2) R C R'(7)
      by (simp add: refines_def memory_ok_def)
    moreover have "cur \<noteq> ?a" using R'(8) cur(1) a by (auto simp: astar_inv_def)
    ultimately show ?thesis by (intro exI [of _ ?s] exI [of _ ?V]) simp
  qed
qed

definition cell_of :: "astar_array \<Rightarrow> u16 \<times> u16 \<Rightarrow> int" where
  "cell_of aa n = uint (snd n) * uint (a_width aa) + uint (fst n)"

abbreviation coord_x :: "astar_array \<Rightarrow> int \<Rightarrow> u16" where
  "coord_x aa i \<equiv> of_int (i mod uint (a_width aa))"

abbreviation coord_y :: "astar_array \<Rightarrow> int \<Rightarrow> u16" where
  "coord_y aa i \<equiv> of_int (i div uint (a_width aa))"

lemma visit_free:
  assumes R: "refines aa start src tgt s V" and room: "room aa start" and tgt: "tgt \<in> {0..<grid_size aa}"
    and cur: "cur \<in> set (closed V)" "(idx (nodes V) cur, cell_of aa (nx, ny)) \<in> grid_edge aa" and free: "free_at aa nx ny"
  shows "\<exists>s' V'. visit_neighbour aa (coord_x aa tgt) (coord_y aa tgt) cur (nx, ny) s = Inr s' \<and>
    refines aa start src tgt s' V' \<and> todo V' = todo V - {(cur, cell_of aa (nx, ny))} \<and> closed V' = closed V \<and>
    nodes V' cur = nodes V cur"
proof -
  have n: "uint nx < uint (a_width aa)" "uint ny < uint (a_height aa)" using free by (simp_all add: free_at_def)
  have v: "cell_of aa (nx, ny) = uint ny * uint (a_width aa) + uint nx" by (simp add: cell_of_def)
  have ne: "closed V \<noteq> []" using cur(1) by auto
  have not_blocked: "is_blocked aa nx ny = Inr False" using is_blocked_free room free by (simp add: room_def)
  note in_closed = is_in_closed_result [OF R room n ne, folded v]
  show ?thesis
  proof (cases "cell_of aa (nx, ny) \<in> idx (nodes V) ` set (butlast (closed V))")
    case True
    then obtain c where c: "c \<in> set (closed V)" "idx (nodes V) c = cell_of aa (nx, ny)"
      by (auto dest: in_set_butlastD)
    have "refines aa start src tgt s (V\<lparr>todo := todo V - {(cur, cell_of aa (nx, ny))}\<rparr>)"
      using grid.closed_keeps [OF refinesD(8) [OF R] cur c] R by (simp add: refines_def)
    then show ?thesis using True not_blocked in_closed
      by (intro exI [of _ s] exI [of _ "V\<lparr>todo := todo V - {(cur, cell_of aa (nx, ny))}\<rparr>"])
        (simp add: visit_neighbour_def)
  next
    case notin: False
    note in_open = is_in_open_result [OF R room n, folded v]
    show ?thesis
    proof (cases "cell_of aa (nx, ny) \<in> idx (nodes V) ` set (opened V)")
      case True
      then obtain i where i: "i < length (opened V)" "is_in_open (pool s) (open_close_nodes s) (open_num s)
          (a_width aa) (a_height aa) nx ny = Inr (Some i)" "idx (nodes V) (opened V ! i) = cell_of aa (nx, ny)"
        using in_open(2) by blast
      then have "visit_neighbour aa (coord_x aa tgt) (coord_y aa tgt) cur (nx, ny) s =
          improve_node (coord_x aa tgt) (coord_y aa tgt) cur nx ny i s"
        using not_blocked in_closed notin by (simp add: visit_neighbour_def)
      then show ?thesis using improve_node_step [OF R room tgt cur n(1) v i(1,3)] by simp
    next
      case False
      then have "visit_neighbour aa (coord_x aa tgt) (coord_y aa tgt) cur (nx, ny) s =
          open_node aa (coord_x aa tgt) (coord_y aa tgt) cur nx ny s"
        using not_blocked in_closed notin in_open(1) by (simp add: visit_neighbour_def)
      moreover have "cell_of aa (nx, ny) \<notin> idx (nodes V) ` set (opened V @ butlast (closed V))"
        using False notin by auto
      ultimately show ?thesis using open_node_step [OF R room tgt cur n v] by simp
    qed
  qed
qed

lemma visit_all:
  assumes "room aa start" "tgt \<in> {0..<grid_size aa}"
  shows "refines aa start src tgt s V \<Longrightarrow> cur \<in> set (closed V) \<Longrightarrow>
    \<forall>n\<in>set ns. free_at aa (fst n) (snd n) \<longrightarrow> (idx (nodes V) cur, cell_of aa n) \<in> grid_edge aa \<Longrightarrow>
    \<exists>s' V'. visit_neighbours aa (coord_x aa tgt) (coord_y aa tgt) cur ns s = Inr s' \<and>
      refines aa start src tgt s' V' \<and> closed V' = closed V \<and>
      todo V' = todo V - {cur} \<times> cell_of aa ` {n \<in> set ns. free_at aa (fst n) (snd n)}"
proof (induction ns arbitrary: s V)
  case (Cons n ns)
  obtain nx ny where n: "n = (nx, ny)" by fastforce
  show ?case
  proof (cases "free_at aa nx ny")
    case True
    have e: "(idx (nodes V) cur, cell_of aa (nx, ny)) \<in> grid_edge aa" using Cons.prems(3) n True by simp
    obtain s1 V1 where 1: "visit_neighbour aa (coord_x aa tgt) (coord_y aa tgt) cur (nx, ny) s = Inr s1"
      "refines aa start src tgt s1 V1" "todo V1 = todo V - {(cur, cell_of aa (nx, ny))}" "closed V1 = closed V"
      "nodes V1 cur = nodes V cur"
      using visit_free [OF Cons.prems(1) assms Cons.prems(2) e True] by blast
    obtain s2 V2 where 2: "visit_neighbours aa (coord_x aa tgt) (coord_y aa tgt) cur ns s1 = Inr s2"
      "refines aa start src tgt s2 V2" "closed V2 = closed V1"
      "todo V2 = todo V1 - {cur} \<times> cell_of aa ` {n \<in> set ns. free_at aa (fst n) (snd n)}"
      using Cons.IH [OF 1(2)] Cons.prems(2,3) 1(4,5) by auto
    have "todo V2 = todo V - {cur} \<times> cell_of aa ` {m \<in> set (n # ns). free_at aa (fst m) (snd m)}"
    proof -
      have "{m \<in> set (n # ns). free_at aa (fst m) (snd m)} = insert (nx, ny) {n \<in> set ns. free_at aa (fst n) (snd n)}"
        using n True by auto
      then show ?thesis using 1(3) 2(4) by auto
    qed
    then show ?thesis using 1(1,4) 2(1,2,3) n by (intro exI [of _ s2] exI [of _ V2]) simp
  next
    case False
    then have "visit_neighbour aa (coord_x aa tgt) (coord_y aa tgt) cur n s = Inr s"
      using n is_blocked_free assms(1) by (simp add: visit_neighbour_def room_def)
    moreover have "{m \<in> set (n # ns). free_at aa (fst m) (snd m)} = {m \<in> set ns. free_at aa (fst m) (snd m)}"
      using False n by auto
    ultimately show ?thesis using Cons.IH [OF Cons.prems(1,2)] Cons.prems(3) by simp
  qed
qed (intro exI conjI; simp)

text \<open>Closing the best open node.\<close>

lemma close_min_result:
  assumes R: "refines aa start src tgt s V" and room: "room aa start" and ne: "opened V \<noteq> []"
  shows "\<exists>xs cur ys s'. opened V = xs @ cur # ys \<and> (\<forall>a\<in>set (opened V). f_val (nodes V cur) \<le> f_val (nodes V a)) \<and>
    close_min s = Inr (Some cur, s') \<and> pool s' = pool s \<and> memory_ok start s' (xs @ ys) (cur # closed V)"
proof -
  note R' = refinesD [OF R]
  note sizes = room_sizes [OF R room]
  let ?n = "length (opened V)"
  have at: "open_close_nodes s ! i = Some (opened V ! i)" if "i < ?n" for i using R'(2) that by (simp add: layout_open)
  have f_at: "f_at (pool s) (open_close_nodes s) i = f_val (nodes V (opened V ! i))" if "i < ?n" for i
    using at that R'(7) by (simp add: f_at_def)
  have "?n = 1 \<or> (\<forall>i<?n. 0 < f_at (pool s) (open_close_nodes s) i)"
  proof (cases "closed V = []")
    case True
    then show ?thesis using R'(8) by (auto simp: astar_inv_def rooted_def)
  next
    case False
    have "0 < f_val (nodes V a)" if "a \<in> set (opened V)" for a
    proof -
      have "f_val (nodes V a) = gv (nodes V) a + grid_dist aa (idx (nodes V) a) tgt" "0 < gv (nodes V) a"
        using R'(8) that False by (simp_all add: astar_inv_def)
      then show ?thesis using grid.nonneg [of aa "idx (nodes V) a" tgt] by simp
    qed
    then show ?thesis using f_at by simp
  qed
  moreover have "readable (pool s) (open_close_nodes s) [0..<?n]"
    using sizes by (intro readable_layout [OF R]) auto
  ultimately obtain j where j: "j < ?n" "get_min_f_index (pool s) (open_close_nodes s) ?n = Inr j"
    "\<forall>i<?n. f_at (pool s) (open_close_nodes s) j \<le> f_at (pool s) (open_close_nodes s) i"
    using get_min_f_index_best [of "pool s" "open_close_nodes s" ?n] ne at by auto
  obtain xs cur ys where split: "opened V = xs @ cur # ys" "length xs = j" "cur = opened V ! j"
    using j(1) id_take_nth_drop [OF j(1)] by (metis length_take min.absorb4)
  have best: "\<forall>a\<in>set (opened V). f_val (nodes V cur) \<le> f_val (nodes V a)"
  proof
    fix a assume "a \<in> set (opened V)"
    then obtain i where "i < ?n" "a = opened V ! i" by (auto simp: in_set_conv_nth)
    then show "f_val (nodes V cur) \<le> f_val (nodes V a)" using j(1,3) f_at split(3) by metis
  qed
  have pre: "length xs + length ys + length (closed V) + 1 < tt_len" using sizes(2) split(1) by simp
  let ?nodes = "(layout (opened V) (closed V))[tt_len - 1 - length (closed V) := Some cur]"
  let ?moved = "if j < ?n - 1 then take j ?nodes @ take (?n - j - 1) (drop (j + 1) ?nodes) @ drop (?n - 1) ?nodes else ?nodes"
  have res: "?moved[?n - 1 := None] = layout (xs @ ys) (cur # closed V)"
    by (rule layout_close [OF pre, of cur, unfolded Let_def split(2), folded split(1)])
  have len: "length ?nodes = tt_len" using length_layout [of "opened V" "closed V"] sizes(2) by simp
  then have len': "length ?moved = tt_len" using sizes(2) j(1) by auto
  have lt: "?n - 1 < length ?moved" unfolding len' using sizes(2) by simp
  let ?s = "s\<lparr>open_close_nodes := layout (xs @ ys) (cur # closed V), open_num := ?n - 1,
    closed_num := length (closed V) + 1, closed_curr_index := tt_len - 1 - length (closed V) - 1\<rparr>"
  have "close_min s = Inr (Some cur, ?s)"
  proof -
    have a1: "arr (open_close_nodes s) j = Inr (Some cur)"
      using at [OF j(1)] split(3) j(1) len R'(2) sizes(2) by simp
    have a2: "arr_set (open_close_nodes s) (tt_len - 1 - length (closed V)) (Some cur) = Inr ?nodes"
      using len R'(2) sizes(2) by simp
    have a3: "arr_set ?moved (?n - 1) None = Inr (layout (xs @ ys) (cur # closed V))"
      by (simp only: arr_set_in [OF lt] res)
    show ?thesis
      unfolding close_min_def R'(3,4,5) j(2) bind_res_simps a1 a2 Let_def a3 by simp
  qed
  moreover have "memory_ok start ?s (xs @ ys) (cur # closed V)"
    using R split(1) sizes(2) by (auto simp: refines_def memory_ok_def)
  ultimately show ?thesis using split(1) best by (intro exI [of _ xs] exI [of _ cur] exI [of _ ys] exI [of _ ?s]) simp
qed

section \<open>The result\<close>

definition shortest_path :: "(int \<times> int) set \<Rightarrow> int \<Rightarrow> int \<Rightarrow> int list \<Rightarrow> bool" where
  "shortest_path edge src tgt xs \<longleftrightarrow> xs \<noteq> [] \<and> hd xs = src \<and> last xs = tgt \<and>
     successively (\<lambda>u v. (u, v) \<in> edge) xs \<and> (\<forall>n. (src, tgt) \<in> edge ^^ n \<longrightarrow> length xs \<le> n + 1)"

text \<open>The cells of a node and its parents, written from any position on.\<close>

definition stores :: "node_alloc \<Rightarrow> nat \<Rightarrow> int list \<Rightarrow> bool" where
  "stores A a xs \<longleftrightarrow> (\<forall>i r. i + length xs \<le> length (index_list r) \<longrightarrow>
     (\<exists>r'. get_result_list A (Some a) i r = Inr r' \<and> index_count r' = i + length xs \<and>
       take (i + length xs) (index_list r') = take i (index_list r) @ xs))"

lemma storesD:
  "stores A a xs \<Longrightarrow> i + length xs \<le> length (index_list r) \<Longrightarrow>
   \<exists>r'. get_result_list A (Some a) i r = Inr r' \<and> index_count r' = i + length xs \<and>
     take (i + length xs) (index_list r') = take i (index_list r) @ xs"
  by (simp only: stores_def)

lemma stores_root: "get_node A a = Inr n \<Longrightarrow> node_parent n = None \<Longrightarrow> stores A a [node_index n]"
  by (simp add: stores_def take_Suc_conv_app_nth)

lemma stores_child:
  assumes "get_node A a = Inr n" "node_parent n = Some p" "stores A p xs"
  shows "stores A a (node_index n # xs)"
  unfolding stores_def
proof (intro allI impI)
  fix i and r :: astar_res
  assume len: "i + length (node_index n # xs) \<le> length (index_list r)"
  let ?r = "r\<lparr>index_list := (index_list r)[i := node_index n]\<rparr>"
  obtain r' where r': "get_result_list A (Some p) (i + 1) ?r = Inr r'" "index_count r' = i + 1 + length xs"
    "take (i + 1 + length xs) (index_list r') = take (i + 1) (index_list ?r) @ xs"
    using storesD [OF assms(3), of "i + 1" ?r] len by (auto simp del: get_result_list.simps)
  have "get_result_list A (Some a) i r = get_result_list A (Some p) (i + 1) ?r"
    using assms(1,2) len by (subst get_result_list.simps) simp
  moreover have "take (i + 1) (index_list ?r) = take i (index_list r) @ [node_index n]"
    using len by (simp add: take_Suc_conv_app_nth)
  ultimately show "\<exists>r'. get_result_list A (Some a) i r = Inr r' \<and> index_count r' = i + length (node_index n # xs) \<and>
      take (i + length (node_index n # xs)) (index_list r') = take i (index_list r) @ node_index n # xs"
    using r' by (intro exI [of _ r']) simp
qed

lemma result_list:
  assumes tree: "tree edge src V"
    and get: "\<forall>a\<in>set (opened V) \<union> set (closed V). get_node A a = Inr (nodes V a)"
  shows "a \<in> set (opened V) \<union> set (closed V) \<Longrightarrow>
    \<exists>xs. length xs = nat (gv (nodes V) a) + 1 \<and> hd xs = idx (nodes V) a \<and> last xs = src \<and>
      successively (\<lambda>u v. (v, u) \<in> edge) xs \<and> stores A a xs"
proof (induction "nat (gv (nodes V) a)" arbitrary: a rule: less_induct)
  case (less a)
  have g: "get_node A a = Inr (nodes V a)" using get less.prems by blast
  consider "is_root src (nodes V) a" | "is_child edge (nodes V) (closed V) a"
    using tree less.prems by (auto simp: tree_def)
  then show ?case
  proof cases
    case 1
    then show ?thesis using stores_root [OF g] by (intro exI [of _ "[src]"]) (simp add: is_root_def)
  next
    case 2
    then obtain p where p: "p \<in> set (closed V)" "node_parent (nodes V a) = Some p"
      "(idx (nodes V) p, idx (nodes V) a) \<in> edge" "gv (nodes V) a = gv (nodes V) p + 1"
      by (auto simp: is_child_def)
    have "0 \<le> gv (nodes V) p" using tree p(1) by (simp add: tree_def)
    then have "nat (gv (nodes V) p) < nat (gv (nodes V) a)" "nat (gv (nodes V) a) = nat (gv (nodes V) p) + 1"
      using p(4) by simp_all
    then obtain xs where xs: "length xs = nat (gv (nodes V) a)" "hd xs = idx (nodes V) p" "last xs = src"
      "successively (\<lambda>u v. (v, u) \<in> edge) xs" "stores A p xs"
      using less.hyps [of p] p(1) by auto
    have ne: "xs \<noteq> []" using xs(1) \<open>nat (gv (nodes V) a) = nat (gv (nodes V) p) + 1\<close> by auto
    have "stores A a (idx (nodes V) a # xs)" by (rule stores_child [OF g p(2) xs(5)])
    then show ?thesis
      using xs(1-4) ne p(3) \<open>nat (gv (nodes V) a) = nat (gv (nodes V) p) + 1\<close>
      by (intro exI [of _ "idx (nodes V) a # xs"]) (cases xs; simp)
  qed
qed

lemma stored_path:
  assumes R: "refines aa start src tgt s V" and room: "room aa start" and X: "todo V = {}"
    and cur: "cur \<in> set (opened V)" "\<forall>a\<in>set (opened V). f_val (nodes V cur) \<le> f_val (nodes V a)"
    and goal: "idx (nodes V) cur = tgt" and r: "length (index_list r) = 4096"
  shows "\<exists>r'. get_result_list (pool s) (Some cur) 0 r = Inr r' \<and>
    shortest_path (grid_edge aa) src tgt (rev (take (index_count r') (index_list r')))"
proof -
  note inv = refinesD(8) [OF R]
  have tree: "tree (grid_edge aa) src V" using inv by (simp add: astar_inv_def)
  have get: "\<forall>a\<in>set (opened V) \<union> set (closed V). get_node (pool s) a = Inr (nodes V a)"
    using refines_get(1) [OF R] by blast
  obtain xs where xs: "length xs = nat (gv (nodes V) cur) + 1" "hd xs = tgt" "last xs = src"
    "successively (\<lambda>u v. (v, u) \<in> grid_edge aa) xs"
    "stores (pool s) cur xs"
    using result_list [OF tree get UnI1 [OF cur(1)]] goal by auto
  have "gv (nodes V) cur \<le> int (length (closed V))" using inv cur(1) by (simp add: astar_inv_def)
  moreover have "1 \<le> length (opened V)" using cur(1) by (cases "opened V") auto
  ultimately have "length xs \<le> 4096" using room_sizes(3) [OF R room] xs(1) by linarith
  then obtain r' where r': "get_result_list (pool s) (Some cur) 0 r = Inr r'" "index_count r' = length xs"
    "take (length xs) (index_list r') = xs"
    using storesD [OF xs(5), of 0 r] r by (auto simp del: get_result_list.simps)
  have "optimal (grid_edge aa) src (nodes V) cur"
  proof (cases "idx (nodes V) cur = src")
    case True
    have "closed V = []"
    proof (rule ccontr)
      assume "closed V \<noteq> []"
      then have "last (closed V) \<in> set (closed V)" "idx (nodes V) (last (closed V)) = src"
        using inv by (simp_all add: astar_inv_def rooted_def is_root_def)
      then show False using inv True goal by (auto simp: astar_inv_def)
    qed
    then show ?thesis using inv cur(1) by (auto simp: astar_inv_def rooted_def is_root_def optimal_def)
  next
    case False
    then show ?thesis using grid.best_is_optimal [OF inv X cur] by simp
  qed
  then have "length xs \<le> n + 1" if "(src, tgt) \<in> grid_edge aa ^^ n" for n
    using that goal xs(1) unfolding optimal_def by fastforce
  moreover have "xs \<noteq> []" using xs(1) by auto
  ultimately have "shortest_path (grid_edge aa) src tgt (rev xs)"
    using xs(2-4) by (simp add: shortest_path_def hd_rev last_rev successively_rev)
  then show ?thesis using r' by (intro exI [of _ r']) (simp only: simp_thms)
qed

section \<open>The loop\<close>

text \<open>Closing a node and visiting all its neighbours is a round of the abstract search.\<close>

lemma round_refines:
  assumes R: "refines aa start src tgt s V" and room: "room aa start" and tgt: "tgt \<in> {0..<grid_size aa}"
    and X: "todo V = {}" and split: "opened V = xs @ cur # ys"
    and best: "\<forall>a\<in>set (opened V). f_val (nodes V cur) \<le> f_val (nodes V a)" and other: "idx (nodes V) cur \<noteq> tgt"
    and s': "pool s' = pool s" "memory_ok start s' (xs @ ys) (cur # closed V)"
  shows "\<exists>s2 V2. visit_neighbours aa (coord_x aa tgt) (coord_y aa tgt) cur
      (neighbours (coord_x aa (idx (nodes V) cur)) (coord_y aa (idx (nodes V) cur))) s' = Inr s2 \<and>
    refines aa start src tgt s2 V2 \<and> todo V2 = {} \<and> length (closed V2) = Suc (length (closed V))"
proof -
  let ?i = "idx (nodes V) cur" and ?w = "uint (a_width aa)"
  let ?V = "V\<lparr>opened := xs @ ys, closed := cur # closed V, todo := {cur} \<times> {v. (?i, v) \<in> grid_edge aa}\<rparr>"
  have ok: "grid_ok aa" using room by (simp add: room_def)
  have R1: "refines aa start src tgt s' ?V"
    using grid.closing_keeps [OF refinesD(8) [OF R] X split best other] R s' by (simp add: refines_def)
  have "?i \<in> {0..<grid_size aa}" using refines_cell [OF R] split by simp
  then have i: "0 \<le> ?i" "?i < ?w * uint (a_height aa)" by (simp_all add: grid_size_def)
  note c = hs_index2coord_in [OF i grid_fits [OF ok]]
  have "(?i, j) \<in> grid_edge aa \<longleftrightarrow> (\<exists>nx ny. (nx, ny) \<in> set (neighbours (coord_x aa ?i) (coord_y aa ?i)) \<and>
      free_at aa nx ny \<and> j = uint ny * ?w + uint nx)" for j
    using edge_neighbours [OF ok, of "coord_x aa ?i" "coord_y aa ?i" j] c(2-5) by simp
  then have edges: "{v. (?i, v) \<in> grid_edge aa} =
      cell_of aa ` {n \<in> set (neighbours (coord_x aa ?i) (coord_y aa ?i)). free_at aa (fst n) (snd n)}"
    by (force simp: cell_of_def image_iff)
  have nbs: "\<forall>n\<in>set (neighbours (coord_x aa ?i) (coord_y aa ?i)). free_at aa (fst n) (snd n) \<longrightarrow>
      (idx (nodes ?V) cur, cell_of aa n) \<in> grid_edge aa" using edges by auto
  have "cur \<in> set (closed ?V)" by simp
  from visit_all [OF room tgt R1 this nbs] obtain s2 V2 where 2: "visit_neighbours aa (coord_x aa tgt) (coord_y aa tgt) cur
      (neighbours (coord_x aa ?i) (coord_y aa ?i)) s' = Inr s2" "refines aa start src tgt s2 V2" "closed V2 = closed ?V"
    "todo V2 = todo ?V - {cur} \<times>
      cell_of aa ` {n \<in> set (neighbours (coord_x aa ?i) (coord_y aa ?i)). free_at aa (fst n) (snd n)}"
    by blast
  then have "todo V2 = {}" using edges by simp
  then show ?thesis using 2(1-3) by (intro exI [of _ s2] exI [of _ V2]) simp
qed

definition search_answer ::
  "astar_array \<Rightarrow> int \<Rightarrow> int \<Rightarrow> astar_res \<Rightarrow> (int \<times> astar_res \<times> node_alloc) res option \<Rightarrow> bool" where
  "search_answer aa src tgt r ans \<longleftrightarrow> (\<exists>code r' A. ans = Some (Inr (code, r', A)) \<and>
     (code = 0 \<and> shortest_path (grid_edge aa) src tgt (rev (take (index_count r') (index_list r'))) \<or>
      code = - 1 \<and> r' = r \<and> (\<forall>n. (src, tgt) \<notin> grid_edge aa ^^ n)))"

lemma search_loop_result:
  assumes room: "room aa start" and tgt: "tgt \<in> {0..<grid_size aa}" and r: "length (index_list r) = 4096"
  shows "refines aa start src tgt s V \<Longrightarrow> todo V = {} \<Longrightarrow>
    search_answer aa src tgt r (search_loop aa tgt (coord_x aa tgt) (coord_y aa tgt) r c s)"
proof (induction "nat (grid_size aa) + 1 - length (closed V)" arbitrary: s V c rule: less_induct)
  case (less V s c)
  note R = less.prems(1) and X = less.prems(2)
  note sizes = room_sizes [OF R room]
  let ?loop = "search_loop aa tgt (coord_x aa tgt) (coord_y aa tgt) r"
  show ?case
  proof (cases "opened V = []")
    case True
    then have "open_num s = 0" using refinesD(3) [OF R] by simp
    then have "?loop c s = Some (Inr (- 1, r, pool s))" by (subst search_loop.simps) simp
    then show ?thesis using grid.exhausted [OF refinesD(8) [OF R] X True] by (simp add: search_answer_def)
  next
    case False
    then have on: "open_num s \<noteq> 0" using refinesD(3) [OF R] by simp
    obtain xs cur ys s' where close: "opened V = xs @ cur # ys"
      "\<forall>a\<in>set (opened V). f_val (nodes V cur) \<le> f_val (nodes V a)" "close_min s = Inr (Some cur, s')"
      "pool s' = pool s" "memory_ok start s' (xs @ ys) (cur # closed V)"
      using close_min_result [OF R room False] by blast
    have cur: "cur \<in> set (opened V)" using close(1) by simp
    have get: "get_node (pool s') cur = Inr (nodes V cur)" using refines_get(1) [OF R] cur close(4) by simp
    show ?thesis
    proof (cases "idx (nodes V) cur = tgt")
      case True
      obtain r' where r': "get_result_list (pool s) (Some cur) 0 r = Inr r'"
        "shortest_path (grid_edge aa) src tgt (rev (take (index_count r') (index_list r')))"
        using stored_path [OF R room X cur close(2) True r] by blast
      have lens: "length (xs @ ys) + length (cur # closed V) \<le> tt_len" using close(1) sizes(2) by simp
      have "closed_curr_index s' + 1 = tt_len - length (cur # closed V) + 0"
        using close(1,5) sizes(2) by (simp add: memory_ok_def)
      then have "arr (open_close_nodes s') (closed_curr_index s' + 1) = Inr (Some cur)"
        using layout_closed [OF lens, of 0] length_layout [OF lens] close(5) by (simp add: memory_ok_def tt_len)
      then have "?loop c s = Some (Inr (0, r', pool s))"
        using on close(3,4) get True r'(1)
        by (subst search_loop.simps) (simp del: get_result_list.simps)
      then show ?thesis using r'(2) by (simp add: search_answer_def)
    next
      case other: False
      let ?i = "idx (nodes V) cur"
      obtain s2 V2 where 2: "visit_neighbours aa (coord_x aa tgt) (coord_y aa tgt) cur
          (neighbours (coord_x aa ?i) (coord_y aa ?i)) s' = Inr s2"
        "refines aa start src tgt s2 V2" "todo V2 = {}" "length (closed V2) = Suc (length (closed V))"
        using round_refines [OF R room tgt X close(1,2) other close(4,5)] by blast
      have "0 \<le> ?i" "?i < uint (a_width aa) * uint (a_height aa)"
        using refines_cell [OF R UnI1 [OF cur]] by (simp_all add: grid_size_def)
      then have coord: "hs_index2coord ?i (a_width aa) (a_height aa) = Inr (Some (coord_x aa ?i, coord_y aa ?i))"
        using hs_index2coord_in(1) grid_fits room by (simp add: room_def)
      have "?loop c s = ?loop (coord_x aa ?i, coord_y aa ?i) s2"
        using on close(3) get other coord 2(1) by (subst search_loop.simps) simp
      moreover have "nat (grid_size aa) + 1 - length (closed V2) < nat (grid_size aa) + 1 - length (closed V)"
        using sizes(1) close(1) 2(4) by simp
      ultimately show ?thesis using less.hyps 2(2,3) by simp
    qed
  qed
qed

section \<open>Starting and loading\<close>

lemma start_refines:
  assumes wf: "pool_wf A" and room: "room aa (pool_top A)" and src: "src \<in> {0..<grid_size aa}"
    and tgt: "tgt \<in> {0..<grid_size aa}"
  shows "\<exists>s V. start_search (coord_x aa src) (coord_y aa src) (coord_x aa tgt) (coord_y aa tgt) src A = Inr s \<and>
    refines aa (pool_top A) src tgt s V \<and> todo V = {}"
proof -
  let ?a = "pool_top A" and ?h = "grid_dist aa src tgt"
  let ?n = "\<lparr>node_index = src, node_state = 1, f_val = 0 + ?h, g_val = 0, h_val = ?h, node_parent = None\<rparr>"
  have ok: "grid_ok aa" using room by (simp add: room_def)
  have s: "0 \<le> src" "src < uint (a_width aa) * uint (a_height aa)" using src by (simp_all add: grid_size_def)
  note c = hs_index2coord_in(2-4) [OF s grid_fits [OF ok]]
  have h: "calc_hvalue (coord_x aa src) (coord_y aa src) (coord_x aa tgt) (coord_y aa tgt) = ?h"
    using hvalue_dist [OF ok tgt, of "coord_x aa src" "coord_y aa src"] c by simp
  have "int ?a + grid_size aa + 1 \<le> 4095" "0 < grid_size aa" using room src by (auto simp: room_def)
  then have "?a < 4095" by linarith
  then obtain B where B: "astar_node_alloc A = Inr (Some ?a, B)" "pool_wf B" "pool_top B = ?a + 1"
    using alloc_next [OF wf] by blast
  obtain C where C: "put_node B ?a ?n = Inr C" "pool_wf C" "pool_top C = ?a + 1" "node_at C = (node_at B)(?a := ?n)"
    using put_node_at [OF B(2), of ?a ?n] B(3) by auto
  let ?s = "\<lparr>pool = C, open_close_nodes = layout [?a] [], open_num = 1, closed_num = 0, closed_curr_index = tt_len - 1 - 0\<rparr>"
  let ?V = "\<lparr>nodes = node_at C, opened = [?a], closed = [], todo = {}\<rparr>"
  have "(replicate tt_len None)[0 := Some ?a] = layout [?a] []"
    using layout_push_open [of "[]" "[]" ?a] by (simp add: tt_len layout_def)
  then have "start_search (coord_x aa src) (coord_y aa src) (coord_x aa tgt) (coord_y aa tgt) src A = Inr ?s"
    using B(1) C(1) h by (simp add: start_search_def Let_def tt_len)
  moreover have "astar_inv (grid_edge aa) (\<lambda>i. grid_dist aa i tgt) src tgt ?V"
    using C(4) by (simp add: astar_inv_def tree_def rooted_def covered_def is_root_def)
  then have "refines aa ?a src tgt ?s ?V"
    using C src by (simp add: refines_def memory_ok_def)
  ultimately show ?thesis by (intro exI [of _ ?s] exI [of _ ?V]) simp
qed

lemma find_path_result:
  assumes "pool_wf A" "room aa (pool_top A)" "src \<in> {0..<grid_size aa}" "tgt \<in> {0..<grid_size aa}"
    and r: "length (index_list r) = 4096"
  shows "search_answer aa src tgt r (hs_astar_find_path (Some aa) src tgt r A)"
proof -
  obtain s V where s: "start_search (coord_x aa src) (coord_y aa src) (coord_x aa tgt) (coord_y aa tgt) src A = Inr s"
    "refines aa (pool_top A) src tgt s V" "todo V = {}"
    using start_refines [OF assms(1-4)] by blast
  have "hs_index2coord i (a_width aa) (a_height aa) = Inr (Some (coord_x aa i, coord_y aa i))"
    if "i \<in> {0..<grid_size aa}" for i
    using hs_index2coord_in(1) grid_fits assms(2) that by (simp add: room_def grid_size_def)
  then have "hs_astar_find_path (Some aa) src tgt r A =
      search_loop aa tgt (coord_x aa tgt) (coord_y aa tgt) r (coord_x aa src, coord_y aa src) s"
    using assms(3,4) s(1) by (simp add: hs_astar_find_path_def)
  then show ?thesis using search_loop_result [OF assms(2,4) r s(2,3)] by simp
qed

lemma fill_cells_result:
  assumes "0 < unat w" "unat w \<le> 128" "unat h \<le> 128" "unat w * unat h \<le> length data"
  shows "length cs = tt_len \<Longrightarrow> \<forall>(i, j)\<in>set ps. i < unat w \<and> j < unat h \<Longrightarrow>
    \<exists>cs'. fill_cells data w h ps cs = Inr cs' \<and> length cs' = tt_len \<and>
      (\<forall>k. (\<exists>(i, j)\<in>set ps. k = unat w * j + i) \<or> cs ! k = data ! k \<longrightarrow> cs' ! k = data ! k)"
proof (induction ps arbitrary: cs)
  case (Cons p ps)
  obtain i j where p: "p = (i, j)" by fastforce
  have ij: "i < unat w" "j < unat h" using Cons.prems(2) p by auto
  let ?k = "unat w * j + i"
  have "?k < unat w * (j + 1)" using ij(1) by simp
  also have "\<dots> \<le> unat w * unat h" using ij(2) by (intro mult_le_mono2) simp
  finally have k: "?k < unat w * unat h" .
  have "unat w * unat h \<le> 128 * 128" using assms(2,3) by (intro mult_le_mono)
  then have k': "?k < tt_len" using k by (simp add: tt_len)
  have small: "uint (of_nat n :: u16) = int n" if "n < 128" for n
    using that unat_of_nat_small [of n, where 'a = 16] by (simp only: uint_nat) simp
  have u: "uint (of_nat i :: u16) = int i" "uint (of_nat j :: u16) = int j"
    using ij assms(2,3) by (intro small; linarith)+
  have lt: "int i < uint w" "int j < uint h" using ij by (simp_all add: uint_nat del: of_nat_unat)
  have "int (unat w * unat h) \<le> int (128 * 128)" using \<open>unat w * unat h \<le> 128 * 128\<close> by (simp only: of_nat_le_iff)
  then have "uint w * uint h \<le> 16384" by simp
  moreover have "0 \<le> uint w * uint h" by simp
  moreover have "fits_int32 m" if "0 \<le> m" "m \<le> 16384" for m using that by (simp add: fits_int32_def)
  ultimately have "fits_int32 (uint w * uint h)" by blast
  then have c: "hs_coord2index (of_nat i) (of_nat j) w h = Inr (int ?k)"
    using hs_coord2index_in [of "of_nat i" w "of_nat j" h] u lt by (simp add: mult.commute)
  obtain cs' where cs': "fill_cells data w h ps (cs[?k := data ! ?k]) = Inr cs'" "length cs' = tt_len"
    "\<forall>k. (\<exists>(i, j)\<in>set ps. k = unat w * j + i) \<or> cs[?k := data ! ?k] ! k = data ! k \<longrightarrow> cs' ! k = data ! k"
    using Cons.IH [of "cs[?k := data ! ?k]"] Cons.prems by auto
  have "fill_cells data w h (p # ps) cs = Inr cs'"
  proof -
    have "arr data ?k = Inr (data ! ?k)" "arr_set cs ?k (data ! ?k) = Inr (cs[?k := data ! ?k])"
      using k k' assms(4) Cons.prems(1) by simp_all
    then show ?thesis by (simp only: p fill_cells.simps c bind_res_simps nat_int cs'(1))
  qed
  moreover have "cs' ! m = data ! m" if "(\<exists>(i, j)\<in>set (p # ps). m = unat w * j + i) \<or> cs ! m = data ! m" for m
    using that cs'(3) k' Cons.prems(1) p by (cases "m = ?k") (auto simp: nth_list_update)
  ultimately show ?case using cs'(2) by blast
qed auto

lemma load_data_result:
  assumes "w \<noteq> 0" "h \<noteq> 0" "unat w \<le> 128" "unat h \<le> 128" "unat w * unat h \<le> length data"
    and "length (cells ta) = tt_len" "A = alloc_zero \<or> pool_wf A"
  shows "\<exists>aa B. hs_astar_load_data (Some data) w h (Some ta) A = Inr (0, Some aa, B) \<and> grid_ok aa \<and>
    a_width aa = w \<and> a_height aa = h \<and> (\<forall>k<unat w * unat h. cells aa ! k = data ! k) \<and> pool_wf B \<and> pool_top B = 0"
proof -
  have pos: "0 < unat w" "0 < unat h" using assms(1,2) by (simp_all add: unat_gt_0)
  let ?ps = "concat (map (\<lambda>i. map (Pair i) [0..<unat h]) [0..<unat w])"
  have "\<forall>(i, j)\<in>set ?ps. i < unat w \<and> j < unat h" by auto
  then obtain cs where cs: "fill_cells data w h ?ps (cells ta) = Inr cs" "length cs = tt_len"
    "\<And>i j. (i, j) \<in> set ?ps \<Longrightarrow> cs ! (unat w * j + i) = data ! (unat w * j + i)"
    using fill_cells_result [OF pos(1) assms(3-6), of ?ps] by blast
  let ?aa = "\<lparr>cells = cs, a_width = w, a_height = h\<rparr>"
  have "hs_astar_load_data (Some data) w h (Some ta) A = Inr (0, Some ?aa, astar_node_allocator_recycle A)"
    using assms(1-4) cs(1) by (simp add: hs_astar_load_data_def MAX_ARRAY_WIDTH_def MAX_ARRAY_HEIGHT_def)
  moreover have "grid_ok ?aa" using pos assms(3,4) cs(2) by (simp add: grid_ok_def uint_nat del: of_nat_unat)
  moreover have "cells ?aa ! k = data ! k" if "k < unat w * unat h" for k
  proof -
    have "k div unat w < unat h" using that by (simp add: less_mult_imp_div_less mult.commute)
    then have "(k mod unat w, k div unat w) \<in> set ?ps" using pos(1) by (auto intro!: bexI [of _ "k mod unat w"])
    then show ?thesis using cs(3) by fastforce
  qed
  ultimately show ?thesis using recycle_wf [OF assms(7)] by auto
qed

section \<open>Properties\<close>

text \<open>C9: the search is right. On a grid that was loaded from data with fewer than 4095 cells, a search
  between any two cells ends without a fault; it returns 0 and the cells of a shortest path, stored
  from the end to the begin, or -1 when the free cells do not connect the two.\<close>

theorem astar_shortest_path:
  assumes "w \<noteq> 0" "h \<noteq> 0" "unat w \<le> 128" "unat h \<le> 128" "unat w * unat h \<le> 4094" "unat w * unat h \<le> length data"
    and "length (cells ta) = tt_len" "A = alloc_zero \<or> pool_wf A"
    and "0 \<le> b" "b < int (unat w * unat h)" "0 \<le> e" "e < int (unat w * unat h)" "length (index_list r) = 4096"
  shows "\<exists>aa B. hs_astar_load_data (Some data) w h (Some ta) A = Inr (0, Some aa, B) \<and>
    a_width aa = w \<and> a_height aa = h \<and> (\<forall>k<unat w * unat h. cells aa ! k = data ! k) \<and>
    (\<exists>code r' C. hs_astar_find_path (Some aa) b e r B = Some (Inr (code, r', C)) \<and>
      (code = 0 \<and> shortest_path (grid_edge aa) b e (rev (take (index_count r') (index_list r'))) \<or>
       code = - 1 \<and> r' = r \<and> (\<forall>n. (b, e) \<notin> grid_edge aa ^^ n)))"
proof -
  obtain aa B where load: "hs_astar_load_data (Some data) w h (Some ta) A = Inr (0, Some aa, B)" "grid_ok aa"
    "a_width aa = w" "a_height aa = h" "\<forall>k<unat w * unat h. cells aa ! k = data ! k" "pool_wf B" "pool_top B = 0"
    using load_data_result [OF assms(1-4,6-8)] by blast
  have size: "grid_size aa = int (unat w * unat h)" using load(3,4) by (simp add: grid_size_def)
  have "int (unat w * unat h) \<le> int 4094" using assms(5) by (simp only: of_nat_le_iff)
  then have "room aa (pool_top B)" using load(2,7) size by (simp add: room_def)
  then have "search_answer aa b e r (hs_astar_find_path (Some aa) b e r B)"
    using assms(9-13) size by (intro find_path_result [OF load(6)]) auto
  then show ?thesis using load unfolding search_answer_def by blast
qed

text \<open>The pool is not given back by a search, and is not as large as the grid. When its 4095 nodes
  are used, the next search writes through a null pointer.\<close>

theorem exhausted_pool_faults:
  assumes "pool_wf A" "pool_top A = 4095" "grid_ok aa" "b \<in> {0..<grid_size aa}" "e \<in> {0..<grid_size aa}"
  shows "hs_astar_find_path (Some aa) b e r A = Some (Inl NullDeref)"
proof -
  have "hs_index2coord i (a_width aa) (a_height aa) = Inr (Some (coord_x aa i, coord_y aa i))"
    if "i \<in> {0..<grid_size aa}" for i
    using hs_index2coord_in(1) grid_fits assms(3) that by (simp add: grid_size_def)
  then show ?thesis
    using assms(4,5) alloc_full [OF assms(1,2)] by (simp add: hs_astar_find_path_def start_search_def)
qed

text \<open>Clearing frees the blocks before the current one but not the current one, which is lost, and a
  search after it writes through a null pointer.\<close>

theorem clear_leaks_and_breaks:
  assumes "pool_wf A" "grid_ok aa" "b \<in> {0..<grid_size aa}" "e \<in> {0..<grid_size aa}"
  shows "fst (hs_astar_clear A) = [0..<cur_list A] \<and> list_array A ! cur_list A \<noteq> None \<and>
    list_array (snd (hs_astar_clear A)) ! cur_list A = None \<and>
    hs_astar_find_path (Some aa) b e r (snd (hs_astar_clear A)) = Some (Inl NullDeref)"
proof -
  have "hs_index2coord i (a_width aa) (a_height aa) = Inr (Some (coord_x aa i, coord_y aa i))"
    if "i \<in> {0..<grid_size aa}" for i
    using hs_index2coord_in(1) grid_fits assms(2) that by (simp add: grid_size_def)
  then have "hs_astar_find_path (Some aa) b e r alloc_zero = Some (Inl NullDeref)"
    using assms(3,4)
    by (simp add: hs_astar_find_path_def start_search_def astar_node_alloc_def alloc_zero_def pool_sizes put_node_def)
  moreover have "filter (\<lambda>i. list_array A ! i \<noteq> None) [0..<cur_list A] = [0..<cur_list A]"
    using assms(1) by (intro filter_True) (auto simp: pool_wf_def)
  ultimately show ?thesis
    using assms(1) by (auto simp: hs_astar_clear_def astar_node_free_def pool_wf_def alloc_zero_def)
qed

text \<open>Coordinates and indexes are the same thing inside a grid.\<close>

theorem coord_index_roundtrip:
  assumes "fits_int32 (uint w * uint h)"
  shows "(uint x < uint w \<and> uint y < uint h \<longrightarrow>
      bind_res (hs_coord2index x y w h) (\<lambda>i. hs_index2coord i w h) = Inr (Some (x, y))) \<and>
    (0 \<le> i \<and> i < uint w * uint h \<longrightarrow>
      (\<exists>x y. hs_index2coord i w h = Inr (Some (x, y)) \<and> hs_coord2index x y w h = Inr i))"
proof (intro conjI impI)
  assume a: "uint x < uint w \<and> uint y < uint h"
  let ?i = "uint y * uint w + uint x"
  have b: "0 \<le> ?i" "?i < uint w * uint h" using a by (simp_all add: cell_bound)
  have "?i mod uint w = uint x" "?i div uint w = uint y" using a by (simp_all add: cell_split)
  then show "bind_res (hs_coord2index x y w h) (\<lambda>i. hs_index2coord i w h) = Inr (Some (x, y))"
    using a hs_coord2index_in [OF _ _ assms] hs_index2coord_in(1) [OF b assms] by simp
next
  assume i: "0 \<le> i \<and> i < uint w * uint h"
  note c = hs_index2coord_in [OF conjunct1 [OF i] conjunct2 [OF i] assms]
  have "hs_coord2index (of_int (i mod uint w)) (of_int (i div uint w)) w h = Inr i"
    using hs_coord2index_in [of "of_int (i mod uint w)" w "of_int (i div uint w)" h] c(2-5) assms by simp
  then show "\<exists>x y. hs_index2coord i w h = Inr (Some (x, y)) \<and> hs_coord2index x y w h = Inr i"
    using c(1) by blast
qed

section \<open>Witnesses\<close>

theorem astar_shortest_path_witness:
  "\<exists>aa B r' C. hs_astar_load_data (Some [0, 1, 0, 0]) 2 2 (Some \<lparr>cells = replicate tt_len 7, a_width = 0, a_height = 0\<rparr>)
      alloc_zero = Inr (0, Some aa, B) \<and>
    hs_astar_find_path (Some aa) 0 3 \<lparr>index_list = replicate 4096 0, index_count = 0\<rparr> B = Some (Inr (0, r', C)) \<and>
    length (take (index_count r') (index_list r')) \<le> 3"
proof -
  have u: "unat (2 :: u16) = 2" by simp
  let ?r = "\<lparr>index_list = replicate 4096 0, index_count = 0\<rparr>"
  from astar_shortest_path [of 2 2 "[0, 1, 0, 0]" "\<lparr>cells = replicate tt_len 7, a_width = 0, a_height = 0\<rparr>" alloc_zero 0 3 ?r]
  obtain aa B code r' C where l: "hs_astar_load_data (Some [0, 1, 0, 0]) 2 2
      (Some \<lparr>cells = replicate tt_len 7, a_width = 0, a_height = 0\<rparr>) alloc_zero = Inr (0, Some aa, B)"
    "a_width aa = 2" "a_height aa = 2" "\<forall>k<4. cells aa ! k = [0, 1, 0, 0] ! k"
    and f: "hs_astar_find_path (Some aa) 0 3 ?r B = Some (Inr (code, r', C))"
    and c: "code = 0 \<and> shortest_path (grid_edge aa) 0 3 (rev (take (index_count r') (index_list r'))) \<or>
      code = - 1 \<and> r' = ?r \<and> (\<forall>n. (0, 3) \<notin> grid_edge aa ^^ n)"
    by (simp add: u) blast
  have cells: "cells aa ! 2 = 0" "cells aa ! 3 = 0" using l(4) [rule_format, of 2] l(4) [rule_format, of 3] by simp_all
  have "(0, 2) \<in> grid_edge aa" "(2, 3) \<in> grid_edge aa"
    using cells l(2,3) by (simp_all add: grid_edge_def grid_size_def grid_dist_def)
  then have walk: "(0, 3) \<in> grid_edge aa ^^ 2" by (auto simp: numeral_2_eq_2)
  then have code: "code = 0" "length (rev (take (index_count r') (index_list r'))) \<le> 3"
    using c unfolding shortest_path_def by fastforce+
  then show ?thesis using l(1) f by (auto simp del: length_take)
qed

lemma ex_grid: "grid_ok \<lparr>cells = replicate tt_len 0, a_width = 1, a_height = 1\<rparr>"
  "0 \<in> {0..<grid_size \<lparr>cells = replicate tt_len 0, a_width = 1, a_height = 1\<rparr>}"
  by (simp_all add: grid_ok_def grid_size_def)

theorem exhausted_pool_faults_witness:
  "hs_astar_find_path (Some \<lparr>cells = replicate tt_len 0, a_width = 1, a_height = 1\<rparr>) 0 0
     \<lparr>index_list = replicate 4096 0, index_count = 0\<rparr>
     \<lparr>inited = True, cur_list = 31, cur_index = 127, list_array = replicate 32 (Some new_block)\<rparr>
     = Some (Inl NullDeref)"
proof -
  let ?A = "\<lparr>inited = True, cur_list = 31, cur_index = 127, list_array = replicate 32 (Some new_block)\<rparr>"
  have "pool_wf ?A" "pool_top ?A = 4095"
    by (auto simp: pool_wf_def pool_top_def pool_sizes new_block_def nth_replicate)
  then show ?thesis using exhausted_pool_faults [OF _ _ ex_grid(1,2,2)] by blast
qed

theorem clear_leaks_and_breaks_witness:
  "hs_astar_find_path (Some \<lparr>cells = replicate tt_len 0, a_width = 1, a_height = 1\<rparr>) 0 0
     \<lparr>index_list = replicate 4096 0, index_count = 0\<rparr>
     (snd (hs_astar_clear (hs_astar_recycle alloc_zero))) = Some (Inl NullDeref)"
proof -
  have "pool_wf (hs_astar_recycle alloc_zero)" using recycle_wf(1) by (simp add: hs_astar_recycle_def)
  then show ?thesis using clear_leaks_and_breaks [OF _ ex_grid(1,2,2)] by blast
qed

theorem coord_index_roundtrip_witness:
  "bind_res (hs_coord2index 2 1 3 2) (\<lambda>i. hs_index2coord i 3 2) = Inr (Some (2, 1)) \<and>
   (\<exists>x y. hs_index2coord 5 3 2 = Inr (Some (x, y)) \<and> hs_coord2index x y 3 2 = Inr 5)"
  using coord_index_roundtrip [of 3 2 2 1 5] by (simp add: fits_int32_def)

end
