(* ===== verification/HS_ChannelStates.thy ===== *)
theory HS_ChannelStates
  imports HS_SessionMgr
begin

text \<open>
  The life of a channel of \<open>HS_SessionMgr\<close> (\<open>hs_channel.h\<close>) as a state machine: its calls in any order,
  on any registry of sessions, with any completions. A call that faults ends the life of the channel and
  is no step.
\<close>

section \<open>The steps\<close>

inductive channel_step ::
  "(nat \<Rightarrow> byte) \<Rightarrow> channel \<times> session_mgr \<Rightarrow> channel \<times> session_mgr \<Rightarrow> bool" for junk where
  step_clear: "channel_step junk (ch, m) (channel_clear ch, m)"
| step_init: "channel_step junk (ch, m) (channel_init ch ep handler sid, m)"
| step_endpoint: "channel_step junk (ch, m) (channel_set_endpoint ch ep, m)"
| step_handler: "channel_step junk (ch, m) (channel_set_eventhandler ch handler, m)"
| step_session_id: "channel_step junk (ch, m) (channel_set_session_id ch sid, m)"
| step_listen: "listen junk ch m = (ch', m') \<Longrightarrow> channel_step junk (ch, m) (ch', m')"
| step_connect: "channel_connect junk ch m = Inr (ch', m', acts) \<Longrightarrow> channel_step junk (ch, m) (ch', m')"
| step_poll: "channel_poll junk ch m ready = (ch', m', acts) \<Longrightarrow> channel_step junk (ch, m) (ch', m')"
| step_others: "channel_step junk (ch, m) (ch, m')"

inductive_cases channel_stepE: "channel_step junk (ch, m) (ch', m')"

text \<open>The values of \<open>state_\<close>, and the object that belongs to each.\<close>

definition channel_typed :: "channel \<Rightarrow> bool" where
  "channel_typed ch \<longleftrightarrow>
     ch_state ch = 0 \<or> ch_state ch = 1 \<and> ch_connector ch \<noteq> None \<or> ch_state ch = 2 \<and> ch_acceptor ch \<noteq> None"

lemma listen_typed: "listen junk ch m = (ch', m') \<Longrightarrow> channel_typed ch \<Longrightarrow> channel_typed ch'"
  by (auto simp: listen_def channel_typed_def split: if_splits prod.splits)

lemma channel_step_typed: "channel_step junk (ch, m) (ch', m') \<Longrightarrow> channel_typed ch \<Longrightarrow> channel_typed ch'"
proof (erule channel_stepE)
  fix acts assume "channel_connect junk ch m = Inr (ch', m', acts)" "channel_typed ch"
  then show "channel_typed ch'"
    by (auto simp: channel_connect_def channel_typed_def bind_res_Inr_conv split: if_splits)
next
  fix ready acts assume p: "channel_poll junk ch m ready = (ch', m', acts)" and t: "channel_typed ch"
  have "channel_typed ch'" if "foldl (run_completion junk) (ch, m, []) ready = (ch', m', acts)" for acts
    using run_completions_shape [OF that] t by (simp add: channel_typed_def)
  then show "channel_typed ch'"
    using p t listen_typed [OF _ t] by (auto simp: channel_poll_def split: if_splits prod.splits)
qed (auto simp: channel_clear_def channel_init_def channel_set_endpoint_def channel_set_eventhandler_def
  channel_set_session_id_def channel_typed_def dest: listen_typed)

section \<open>Property\<close>

text \<open>C36: in every run of a channel its state is 0, 1 or 2; in state 1 it has a connector, in state 2 an
  acceptor. The states 3, connected, and -1, failed, that the declaration of \<open>state_\<close> lists do not occur.\<close>

theorem channel_states:
  assumes "(channel_step junk)\<^sup>*\<^sup>* (HSChannel_new, m) (ch, m')"
  shows "ch_state ch \<in> {0, 1, 2} \<and> (ch_state ch = 1 \<longrightarrow> ch_connector ch \<noteq> None) \<and>
    (ch_state ch = 2 \<longrightarrow> ch_acceptor ch \<noteq> None)"
proof -
  have "channel_typed (fst (ch, m'))"
    using assms
  proof (induction rule: rtranclp_induct)
    case base
    show ?case by (simp add: channel_typed_def HSChannel_new_def)
  next
    case (step y z)
    then show ?case using channel_step_typed [of junk "fst y" "snd y" "fst z" "snd z"] by simp
  qed
  then show ?thesis by (auto simp: channel_typed_def)
qed

theorem channel_states_witness:
  "\<exists>ch m'. (channel_step (\<lambda>_. 0))\<^sup>*\<^sup>* (HSChannel_new, HSSessionMgr_new) (ch, m') \<and> ch_state ch = 2 \<and> ch_acceptor ch \<noteq> None"
proof -
  let ?ch = "channel_init HSChannel_new 1 (Some 0) 5"
  obtain ch' m' where l: "listen (\<lambda>_. 0) ?ch HSSessionMgr_new = (ch', m')" by fastforce
  have run: "(channel_step (\<lambda>_. 0))\<^sup>*\<^sup>* (HSChannel_new, HSSessionMgr_new) (ch', m')"
    using step_init step_listen [OF l] by (meson rtranclp.rtrancl_refl rtranclp.rtrancl_into_rtrancl)
  have s: "ch_state ch' = 2" using l by (auto simp: listen_def channel_init_def HSChannel_new_def split: prod.splits)
  then show ?thesis using channel_states [OF run] run by blast
qed

end
