(* ===== verification/HS_OdbcCallbacks.thy ===== *)
theory HS_OdbcCallbacks
  imports HS_Odbc
begin

text \<open>
  \<open>hs_odbc.cpp\<close> with callbacks that query again. A callback is called from inside \<open>ExecuteQuery\<close> or
  \<open>Doing\<close>, and may itself call \<open>ExecuteQuery\<close>, without naming a handle, before it returns. What it
  queries is a parameter \<open>cbs err i c\<close>: the statements, each with its callback, that the callback \<open>c\<close>
  issues when it is called for handle \<open>i\<close>. Nothing happens in \<open>ExecuteQuery\<close> after its callback returned,
  so the calls in progress are a stack of the queries still to be issued. A callback that calls \<open>Doing\<close>
  or disconnects is not modelled.
\<close>

section \<open>The code\<close>

type_synonym sql_client = "bool \<Rightarrow> nat \<Rightarrow> sql_callback option \<Rightarrow> (string \<times> sql_callback) list"

fun callback_queries :: "sql_client \<Rightarrow> sql_event list \<Rightarrow> (string \<times> sql_callback \<times> nat) list" where
  "callback_queries cbs [] = []"
| "callback_queries cbs (Exec i t # evs) = callback_queries cbs evs"
| "callback_queries cbs (CallBack err i c # evs) =
     map (\<lambda>(t, cb). (t, cb, 2 ^ 32 - 1)) (cbs err i c) @ callback_queries cbs evs"

partial_function (option) run_queries ::
  "sql_driver \<Rightarrow> sql_client \<Rightarrow> odbc \<Rightarrow> sql_event list \<Rightarrow> (string \<times> sql_callback \<times> nat) list \<Rightarrow>
     (odbc \<times> sql_event list) res option" where
  [code]: "run_queries drv cbs o' evs stack =
     (case stack of
        [] \<Rightarrow> Some (Inr (o', evs))
      | (sql_text, callback, use_index) # stack \<Rightarrow>
          (case ExecuteQuery drv o' sql_text callback use_index of
             Inl e \<Rightarrow> Some (Inl e)
           | Inr (r, o', evs') \<Rightarrow>
               run_queries drv cbs o' (evs @ evs') (callback_queries cbs evs' @ stack)))"

fun handles_callbacks ::
  "sql_driver \<Rightarrow> sql_client \<Rightarrow> odbc \<Rightarrow> sql_event list \<Rightarrow> nat list \<Rightarrow> (odbc \<times> sql_event list) res option" where
  "handles_callbacks drv cbs o' evs [] = Some (Inr (o', evs))"
| "handles_callbacks drv cbs o' evs (i # is) =
     (case Doing_handle drv o' i of (o', evs') \<Rightarrow>
        (case run_queries drv cbs o' (evs @ evs') (callback_queries cbs evs') of
           None \<Rightarrow> None
         | Some (Inl e) \<Rightarrow> Some (Inl e)
         | Some (Inr (o', evs)) \<Rightarrow> handles_callbacks drv cbs o' evs is))"

partial_function (option) loop_callbacks ::
  "sql_driver \<Rightarrow> sql_client \<Rightarrow> odbc \<Rightarrow> sql_event list \<Rightarrow> (odbc \<times> sql_event list) res option" where
  [code]: "loop_callbacks drv cbs o' evs =
     (if GetCount (callback_list o') = 0 then Some (Inr (o', evs))
      else
        (case GetHeadValue (callback_list o') of
           Inl e \<Rightarrow> Some (Inl e)
         | Inr None \<Rightarrow> loop_callbacks drv cbs o' evs
         | Inr (Some qc) \<Rightarrow>
             if GetCanUseHandleIndex o' \<ge> length (hstmt o') then Some (Inr (o', evs))
             else
               (case run_queries drv cbs o' evs
                    [(q_statement qc, q_callback qc, GetCanUseHandleIndex o')] of
                  None \<Rightarrow> None
                | Some (Inl e) \<Rightarrow> Some (Inl e)
                | Some (Inr (o', evs)) \<Rightarrow>
                    (case RemoveHead (callback_list o') of
                       Inl e \<Rightarrow> Some (Inl e)
                     | Inr (r, l) \<Rightarrow> loop_callbacks drv cbs (o'\<lparr>callback_list := l\<rparr>) evs))))"

definition Doing_callbacks :: "sql_driver \<Rightarrow> sql_client \<Rightarrow> odbc \<Rightarrow> (odbc \<times> sql_event list) res option" where
  "Doing_callbacks drv cbs o' =
     (case handles_callbacks drv cbs o' [] [0..<length (hstmt o')] of
        None \<Rightarrow> None
      | Some (Inl e) \<Rightarrow> Some (Inl e)
      | Some (Inr (o', evs)) \<Rightarrow> loop_callbacks drv cbs o' evs)"

section \<open>What a query leaves behind\<close>

text \<open>A query is queued only when both handles are busy, and a query never makes a handle idle.\<close>

definition all_busy :: "odbc \<Rightarrow> bool" where
  "all_busy o' \<longleftrightarrow> \<not> GetCanUseHandleIndex o' < 2"

definition served :: "odbc \<Rightarrow> odbc \<Rightarrow> bool" where
  "served o' o1 \<longleftrightarrow> odbc_inv o1 \<and> (all_busy o' \<longrightarrow> all_busy o1) \<and>
     GetCount (callback_list o') \<le> GetCount (callback_list o1) \<and>
     (GetCount (callback_list o1) = GetCount (callback_list o') \<or> all_busy o1)"

lemma served_refl [simp]: "served o' o' \<longleftrightarrow> odbc_inv o'"
  by (simp add: served_def)

lemma served_trans: "served a b \<Longrightarrow> served b c \<Longrightarrow> served a c"
  by (auto simp: served_def)

lemma served_inv: "served a b \<Longrightarrow> odbc_inv b"
  by (simp add: served_def)

lemma all_busy_update [simp]:
  "all_busy (o'\<lparr>callback_list := l\<rparr>) \<longleftrightarrow> all_busy o'" "all_busy (o'\<lparr>clock := k\<rparr>) \<longleftrightarrow> all_busy o'"
  by (simp_all add: all_busy_def GetCanUseHandleIndex_def split: option.split)

lemma all_busy_doing:
  "length (hstmt o') = 2 \<Longrightarrow> all_busy o' \<longleftrightarrow> doing (hstmt o' ! 0) \<and> doing (hstmt o' ! 1)"
  by (auto simp: all_busy_def GetCanUseHandleIndex_def numeral_2_eq_2 length_Suc_conv split: if_splits)

lemma served_step:
  assumes "odbc_inv o'" "length (hstmt o1) = 2" "callback_list o1 = callback_list o'"
    "\<And>j. doing (hstmt o' ! j) \<Longrightarrow> j < 2 \<Longrightarrow> doing (hstmt o1 ! j)"
  shows "served o' o1"
  using assms by (auto simp: served_def odbc_inv_def all_busy_doing)

lemma ExecuteQuery_served:
  assumes inv: "odbc_inv o'" and ix: "ix \<noteq> 2"
  obtains b o1 evs1 where "ExecuteQuery drv o' t cb ix = Inr (b, o1, evs1)" "served o' o1"
    "\<forall>err i c. CallBack err i c \<in> set evs1 \<longrightarrow> c = Some cb"
proof -
  have len: "length (hstmt o') = 2" and li: "list_inv (callback_list o')"
    using inv by (simp_all add: odbc_inv_def)
  define j where "j = (if ix > 2 then GetCanUseHandleIndex o' else ix)"
  have j: "(if ix > length (hstmt o') then GetCanUseHandleIndex o' else ix) = j"
    by (simp add: j_def len)
  show ?thesis
  proof (cases "j < 2")
    case False
    then have busy: "all_busy o'" using ix by (auto simp: j_def all_busy_def split: if_splits)
    obtain l where l: "PushValue (callback_list o') \<lparr>q_callback = cb, q_statement = t\<rparr> = Inr l"
      "list_inv l" "useable_count l = useable_count (callback_list o') + 1"
      using hs_queue.push_ok [OF li] by blast
    have ex: "ExecuteQuery drv o' t cb ix = Inr (False, o'\<lparr>callback_list := l\<rparr>, [])"
      unfolding ExecuteQuery_def Let_def j using False l(1) len by simp
    show ?thesis
      by (rule that [OF ex]) (use busy l len in \<open>simp_all add: served_def odbc_inv_def GetCount_def\<close>)
  next
    case True
    have ex: "ExecuteQuery drv o' t cb ix =
        (let retcode = drv (clock o') j (Some t); o1 = o'\<lparr>clock := clock o' + 1\<rparr> in
         if retcode = SQL_STILL_EXECUTING
         then Inr (False, SetCallback (SetDoing o1 j True) j cb, [Exec j (Some t)])
         else Inr (retcode = SQL_SUCCESS, o1,
           [Exec j (Some t), CallBack (retcode \<noteq> SQL_SUCCESS) j (Some cb)]))"
      unfolding ExecuteQuery_def Let_def j using True len by simp
    let ?s = "SetCallback (SetDoing (o'\<lparr>clock := clock o' + 1\<rparr>) j True) j cb"
    have s: "served o' ?s" "served o' (o'\<lparr>clock := clock o' + 1\<rparr>)"
      by (rule served_step [OF inv];
        use len True in \<open>auto simp: SetCallback_def SetDoing_def nth_list_update\<close>)+
    show ?thesis
    proof (cases "drv (clock o') j (Some t) = SQL_STILL_EXECUTING")
      case True
      with ex s(1) show ?thesis by (intro that) (auto simp: Let_def)
    next
      case False
      with ex s(2) show ?thesis by (intro that) (auto simp: Let_def)
    qed
  qed
qed
section \<open>Queries in progress\<close>

lemma callback_queries_append [simp]:
  "callback_queries cbs (evs @ evs') = callback_queries cbs evs @ callback_queries cbs evs'"
  by (induction cbs evs rule: callback_queries.induct) simp_all

lemma callback_queries_mem:
  "(t, c, ix) \<in> set (callback_queries cbs evs) \<Longrightarrow>
   ix = 2 ^ 32 - 1 \<and> (\<exists>err i c'. CallBack err i c' \<in> set evs \<and> (t, c) \<in> set (cbs err i c'))"
  by (induction cbs evs rule: callback_queries.induct) auto

lemma callback_queries_quiet [simp]: "callback_queries (\<lambda>err i c. []) evs = []"
proof (induction evs)
  case (Cons e evs)
  then show ?case by (cases e) simp_all
qed simp

text \<open>The stack is worked off from its front: what lies below a query waits until it is finished.\<close>

lemma run_queries_append:
  assumes "run_queries drv cbs o' evs stack = Some (Inr (o1, evs1))"
  shows "run_queries drv cbs o' evs (stack @ rest) = run_queries drv cbs o1 evs1 rest"
proof -
  let ?P = "\<lambda>drv cbs o' evs stack (y :: (odbc \<times> sql_event list) res). \<forall>o1 evs1. y = Inr (o1, evs1) \<longrightarrow>
    run_queries drv cbs o' evs (stack @ rest) = run_queries drv cbs o1 evs1 rest"
  have "?P drv cbs o' evs stack (Inr (o1, evs1))"
  proof (rule run_queries.raw_induct [of ?P, OF _ assms], intro allI impI)
    fix run drv cbs o' evs y o1 evs1 and stack :: "(string \<times> sql_callback \<times> nat) list"
    assume ih: "\<And>drv cbs o' evs stack y. run drv cbs o' evs stack = Some y \<Longrightarrow> ?P drv cbs o' evs stack y"
      and body: "(case stack of
        [] \<Rightarrow> Some (Inr (o', evs))
      | (sql_text, callback, use_index) # stack \<Rightarrow>
          (case ExecuteQuery drv o' sql_text callback use_index of
             Inl e \<Rightarrow> Some (Inl e)
           | Inr (r, o', evs') \<Rightarrow>
               run drv cbs o' (evs @ evs') (callback_queries cbs evs' @ stack))) = Some (y :: (odbc \<times> sql_event list) res)"
      and y: "y = Inr (o1, evs1)"
    show "run_queries drv cbs o' evs (stack @ rest) = run_queries drv cbs o1 evs1 rest"
    proof (cases stack)
      case (Cons q qs)
      obtain t c ix where "q = (t, c, ix)" by (cases q)
      with Cons body y ih show ?thesis
        by (subst run_queries.simps)
          (auto split: sum.splits prod.splits simp flip: append_assoc)
    qed (use body y in simp)
  qed
  then show ?thesis by simp
qed

definition callback_order :: "sql_client \<Rightarrow> (sql_callback \<times> sql_callback) set" where
  "callback_order cbs = {(c', c). \<exists>err i t. (t, c') \<in> set (cbs err i (Some c))}"


lemma run_queries_Nil [simp]: "run_queries drv cbs o' evs [] = Some (Inr (o', evs))"
  by (subst run_queries.simps) simp

lemma run_queries_Cons:
  assumes "ExecuteQuery drv o' t cb ix = Inr (b, o1, evs1)"
  shows "run_queries drv cbs o' evs ((t, cb, ix) # stack) =
    run_queries drv cbs o1 (evs @ evs1) (callback_queries cbs evs1 @ stack)"
  using assms by (subst run_queries.simps) simp

text \<open>A stack is worked off when each of its queries would be, whatever the state.\<close>

definition query_ends :: "sql_driver \<Rightarrow> sql_client \<Rightarrow> (string \<times> sql_callback \<times> nat) list \<Rightarrow> bool" where
  "query_ends drv cbs stack \<longleftrightarrow> (\<forall>o' evs. odbc_inv o' \<longrightarrow>
     (\<exists>o1 evs1. run_queries drv cbs o' evs stack = Some (Inr (o1, evs1)) \<and> served o' o1))"

lemma query_endsE:
  assumes "query_ends drv cbs stack" "odbc_inv o'"
  obtains o1 evs1 where "run_queries drv cbs o' evs stack = Some (Inr (o1, evs1))" "served o' o1"
  using assms unfolding query_ends_def by blast

lemma query_ends_append:
  assumes "query_ends drv cbs s" "query_ends drv cbs s'"
  shows "query_ends drv cbs (s @ s')"
  unfolding query_ends_def
proof (intro allI impI)
  fix o' evs assume inv: "odbc_inv o'"
  obtain o1 evs1 where 1: "run_queries drv cbs o' evs s = Some (Inr (o1, evs1))" "served o' o1"
    by (rule query_endsE [OF assms(1) inv])
  obtain o2 evs2 where "run_queries drv cbs o1 evs1 s' = Some (Inr (o2, evs2))" "served o1 o2"
    by (rule query_endsE [OF assms(2) served_inv [OF 1(2)]])
  then show "\<exists>o1 evs1. run_queries drv cbs o' evs (s @ s') = Some (Inr (o1, evs1)) \<and> served o' o1"
    using 1 run_queries_append [OF 1(1)] served_trans by metis
qed

lemma query_ends_list:
  "(\<And>q. q \<in> set stack \<Longrightarrow> query_ends drv cbs [q]) \<Longrightarrow> query_ends drv cbs stack"
proof (induction stack)
  case (Cons q stack)
  then show ?case using query_ends_append [of drv cbs "[q]" stack] by simp
qed (simp add: query_ends_def)

lemma query_ends_single:
  assumes "wf (callback_order cbs)"
  shows "ix \<noteq> 2 \<Longrightarrow> query_ends drv cbs [(t, cb, ix)]"
  using assms
proof (induction cb arbitrary: t ix rule: wf_induct_rule)
  case (less cb)
  show ?case
    unfolding query_ends_def
  proof (intro allI impI)
    fix o' evs assume inv: "odbc_inv o'"
    obtain b o1 evs1 where ex: "ExecuteQuery drv o' t cb ix = Inr (b, o1, evs1)" "served o' o1"
      "\<forall>err i c. CallBack err i c \<in> set evs1 \<longrightarrow> c = Some cb"
      by (rule ExecuteQuery_served [OF inv less.prems, of drv t cb])
    have "query_ends drv cbs [q]" if q: "q \<in> set (callback_queries cbs evs1)" for q
    proof -
      obtain t' c ix' where q': "q = (t', c, ix')" by (cases q)
      with callback_queries_mem [of t' c ix' cbs evs1] q obtain err i c' where
        m: "ix' = 2 ^ 32 - 1" "CallBack err i c' \<in> set evs1" "(t', c) \<in> set (cbs err i c')" by blast
      then have "(c, cb) \<in> callback_order cbs" using ex(3) by (auto simp: callback_order_def)
      from less.IH [OF this, of ix' t'] m(1) show ?thesis by (simp add: q')
    qed
    from query_endsE [OF query_ends_list [OF this] served_inv [OF ex(2)]]
    obtain o2 evs2 where "run_queries drv cbs o1 (evs @ evs1) (callback_queries cbs evs1) = Some (Inr (o2, evs2))"
      "served o1 o2" .
    then show "\<exists>o1 evs1. run_queries drv cbs o' evs [(t, cb, ix)] = Some (Inr (o1, evs1)) \<and> served o' o1"
      using run_queries_Cons [OF ex(1), of cbs evs "[]"] served_trans [OF ex(2)] by auto
  qed
qed

lemma callbacks_end:
  assumes "wf (callback_order cbs)"
  shows "query_ends drv cbs (callback_queries cbs evs)"
proof (rule query_ends_list)
  fix q assume q: "q \<in> set (callback_queries cbs evs)"
  obtain t c ix where "q = (t, c, ix)" by (cases q)
  with q callback_queries_mem [of t c ix cbs evs] query_ends_single [OF assms, of ix]
  show "query_ends drv cbs [q]" by simp
qed

lemma handles_callbacks_end:
  assumes "wf (callback_order cbs)"
  shows "odbc_inv o' \<Longrightarrow> \<exists>o1 evs1. handles_callbacks drv cbs o' evs is = Some (Inr (o1, evs1)) \<and> odbc_inv o1"
proof (induction "is" arbitrary: o' evs)
  case (Cons i "is")
  obtain o1 evs1 where 1: "Doing_handle drv o' i = (o1, evs1)" by (cases "Doing_handle drv o' i")
  then have "odbc_inv o1"
    using Doing_handle_keeps [of drv o' i] Cons.prems by (simp add: odbc_inv_def)
  then obtain o2 evs2 where
    "run_queries drv cbs o1 (evs @ evs1) (callback_queries cbs evs1) = Some (Inr (o2, evs2))" "served o1 o2"
    by (rule query_endsE [OF callbacks_end [OF assms]])
  with 1 Cons.IH [OF served_inv] show ?case by simp
qed simp

text \<open>A round of the loop over the queue shortens it, unless it leaves both handles busy.\<close>

lemma loop_callbacks_stops:
  assumes "odbc_inv o'" and "GetCount (callback_list o') = 0 \<or> all_busy o'"
  shows "loop_callbacks drv cbs o' evs = Some (Inr (o', evs))"
  using hs_queue.get_head_ok [of "callback_list o'"] hs_queue.front_None [of "callback_list o'"] assms
  by (subst loop_callbacks.simps) (auto simp: odbc_inv_def GetCount_def all_busy_def split: option.split)

lemma loop_callbacks_round:
  assumes "wf (callback_order cbs)"
    and inv: "odbc_inv o'" and ne: "GetCount (callback_list o') \<noteq> 0" and idle: "\<not> all_busy o'"
  obtains o1 evs1 where "loop_callbacks drv cbs o' evs = loop_callbacks drv cbs o1 evs1" "odbc_inv o1"
    "GetCount (callback_list o1) = GetCount (callback_list o') - 1 \<or> all_busy o1"
proof -
  have li: "list_inv (callback_list o')" and len: "length (hstmt o') = 2"
    using inv by (simp_all add: odbc_inv_def)
  obtain qc where qc: "head_value (callback_list o') = Some qc"
    using hs_queue.front_None [OF li] ne by (cases "head_value (callback_list o')") (simp_all add: GetCount_def)
  have ix: "GetCanUseHandleIndex o' < 2" using idle by (simp add: all_busy_def)
  have qe: "query_ends drv cbs [(q_statement qc, q_callback qc, GetCanUseHandleIndex o')]"
    by (rule query_ends_single [OF assms(1)]) (use ix in simp)
  obtain o1 evs1 where
    r: "run_queries drv cbs o' evs [(q_statement qc, q_callback qc, GetCanUseHandleIndex o')] = Some (Inr (o1, evs1))"
    "served o' o1"
    by (rule query_endsE [OF qe inv])
  have li1: "list_inv (callback_list o1)" and ne1: "useable_count (callback_list o1) \<noteq> 0"
    using r(2) ne by (auto simp: served_def odbc_inv_def GetCount_def)
  obtain l where l: "RemoveHead (callback_list o1) = Inr (True, l)" "list_inv l"
    "useable_count l = useable_count (callback_list o1) - 1"
    using hs_queue.remove_ok [OF li1 ne1] by blast
  have "loop_callbacks drv cbs o' evs = loop_callbacks drv cbs (o1\<lparr>callback_list := l\<rparr>) evs1"
    using ne ix len hs_queue.get_head_ok [OF li] qc r(1) l(1) by (subst loop_callbacks.simps) simp
  then show ?thesis
    by (rule that) (use r(2) l(2,3) in \<open>auto simp: served_def odbc_inv_def GetCount_def\<close>)
qed

lemma loop_callbacks_end:
  assumes "wf (callback_order cbs)"
  shows "odbc_inv o' \<Longrightarrow> \<exists>o1 evs1. loop_callbacks drv cbs o' evs = Some (Inr (o1, evs1)) \<and> odbc_inv o1 \<and>
    (GetCount (callback_list o1) = 0 \<or> all_busy o1)"
proof (induction "GetCount (callback_list o')" arbitrary: o' evs rule: less_induct)
  case less
  show ?case
  proof (cases "GetCount (callback_list o') = 0 \<or> all_busy o'")
    case True
    then show ?thesis using loop_callbacks_stops less.prems by blast
  next
    case False
    then obtain o1 evs1 where r: "loop_callbacks drv cbs o' evs = loop_callbacks drv cbs o1 evs1" "odbc_inv o1"
      "GetCount (callback_list o1) = GetCount (callback_list o') - 1 \<or> all_busy o1"
      using loop_callbacks_round [OF assms less.prems] by metis
    show ?thesis
    proof (cases "all_busy o1")
      case True
      with r(1,2) loop_callbacks_stops [OF r(2)] show ?thesis by auto
    next
      case False
      with r(3) \<open>\<not> (GetCount (callback_list o') = 0 \<or> all_busy o')\<close>
      have "GetCount (callback_list o1) < GetCount (callback_list o')" by simp
      from less.hyps [OF this r(2), of evs1] r(1) show ?thesis by simp
    qed
  qed
qed

text \<open>Callbacks that query nothing.\<close>

lemma run_queries_quiet:
  assumes "ExecuteQuery drv o' t cb ix = Inr (b, o1, evs1)"
  shows "run_queries drv (\<lambda>err i c. []) o' evs [(t, cb, ix)] = Some (Inr (o1, evs @ evs1))"
  using run_queries_Cons [OF assms, of "\<lambda>err i c. []" evs "[]"] by simp

lemma handles_callbacks_quiet:
  "handles_callbacks drv (\<lambda>err i c. []) o' evs is =
     (case Doing_handles drv o' is of (o1, evs1) \<Rightarrow> Some (Inr (o1, evs @ evs1)))"
  by (induction "is" arbitrary: o' evs) (auto split: prod.splits)

lemma loop_callbacks_quiet:
  "odbc_inv o' \<Longrightarrow> loop_callbacks drv (\<lambda>err i c. []) o' evs = Doing_loop drv o' evs"
proof (induction "GetCount (callback_list o')" arbitrary: o' evs rule: less_induct)
  case less
  show ?case
  proof (cases "GetCount (callback_list o') = 0 \<or> all_busy o'")
    case True
    then show ?thesis
      using loop_callbacks_stops [OF less.prems True, of drv "\<lambda>err i c. []" evs] Doing_loop_stops less.prems
      by (auto simp: all_busy_def)
  next
    case False
    then have ne: "GetCount (callback_list o') \<noteq> 0" and idle: "GetCanUseHandleIndex o' < 2"
      by (simp_all add: all_busy_def)
    obtain qc b o1 l evs1 where r: "head_value (callback_list o') = Some qc"
      "ExecuteQuery drv o' (q_statement qc) (q_callback qc) (GetCanUseHandleIndex o') = Inr (b, o1, evs1)"
      "RemoveHead (callback_list o') = Inr (True, l)" "odbc_inv (o1\<lparr>callback_list := l\<rparr>)"
      "GetCount l = GetCount (callback_list o') - 1"
      "Doing_loop drv o' evs = Doing_loop drv (o1\<lparr>callback_list := l\<rparr>) (evs @ evs1)"
      by (rule Doing_round [OF less.prems ne idle, of drv evs])
    have inv: "length (hstmt o') = 2" "list_inv (callback_list o')"
      using less.prems by (simp_all add: odbc_inv_def)
    have "callback_list o1 = callback_list o'"
      using ExecuteQuery_idle [of o' drv "q_statement qc" "q_callback qc"] idle inv(1) r(2) by auto
    then have "loop_callbacks drv (\<lambda>err i c. []) o' evs =
        loop_callbacks drv (\<lambda>err i c. []) (o1\<lparr>callback_list := l\<rparr>) (evs @ evs1)"
      using ne idle inv hs_queue.get_head_ok [OF inv(2)] r(1,3) run_queries_quiet [OF r(2)]
      by (subst loop_callbacks.simps) simp
    with less.hyps [of "o1\<lparr>callback_list := l\<rparr>"] ne r(4-6) show ?thesis by simp
  qed
qed

text \<open>Callbacks that always query again.\<close>

lemma run_queries_never:
  assumes drv: "\<And>k i t. drv k i t = rc" "rc \<noteq> SQL_STILL_EXECUTING"
    and again: "\<And>i c. cbs (rc \<noteq> SQL_SUCCESS) i c \<noteq> []"
    and start: "length (hstmt o') = 2" "\<not> all_busy o'" "stack \<noteq> []" "\<forall>(t, c, ix) \<in> set stack. ix \<noteq> 2"
  shows "run_queries drv cbs o' evs stack = None"
proof -
  let ?P = "\<lambda>drv' cbs' o' evs (stack :: (string \<times> sql_callback \<times> nat) list) (y :: (odbc \<times> sql_event list) res).
    \<not> (drv' = drv \<and> cbs' = cbs \<and> length (hstmt o') = 2 \<and> \<not> all_busy o' \<and>
       stack \<noteq> [] \<and> (\<forall>(t, c, ix) \<in> set stack. ix \<noteq> 2))"
  have exec: "\<exists>i b. ExecuteQuery drv o' t cb ix = Inr (b, o'\<lparr>clock := clock o' + 1\<rparr>,
      [Exec i (Some t), CallBack (rc \<noteq> SQL_SUCCESS) i (Some cb)])"
    if "length (hstmt o') = 2" "\<not> all_busy o'" "ix \<noteq> 2" for o' :: odbc and t cb ix
    using that drv by (auto simp: ExecuteQuery_def Let_def all_busy_def)
  have False if "run_queries drv cbs o' evs stack = Some y" for y
  proof -
    have "?P drv cbs o' evs stack y"
    proof (rule run_queries.raw_induct [of ?P, OF _ that], rule notI, elim conjE)
      fix run drv' cbs' o' evs y and stack :: "(string \<times> sql_callback \<times> nat) list"
      assume ih: "\<And>drv' cbs' o' evs stack y. run drv' cbs' o' evs stack = Some y \<Longrightarrow> ?P drv' cbs' o' evs stack y"
        and body: "(case stack of
          [] \<Rightarrow> Some (Inr (o', evs))
        | (sql_text, callback, use_index) # stack \<Rightarrow>
            (case ExecuteQuery drv' o' sql_text callback use_index of
               Inl e \<Rightarrow> Some (Inl e)
             | Inr (r, o', evs') \<Rightarrow>
                 run drv' cbs' o' (evs @ evs') (callback_queries cbs' evs' @ stack))) =
          Some (y :: (odbc \<times> sql_event list) res)"
        and st: "drv' = drv" "cbs' = cbs" "length (hstmt o') = 2" "\<not> all_busy o'" "stack \<noteq> []"
          "\<forall>(t, c, ix) \<in> set stack. ix \<noteq> 2"
      obtain t cb ix rest where stack: "stack = (t, cb, ix) # rest" "ix \<noteq> 2"
        using st(5,6) by (cases stack) auto
      obtain i b where "ExecuteQuery drv o' t cb ix = Inr (b, o'\<lparr>clock := clock o' + 1\<rparr>,
          [Exec i (Some t), CallBack (rc \<noteq> SQL_SUCCESS) i (Some cb)])"
        using exec [OF st(3,4) stack(2)] by blast
      with body stack(1) st(1,2) have "run drv cbs (o'\<lparr>clock := clock o' + 1\<rparr>)
          (evs @ [Exec i (Some t), CallBack (rc \<noteq> SQL_SUCCESS) i (Some cb)])
          (callback_queries cbs [Exec i (Some t), CallBack (rc \<noteq> SQL_SUCCESS) i (Some cb)] @ rest) = Some y"
        by simp
      from ih [OF this] st(3-6) stack again [of i "Some cb"] show False by auto
    qed
    then show False using start by blast
  qed
  then show ?thesis by (cases "run_queries drv cbs o' evs stack") auto
qed

section \<open>Properties\<close>

text \<open>C33: \<open>Doing\<close> returns and does not fault, whatever the driver answers, also when callbacks issue further
  queries while they are called, provided no callback issues itself again through a chain of queries:
  afterwards no query waits, or both statement handles are busy.\<close>

theorem Doing_callbacks_total:
  assumes "length (hstmt o') = 2" and "list_inv (callback_list o')" and "wf (callback_order cbs)"
  shows "\<exists>o1 evs. Doing_callbacks drv cbs o' = Some (Inr (o1, evs)) \<and> length (hstmt o1) = 2 \<and>
    list_inv (callback_list o1) \<and>
    (GetCount (callback_list o1) = 0 \<or> list_all doing (hstmt o1))"
proof -
  have "odbc_inv o'" using assms(1,2) by (simp add: odbc_inv_def)
  from handles_callbacks_end [OF assms(3) this, of drv "[]" "[0..<length (hstmt o')]"] obtain o2 evs2 where
    h: "handles_callbacks drv cbs o' [] [0..<length (hstmt o')] = Some (Inr (o2, evs2))" "odbc_inv o2" by blast
  from loop_callbacks_end [OF assms(3) h(2), of drv evs2] obtain o1 evs where
    r: "loop_callbacks drv cbs o2 evs2 = Some (Inr (o1, evs))" "odbc_inv o1"
    "GetCount (callback_list o1) = 0 \<or> all_busy o1" by blast
  have "list_all doing (hstmt o1)" if "all_busy o1"
    using that r(2) by (auto simp: odbc_inv_def all_busy_doing numeral_2_eq_2 length_Suc_conv)
  then show ?thesis using h(1) r by (auto simp: Doing_callbacks_def odbc_inv_def)
qed

text \<open>With callbacks that query nothing it is \<open>Doing\<close> of \<open>HS_Odbc\<close>.\<close>

theorem Doing_callbacks_quiet:
  assumes "length (hstmt o') = 2" and "list_inv (callback_list o')"
  shows "Doing_callbacks drv (\<lambda>err i c. []) o' = Doing drv o'"
proof -
  obtain o1 evs1 where d: "Doing_handles drv o' [0..<length (hstmt o')] = (o1, evs1)"
    by (cases "Doing_handles drv o' [0..<length (hstmt o')]")
  have "odbc_inv o1" using Doing_handles_keeps [OF d] assms by (simp add: odbc_inv_def)
  with d show ?thesis
    by (simp add: Doing_callbacks_def Doing_def handles_callbacks_quiet loop_callbacks_quiet)
qed

text \<open>When the driver always answers at once, and the callback of a query always issues another (a
  statement that fails is tried again, say), \<open>Doing\<close> does not return: the calls nest without bound.\<close>

theorem Doing_callbacks_never_returns:
  assumes "length (hstmt o') = 2" and "list_inv (callback_list o')" and "\<not> list_ex doing (hstmt o')"
    and "GetCount (callback_list o') \<noteq> 0"
    and "\<And>k i t. drv k i t = rc" "rc \<noteq> SQL_STILL_EXECUTING" and "\<And>i c. cbs (rc \<noteq> SQL_SUCCESS) i c \<noteq> []"
  shows "Doing_callbacks drv cbs o' = None"
proof -
  have idle: "\<not> doing (hstmt o' ! 0)" "\<not> doing (hstmt o' ! 1)"
    using assms(1,3) by (auto simp: numeral_2_eq_2 length_Suc_conv)
  then have "handles_callbacks drv cbs o' [] [0..<length (hstmt o')] = Some (Inr (o', []))"
    using assms(1) by (simp add: upt_rec Doing_handle_def)
  moreover have nb: "\<not> all_busy o'" "GetCanUseHandleIndex o' < 2"
    using idle all_busy_doing [OF assms(1)] by (simp_all add: all_busy_def)
  obtain qc where qc: "head_value (callback_list o') = Some qc"
    using hs_queue.front_None [OF assms(2)] assms(4)
    by (cases "head_value (callback_list o')") (simp_all add: GetCount_def)
  have "run_queries drv cbs o' [] [(q_statement qc, q_callback qc, GetCanUseHandleIndex o')] = None"
    by (rule run_queries_never [where drv = drv and rc = rc and cbs = cbs])
      (use assms(1,5-7) nb in simp_all)
  then have "loop_callbacks drv cbs o' [] = None"
    using assms(1,4) nb(2) hs_queue.get_head_ok [OF assms(2)] qc by (subst loop_callbacks.simps) simp
  ultimately show ?thesis by (simp add: Doing_callbacks_def)
qed

text \<open>The callback of a finished statement is called with pointers into the object that its handle
  keeps. When it issues a query that does not finish at once, that query takes the same handle and its
  callback replaces the object while the first one is still being called.\<close>

theorem callback_object_is_replaced:
  assumes "hstmt o' = [\<lparr>doing = True, handle_callback = Some cb\<rparr>, h]" and "\<not> doing h"
    and "GetCount (callback_list o') = 0"
    and "\<And>k i. drv k i None = SQL_SUCCESS" and "\<And>k i t. drv k i (Some t) = SQL_STILL_EXECUTING"
    and "cbs False 0 (Some cb) = [(t, cb')]"
  shows "\<exists>o1. Doing_callbacks drv cbs o' =
      Some (Inr (o1, [Exec 0 None, CallBack False 0 (Some cb), Exec 0 (Some t)])) \<and>
    GetCallback o1 0 = Some cb' \<and> GetDoing o1 0"
proof -
  let ?o = "SetDoing (o'\<lparr>clock := clock o' + 1\<rparr>) 0 False"
  let ?o1 = "SetCallback (SetDoing (?o\<lparr>clock := clock ?o + 1\<rparr>) 0 True) 0 cb'"
  have "Doing_handle drv o' 0 = (?o, [Exec 0 None, CallBack False 0 (Some cb)])"
    using assms(1,4) by (simp add: Doing_handle_def Let_def SetDoing_def)
  moreover have "ExecuteQuery drv ?o t cb' (2 ^ 32 - 1) = Inr (False, ?o1, [Exec 0 (Some t)])"
    using assms(1,5) by (simp add: ExecuteQuery_def Let_def SetDoing_def GetCanUseHandleIndex_def)
  from run_queries_Cons [OF this, where stack = "[]"]
  have "run_queries drv cbs ?o evs [(t, cb', 2 ^ 32 - 1)] = Some (Inr (?o1, evs @ [Exec 0 (Some t)]))" for evs
    by simp
  moreover have "Doing_handle drv ?o1 (Suc 0) = (?o1, [])"
    using assms(1,2) by (simp add: Doing_handle_def SetDoing_def SetCallback_def)
  ultimately have "handles_callbacks drv cbs o' [] [0..<length (hstmt o')] =
      Some (Inr (?o1, [Exec 0 None, CallBack False 0 (Some cb), Exec 0 (Some t)]))"
    using assms(1,6) by (simp add: upt_rec)
  moreover have "loop_callbacks drv cbs ?o1 evs = Some (Inr (?o1, evs))" for evs
    using assms(3) by (subst loop_callbacks.simps) (simp add: SetDoing_def SetCallback_def)
  ultimately show ?thesis
    using assms(1)
    by (intro exI [of _ ?o1])
      (simp add: Doing_callbacks_def GetCallback_def GetDoing_def SetCallback_def SetDoing_def)
qed

section \<open>Witnesses\<close>

text \<open>A client that tries a failed statement once more, with the callback numbered 0, which gives up.\<close>

definition ex_retry :: sql_client where
  "ex_retry err i c =
     (case c of
        None \<Rightarrow> []
      | Some cb \<Rightarrow> if err \<and> cb_function cb \<noteq> 0 then [(''select'', cb\<lparr>cb_function := 0\<rparr>)] else [])"

lemma ex_retry_order: "wf (callback_order ex_retry)"
  by (rule wf_subset [OF wf_measure [of "\<lambda>cb. cb_function cb"]])
    (auto simp: callback_order_def ex_retry_def split: if_splits)

theorem Doing_callbacks_total_witness:
  "\<exists>l o1 evs. push_all PushValue HSList_new [ex_query 1] = Inr l \<and>
     Doing_callbacks (\<lambda>k i t. SQL_ERROR) ex_retry (HSODBC_new\<lparr>callback_list := l\<rparr>) = Some (Inr (o1, evs)) \<and>
     length (hstmt o1) = 2"
proof -
  obtain l where l: "push_all PushValue HSList_new [ex_query 1] = Inr l" "list_inv l"
    using hs_queue.push_all_result [OF list_inv_new, of "[ex_query 1]"] by blast
  from Doing_callbacks_total [OF _ _ ex_retry_order, of "HSODBC_new\<lparr>callback_list := l\<rparr>" "\<lambda>k i t. SQL_ERROR"] l
  show ?thesis by (auto simp: HSODBC_new_def)
qed

end
