(* ===== verification/HS_OdbcDriver.thy ===== *)
theory HS_OdbcDriver
  imports HS_Odbc
begin

text \<open>
  \<open>hs_odbc.h\<close> and \<open>hs_odbc.cpp\<close>: opening and closing the connection, and reading a result. The answers of the
  ODBC driver are arguments: the handles that it allocates, the return codes, the values it stores. The
  calls of the driver are a list, with the handles they pass; \<open>None\<close> is \<open>SQL_NULL_HANDLE\<close>. The
  diagnostics of a failed connect are a call, their text is only printed.
\<close>

section \<open>Connecting\<close>

type_synonym sql_handle = "nat option"

datatype driver_call =
    AllocEnv
  | SetOdbcVersion3 sql_handle
  | AllocDbc sql_handle
  | SetLoginTimeout sql_handle nat
  | SqlConnect sql_handle string string string
  | GetDiagDbc sql_handle
  | AllocStmt sql_handle
  | SetAsync sql_handle
  | CloseStmt sql_handle
  | FreeDbc sql_handle
  | FreeEnv sql_handle
  | SqlDisconnect sql_handle

record odbc_conn =
  henv :: sql_handle
  hdbc :: sql_handle
  stmt_handles :: "sql_handle list"

record driver_answers =
  new_env :: sql_handle
  new_dbc :: sql_handle
  connect_code :: sql_return
  new_stmt :: "nat \<Rightarrow> sql_handle"
  async_code :: "nat \<Rightarrow> sql_return"

definition LOGIN_TIMEOUT :: nat where "LOGIN_TIMEOUT = 30"

definition odbc_conn_new :: odbc_conn where
  "odbc_conn_new = \<lparr>henv = None, hdbc = None, stmt_handles = replicate 2 None\<rparr>"

fun alloc_stmts :: "driver_answers \<Rightarrow> odbc_conn \<Rightarrow> nat list \<Rightarrow> bool \<times> odbc_conn \<times> driver_call list" where
  "alloc_stmts d o' [] = (True, o', [])"
| "alloc_stmts d o' (i # is) =
     (let o' = o'\<lparr>stmt_handles := (stmt_handles o')[i := new_stmt d i]\<rparr>;
          calls = [AllocStmt (hdbc o'), SetAsync (stmt_handles o' ! i)] in
      if async_code d i \<noteq> SQL_SUCCESS \<and> async_code d i \<noteq> SQL_SUCCESS_WITH_INFO then (False, o', calls)
      else (case alloc_stmts d o' is of (r, o', calls') \<Rightarrow> (r, o', calls @ calls')))"

definition odbc_Connect ::
  "driver_answers \<Rightarrow> odbc_conn \<Rightarrow> string \<Rightarrow> string \<Rightarrow> string \<Rightarrow> bool \<times> odbc_conn \<times> driver_call list" where
  "odbc_Connect d o' server_name user_name password =
     (let o' = o'\<lparr>henv := new_env d\<rparr>;
          o' = o'\<lparr>hdbc := new_dbc d\<rparr>;
          calls = [AllocEnv, SetOdbcVersion3 (henv o'), AllocDbc (henv o'), SetLoginTimeout (hdbc o') LOGIN_TIMEOUT,
            SqlConnect (hdbc o') server_name user_name password];
          retcode = connect_code d in
      if retcode = SQL_SUCCESS then
        (case alloc_stmts d o' [0..<length (stmt_handles o')] of (r, o', calls') \<Rightarrow> (r, o', calls @ calls'))
      else if retcode = SQL_SUCCESS_WITH_INFO then
        (case alloc_stmts d o' [0..<length (stmt_handles o')] of (r, o', calls') \<Rightarrow>
           (r, o', calls @ GetDiagDbc (hdbc o') # calls'))
      else (False, o', calls @ [GetDiagDbc (hdbc o')]))"

definition odbc_Disconnect :: "odbc_conn \<Rightarrow> driver_call list" where
  "odbc_Disconnect o' =
     map CloseStmt (stmt_handles o') @ [FreeDbc (hdbc o'), FreeEnv (henv o'), SqlDisconnect (hdbc o')]"

section \<open>Reading a result\<close>

text \<open>The accessors of \<open>DataHandle\<close>; the driver answers with its code and the value it stores.\<close>

datatype sql_c_type = SQL_C_CHAR | SQL_C_SHORT | SQL_C_DOUBLE | SQL_C_FLOAT | SQL_C_LONG

type_synonym 'v get_data = "sql_handle \<Rightarrow> 16 word \<Rightarrow> sql_c_type \<Rightarrow> size_t \<Rightarrow> sql_return \<times> 'v"

definition GetRowCount :: "(sql_handle \<Rightarrow> sql_return \<times> int) \<Rightarrow> sql_handle \<Rightarrow> size_t \<Rightarrow> bool \<times> size_t" where
  "GetRowCount sql_row_count h count =
     (case sql_row_count h of (code, c) \<Rightarrow> if code = SQL_SUCCESS then (True, of_int c) else (False, count))"

definition odbc_Fetch :: "(sql_handle \<Rightarrow> sql_return) \<Rightarrow> sql_handle \<Rightarrow> bool" where
  "odbc_Fetch sql_fetch h \<longleftrightarrow> sql_fetch h = SQL_SUCCESS"

definition GetDataString :: "string get_data \<Rightarrow> sql_handle \<Rightarrow> 16 word \<Rightarrow> size_t \<Rightarrow> bool \<times> string" where
  "GetDataString get h column len =
     (case get h column SQL_C_CHAR len of (code, v) \<Rightarrow> (code = SQL_SUCCESS, v))"

definition GetDataShort :: "16 word get_data \<Rightarrow> sql_handle \<Rightarrow> 16 word \<Rightarrow> bool \<times> 16 word" where
  "GetDataShort get h column =
     (case get h column SQL_C_SHORT 0 of (code, v) \<Rightarrow> (code = SQL_SUCCESS, v))"

definition GetDataDouble :: "'real get_data \<Rightarrow> sql_handle \<Rightarrow> 16 word \<Rightarrow> bool \<times> 'real" where
  "GetDataDouble get h column =
     (case get h column SQL_C_DOUBLE 0 of (code, v) \<Rightarrow> (code = SQL_SUCCESS, v))"

definition GetDataFloat :: "'real get_data \<Rightarrow> sql_handle \<Rightarrow> 16 word \<Rightarrow> bool \<times> 'real" where
  "GetDataFloat get h column =
     (case get h column SQL_C_FLOAT 0 of (code, v) \<Rightarrow> (code = SQL_SUCCESS, v))"

definition GetDataLong :: "32 word get_data \<Rightarrow> sql_handle \<Rightarrow> 16 word \<Rightarrow> bool \<times> 32 word" where
  "GetDataLong get h column =
     (case get h column SQL_C_LONG 0 of (code, v) \<Rightarrow> (code = SQL_SUCCESS, v))"

section \<open>The handles of a connection\<close>

text \<open>Which handles a list of calls frees, and whether it uses one after it was freed.\<close>

fun frees :: "driver_call \<Rightarrow> sql_handle list" where
  "frees (FreeDbc h) = [h]"
| "frees (FreeEnv h) = [h]"
| "frees _ = []"

fun uses :: "driver_call \<Rightarrow> sql_handle list" where
  "uses AllocEnv = []"
| "uses (SetOdbcVersion3 h) = [h]"
| "uses (AllocDbc h) = [h]"
| "uses (SetLoginTimeout h t) = [h]"
| "uses (SqlConnect h s u p) = [h]"
| "uses (GetDiagDbc h) = [h]"
| "uses (AllocStmt h) = [h]"
| "uses (SetAsync h) = [h]"
| "uses (CloseStmt h) = [h]"
| "uses (FreeDbc h) = [h]"
| "uses (FreeEnv h) = [h]"
| "uses (SqlDisconnect h) = [h]"

fun used_after_free :: "sql_handle list \<Rightarrow> driver_call list \<Rightarrow> bool" where
  "used_after_free freed [] \<longleftrightarrow> False"
| "used_after_free freed (c # cs) \<longleftrightarrow>
     set (uses c) \<inter> set freed \<noteq> {} \<or> used_after_free (frees c @ freed) cs"

lemma used_after_free_append:
  "used_after_free freed (cs @ ds) \<longleftrightarrow>
     used_after_free freed cs \<or> used_after_free (concat (map frees (rev cs)) @ freed) ds"
  by (induction cs arbitrary: freed) auto

lemma alloc_stmts_calls:
  "alloc_stmts d o' is = (r, o1, calls) \<Longrightarrow>
   henv o1 = henv o' \<and> hdbc o1 = hdbc o' \<and> length (stmt_handles o1) = length (stmt_handles o') \<and>
   concat (map frees calls) = [] \<and> (r \<longleftrightarrow> (\<forall>i\<in>set is. async_code d i \<in> {SQL_SUCCESS, SQL_SUCCESS_WITH_INFO}))"
proof (induction "is" arbitrary: o' r o1 calls)
  case (Cons i "is")
  obtain o2 where o2: "o2 = o'\<lparr>stmt_handles := (stmt_handles o')[i := new_stmt d i]\<rparr>" by simp
  obtain r1 o3 calls1 where rest: "alloc_stmts d o2 is = (r1, o3, calls1)" by (cases "alloc_stmts d o2 is") auto
  from Cons.IH [OF rest] Cons.prems rest o2 show ?case
    by (auto simp: Let_def split: if_splits)
qed simp

text \<open>What \<open>Connect\<close> answers, and that it never gives a handle back.\<close>

theorem odbc_Connect_result:
  assumes "length (stmt_handles o') = 2" and "odbc_Connect d o' s u p = (r, o1, calls)"
  shows "(r \<longleftrightarrow> connect_code d \<in> {SQL_SUCCESS, SQL_SUCCESS_WITH_INFO} \<and>
      async_code d 0 \<in> {SQL_SUCCESS, SQL_SUCCESS_WITH_INFO} \<and> async_code d 1 \<in> {SQL_SUCCESS, SQL_SUCCESS_WITH_INFO}) \<and>
    henv o1 = new_env d \<and> hdbc o1 = new_dbc d \<and> concat (map frees calls) = []"
proof -
  let ?o = "o'\<lparr>henv := new_env d, hdbc := new_dbc d\<rparr>"
  obtain r2 o2 calls2 where a: "alloc_stmts d ?o [0..<2] = (r2, o2, calls2)"
    by (cases "alloc_stmts d ?o [0..<2]") auto
  have "[0..<2] = [0, 1 :: nat]" by (simp add: upt_rec)
  with alloc_stmts_calls [OF a]
  have "r2 \<longleftrightarrow> async_code d 0 \<in> {SQL_SUCCESS, SQL_SUCCESS_WITH_INFO} \<and> async_code d 1 \<in> {SQL_SUCCESS, SQL_SUCCESS_WITH_INFO}"
    "henv o2 = new_env d" "hdbc o2 = new_dbc d" "concat (map frees calls2) = []"
    by (simp_all only: set_simps ball_simps) auto
  then show ?thesis
    using assms a by (auto simp: odbc_Connect_def Let_def split: if_splits prod.splits)
qed

text \<open>\<open>Disconnect\<close> frees the connection before it disconnects it.\<close>

theorem odbc_Disconnect_uses_freed: "used_after_free [] (odbc_Disconnect o')"
  by (simp add: odbc_Disconnect_def used_after_free_append)

theorem odbc_Connect_result_witness:
  "\<exists>r o1 calls. odbc_Connect \<lparr>new_env = Some 1, new_dbc = Some 2, connect_code = SQL_ERROR, new_stmt = (\<lambda>i. None),
      async_code = (\<lambda>i. SQL_SUCCESS)\<rparr> odbc_conn_new ''s'' ''u'' ''p'' = (r, o1, calls) \<and> \<not> r \<and> hdbc o1 = Some 2"
proof -
  let ?d = "\<lparr>new_env = Some 1, new_dbc = Some 2, connect_code = SQL_ERROR, new_stmt = (\<lambda>i. None), async_code = (\<lambda>i. SQL_SUCCESS)\<rparr>"
  obtain r o1 calls where c: "odbc_Connect ?d odbc_conn_new ''s'' ''u'' ''p'' = (r, o1, calls)"
    by (cases "odbc_Connect ?d odbc_conn_new ''s'' ''u'' ''p''") auto
  have "length (stmt_handles odbc_conn_new) = 2" by (simp add: odbc_conn_new_def)
  from odbc_Connect_result [OF this c] have "\<not> r" "hdbc o1 = Some 2" by simp_all
  with c show ?thesis by blast
qed

end
