(* ===== verification/HS_Geometry.thy ===== *)
theory HS_Geometry
  imports HS_Prelude Complex_Main
begin

text \<open>
  \<open>hs_2d.h\<close> and \<open>hs_2d.cpp\<close>: transformations of a point of the plane. A pointer to a vector is an option.
  \<open>float\<close> is modelled by the real numbers: rounding is left out, and a division by 0, whose \<open>float\<close> result
  is no real number, is the fault \<open>DivideByZero\<close>. \<open>PI\<close> is the code's constant.
\<close>

section \<open>The code\<close>

definition hs_PI :: real where "hs_PI = 3.14159"

record vector =
  vec_x :: real
  vec_y :: real

type_synonym vec_ptr = "vector option"

definition Translate :: "vec_ptr \<Rightarrow> real \<Rightarrow> real \<Rightarrow> bool \<times> vec_ptr" where
  "Translate p x y =
     (case p of None \<Rightarrow> (False, None)
      | Some v \<Rightarrow> (True, Some (v\<lparr>vec_x := vec_x v + x, vec_y := vec_y v + y\<rparr>)))"

definition Scale :: "vec_ptr \<Rightarrow> real \<Rightarrow> real \<Rightarrow> real \<Rightarrow> real \<Rightarrow> bool \<times> vec_ptr" where
  "Scale p xp yp sx sy =
     (case p of None \<Rightarrow> (False, None)
      | Some v \<Rightarrow>
          let v = v\<lparr>vec_x := vec_x v - xp, vec_y := vec_y v - yp\<rparr>;
              v = v\<lparr>vec_x := vec_x v * sx, vec_y := vec_y v * sy\<rparr>
          in (True, Some (v\<lparr>vec_x := vec_x v + xp, vec_y := vec_y v + yp\<rparr>)))"

text \<open>The second assignment reads the \<open>x\<close> that the first one wrote.\<close>

definition Rotate :: "vec_ptr \<Rightarrow> real \<Rightarrow> real \<Rightarrow> real \<Rightarrow> bool \<times> vec_ptr" where
  "Rotate p xp yp radian =
     (case p of None \<Rightarrow> (False, None)
      | Some v \<Rightarrow>
          let v = v\<lparr>vec_x := vec_x v - xp, vec_y := vec_y v - yp\<rparr>;
              v = v\<lparr>vec_x := vec_x v * cos radian - vec_y v * sin radian\<rparr>;
              v = v\<lparr>vec_y := vec_y v * cos radian + vec_x v * sin radian\<rparr>
          in (True, Some (v\<lparr>vec_x := vec_x v + xp, vec_y := vec_y v + yp\<rparr>)))"

definition Rotate2 :: "vec_ptr \<Rightarrow> real \<Rightarrow> real \<Rightarrow> real \<Rightarrow> bool \<times> vec_ptr" where
  "Rotate2 p xp yp angle = Rotate p xp yp (hs_PI * angle / 180)"

definition TranslateLocal :: "vec_ptr \<Rightarrow> real \<Rightarrow> real \<Rightarrow> bool \<times> vec_ptr" where
  "TranslateLocal p x y = Translate p x y"

definition ScaleLocal :: "vec_ptr \<Rightarrow> real \<Rightarrow> real \<Rightarrow> bool \<times> vec_ptr" where
  "ScaleLocal p sx sy = Scale p 0 0 sx sy"

definition RotateLocal :: "vec_ptr \<Rightarrow> real \<Rightarrow> bool \<times> vec_ptr" where
  "RotateLocal p radian = Rotate p 0 0 radian"

definition RotateLocal2 :: "vec_ptr \<Rightarrow> real \<Rightarrow> bool \<times> vec_ptr" where
  "RotateLocal2 p angle = Rotate2 p 0 0 angle"

definition Local2World :: "vec_ptr \<Rightarrow> real \<Rightarrow> real \<Rightarrow> real \<Rightarrow> real \<Rightarrow> real \<Rightarrow> bool \<times> vec_ptr" where
  "Local2World p x y radian sx sy =
     (let (r, p) = RotateLocal p radian in
      if \<not> r then (False, p)
      else let (r, p) = ScaleLocal p sx sy in
      if \<not> r then (False, p) else Translate p x y)"

definition Local2World2 :: "vec_ptr \<Rightarrow> real \<Rightarrow> real \<Rightarrow> real \<Rightarrow> real \<Rightarrow> real \<Rightarrow> bool \<times> vec_ptr" where
  "Local2World2 p x y angle sx sy =
     (let (r, p) = RotateLocal2 p angle in
      if \<not> r then (False, p)
      else let (r, p) = ScaleLocal p sx sy in
      if \<not> r then (False, p) else Translate p x y)"

definition World2Local :: "vec_ptr \<Rightarrow> real \<Rightarrow> real \<Rightarrow> real \<Rightarrow> real \<Rightarrow> real \<Rightarrow> (bool \<times> vec_ptr) res" where
  "World2Local p x y radian sx sy =
     (let (r, p) = Translate p (- x) (- y) in
      if \<not> r then Inr (False, p)
      else let (r, p) = RotateLocal p (- radian) in
      if \<not> r then Inr (False, p)
      else if sx = 0 \<or> sy = 0 then Inl DivideByZero else Inr (ScaleLocal p (1 / sx) (1 / sy)))"

text \<open>The angle goes to \<open>RotateLocal\<close>, which takes radians.\<close>

definition World2Local2 :: "vec_ptr \<Rightarrow> real \<Rightarrow> real \<Rightarrow> real \<Rightarrow> real \<Rightarrow> real \<Rightarrow> (bool \<times> vec_ptr) res" where
  "World2Local2 p x y angle sx sy =
     (let (r, p) = Translate p (- x) (- y) in
      if \<not> r then Inr (False, p)
      else let (r, p) = RotateLocal p (- angle) in
      if \<not> r then Inr (False, p)
      else if sx = 0 \<or> sy = 0 then Inl DivideByZero else Inr (ScaleLocal p (1 / sx) (1 / sy)))"

definition World2Camera :: "vec_ptr \<Rightarrow> real \<Rightarrow> real \<Rightarrow> real \<Rightarrow> vec_ptr" where
  "World2Camera p x y rotate_radian = snd (RotateLocal (snd (Translate p (- x) (- y))) (- rotate_radian))"

definition World2Camera2 :: "vec_ptr \<Rightarrow> real \<Rightarrow> real \<Rightarrow> real \<Rightarrow> vec_ptr" where
  "World2Camera2 p x y rotate_angle = snd (RotateLocal2 (snd (Translate p (- x) (- y))) (- rotate_angle))"

definition Perspective :: "vec_ptr \<Rightarrow> real \<Rightarrow> real \<Rightarrow> real \<Rightarrow> vec_ptr res" where
  "Perspective p fov aspect view_distance =
     (if tan (fov / 2) = 0 then Inl DivideByZero
      else case p of None \<Rightarrow> Inl NullDeref
      | Some v \<Rightarrow>
          let r = 1 / tan (fov / 2) in
          if view_distance = 0 \<or> aspect = 0 then Inl DivideByZero
          else Inr (Some (v\<lparr>vec_x := vec_x v * r / view_distance, vec_y := vec_y v * r / view_distance / aspect\<rparr>)))"

definition Viewport :: "vec_ptr \<Rightarrow> int \<Rightarrow> int \<Rightarrow> int \<Rightarrow> int \<Rightarrow> vec_ptr res" where
  "Viewport p x y width height =
     (case p of None \<Rightarrow> Inl NullDeref
      | Some v \<Rightarrow>
          let v = v\<lparr>vec_x := (vec_x v - (- 1)) * (of_int width / (1 - (- 1)))\<rparr> in
          if width = 0 then Inl DivideByZero
          else let aspect = of_int height / of_int width in
          if aspect - (- aspect) = 0 then Inl DivideByZero
          else let v = v\<lparr>vec_y := (vec_y v * aspect - (- aspect)) * (of_int height / (aspect - (- aspect)))\<rparr> in
          Inr (Some (v\<lparr>vec_x := vec_x v + of_int x, vec_y := vec_y v + of_int y\<rparr>)))"

section \<open>Reference definitions\<close>

abbreviation vec :: "real \<Rightarrow> real \<Rightarrow> vector" where
  "vec x y \<equiv> \<lparr>vec_x = x, vec_y = y\<rparr>"

text \<open>The rotation of the plane around a point.\<close>

definition rotation :: "real \<Rightarrow> real \<Rightarrow> real \<Rightarrow> vector \<Rightarrow> vector" where
  "rotation xp yp t v =
     vec (xp + (vec_x v - xp) * cos t - (vec_y v - yp) * sin t) (yp + (vec_x v - xp) * sin t + (vec_y v - yp) * cos t)"

lemma Rotate_value:
  "Rotate (Some (vec x y)) xp yp t =
     (True, Some (vec (xp + (x - xp) * cos t - (y - yp) * sin t)
       (yp + (y - yp) * cos t + ((x - xp) * cos t - (y - yp) * sin t) * sin t)))"
  by (simp add: Rotate_def Let_def)

lemma Translate_value: "Translate (Some (vec x y)) a b = (True, Some (vec (x + a) (y + b)))"
  by (simp add: Translate_def)

lemma Scale_value:
  "Scale (Some (vec x y)) xp yp sx sy = (True, Some (vec ((x - xp) * sx + xp) ((y - yp) * sy + yp)))"
  by (simp add: Scale_def Let_def)

lemmas geometry_values = Rotate_value Translate_value Scale_value RotateLocal_def ScaleLocal_def

section \<open>Properties\<close>

text \<open>C38: \<open>Rotate\<close> is the rotation of the plane exactly where its second assignment does not notice that
  the first has changed \<open>x\<close>: for angles without sine, and for the points whose \<open>x\<close> the rotation keeps.\<close>

theorem Rotate_is_rotation_iff:
  "snd (Rotate (Some v) xp yp t) = Some (rotation xp yp t v) \<longleftrightarrow>
     sin t = 0 \<or> vec_x (rotation xp yp t v) = vec_x v" (is "?l \<longleftrightarrow> ?r")
proof -
  obtain x y where v: "v = vec x y" by (cases v) auto
  let ?a = "x - xp" and ?b = "y - yp"
  have "?l \<longleftrightarrow> (?a * cos t - ?b * sin t) * sin t = ?a * sin t"
    by (simp add: v Rotate_value rotation_def)
  also have "\<dots> \<longleftrightarrow> sin t = 0 \<or> ?a * cos t - ?b * sin t = ?a" by simp
  also have "\<dots> \<longleftrightarrow> ?r" by (simp add: v rotation_def algebra_simps)
  finally show ?thesis .
qed

text \<open>What \<open>Rotate\<close> does instead. It is linear with determinant \<open>cos\<close> squared: it shrinks areas unless
  the sine is 0, and a quarter turn maps the whole plane onto a line.\<close>

theorem Rotate_shrinks_areas:
  assumes "Rotate (Some (vec x1 y1)) 0 0 t = (True, Some v1)" and "Rotate (Some (vec x2 y2)) 0 0 t = (True, Some v2)"
  shows "vec_x v1 * vec_y v2 - vec_x v2 * vec_y v1 = (cos t)\<^sup>2 * (x1 * y2 - x2 * y1) \<and>
    (cos t = 0 \<longrightarrow> vec_y v1 = sin t * vec_x v1)"
proof -
  have v1: "vec_x v1 = x1 * cos t - y1 * sin t" "vec_y v1 = y1 * cos t + (x1 * cos t - y1 * sin t) * sin t"
    using assms(1) by (auto simp: Rotate_value)
  have v2: "vec_x v2 = x2 * cos t - y2 * sin t" "vec_y v2 = y2 * cos t + (x2 * cos t - y2 * sin t) * sin t"
    using assms(2) by (auto simp: Rotate_value)
  show ?thesis by (simp add: v1 v2 power2_eq_square algebra_simps)
qed

text \<open>\<open>World2Local\<close> undoes \<open>Local2World\<close> for an object that is not turned.\<close>

theorem local_world_roundtrip:
  assumes "sx \<noteq> 0" "sy \<noteq> 0"
  shows "World2Local (snd (Local2World (Some v) x y 0 sx sy)) x y 0 sx sy = Inr (True, Some v)"
  using assms by (cases v) (simp add: World2Local_def Local2World_def geometry_values)

text \<open>A turned object is not placed in the world as its points say. Under a quarter turn the first
  coordinate of a point is lost: all points with the same second coordinate come to the same place, and
  no transformation back can separate them.\<close>

theorem quarter_turn_loses_point:
  "Local2World (Some (vec a b)) x y (pi / 2) sx sy = (True, Some (vec (x - b * sx) (y - b * sy))) \<and>
   World2Local (snd (Local2World (Some (vec a b)) x y (pi / 2) sx sy)) x y (pi / 2) sx sy =
   World2Local (snd (Local2World (Some (vec 0 b)) x y (pi / 2) sx sy)) x y (pi / 2) sx sy"
  by (simp add: Local2World_def geometry_values)


section \<open>Witnesses\<close>

theorem local_world_roundtrip_witness:
  "World2Local (snd (Local2World (Some (vec 3 4)) 10 20 0 2 5)) 10 20 0 2 5 = Inr (True, Some (vec 3 4))"
  using local_world_roundtrip [of 2 5 "vec 3 4" 10 20] by simp


end
