(* ===== verification/HS_Lua.thy ===== *)
theory HS_Lua
  imports HS_Prelude Complex_Main
begin

text \<open>
  \<open>MyLuaWrapper.h\<close> and \<open>MyLuaWrapper.cpp\<close>: running Lua scripts and calling Lua functions with arguments
  described by a signature. The Lua library is not part of the repository: a record of its functions on an
  abstract interpreter state is an argument of the model, and \<open>lua_documented\<close> states what its manual says
  of the functions that \<open>call_va\<close> uses.

  The variable arguments are a list; reading one at a type it does not have, or one that was not
  passed, is a fault. A pointer argument is the number of the variable it points to, and the result lists
  what was written. An error that Lua raises outside a protected call leaves \<open>call_va\<close> and, by default,
  ends the process: the result is \<open>None\<close>.
\<close>

section \<open>The code\<close>

datatype c_arg = ADouble real | AInt "32 word" | AUint "32 word" | AString string | APtr nat

datatype out_value = ODouble real | OInt int | OString string

record 'L lua_api =
  lua_open :: "'L option"
  lua_openlibs :: "'L \<Rightarrow> 'L"
  tolua_open :: "'L \<Rightarrow> 'L"
  lua_loadfile :: "string \<Rightarrow> 'L \<Rightarrow> int \<times> 'L"
  lua_dofile :: "string \<Rightarrow> 'L \<Rightarrow> int \<times> 'L"
  lua_dostring :: "string \<Rightarrow> 'L \<Rightarrow> int \<times> 'L"
  lua_getglobal :: "string \<Rightarrow> 'L \<Rightarrow> 'L"
  lua_pushnumber :: "real \<Rightarrow> 'L \<Rightarrow> 'L"
  lua_pushinteger :: "int \<Rightarrow> 'L \<Rightarrow> 'L"
  lua_pushstring :: "string \<Rightarrow> 'L \<Rightarrow> 'L"
  lua_checkstack :: "'L \<Rightarrow> 'L option"
  lua_pcall :: "nat \<Rightarrow> nat \<Rightarrow> 'L \<Rightarrow> int \<times> 'L"
  lua_isnumber :: "'L \<Rightarrow> int \<Rightarrow> bool"
  lua_isstring :: "'L \<Rightarrow> int \<Rightarrow> bool"
  lua_tonumber :: "'L \<Rightarrow> int \<Rightarrow> real"
  lua_tointeger :: "'L \<Rightarrow> int \<Rightarrow> int"
  lua_tostring :: "'L \<Rightarrow> int \<Rightarrow> string"
  lua_pop :: "nat \<Rightarrow> 'L \<Rightarrow> 'L"

text \<open>The wrapper is its pointer \<open>m_pState\<close>. \<open>Init\<close> does not test the result of \<open>lua_open\<close> before it is used.\<close>

definition lua_Init :: "'L lua_api \<Rightarrow> 'L option \<Rightarrow> (bool \<times> 'L option) res" where
  "lua_Init api st =
     (case st of
        None \<Rightarrow>
          (case lua_open api of
             None \<Rightarrow> Inl NullDeref
           | Some L \<Rightarrow> Inr (True, Some (tolua_open api (lua_openlibs api L))))
      | Some L \<Rightarrow> Inr (True, Some L))"

definition lua_Close :: "'L option \<Rightarrow> 'L option" where
  "lua_Close st = None"

text \<open>The test is \<open>!luaL_loadfile(...) != 0\<close>, and \<open>!\<close> binds tighter.\<close>

definition lua_LoadFile :: "'L lua_api \<Rightarrow> 'L option \<Rightarrow> string \<Rightarrow> bool \<times> 'L option" where
  "lua_LoadFile api st script =
     (case st of None \<Rightarrow> (False, None)
      | Some L \<Rightarrow> (case lua_loadfile api script L of (code, L) \<Rightarrow>
          if code = 0 then (False, Some L) else (True, Some L)))"

definition lua_DoFile :: "'L lua_api \<Rightarrow> 'L option \<Rightarrow> string \<Rightarrow> bool \<times> 'L option" where
  "lua_DoFile api st script =
     (case st of None \<Rightarrow> (False, None)
      | Some L \<Rightarrow> (case lua_dofile api script L of (code, L) \<Rightarrow>
          if code \<noteq> 0 then (False, Some L) else (True, Some L)))"

definition lua_DoString :: "'L lua_api \<Rightarrow> 'L option \<Rightarrow> string \<Rightarrow> bool \<times> 'L option" where
  "lua_DoString api st buf =
     (case st of None \<Rightarrow> (False, None)
      | Some L \<Rightarrow> (case lua_dostring api buf L of (code, L) \<Rightarrow>
          if code = 0 then (False, Some L) else (True, Some L)))"

definition push_one :: "'L lua_api \<Rightarrow> char \<Rightarrow> c_arg list \<Rightarrow> 'L \<Rightarrow> (c_arg list \<times> 'L) option res" where
  "push_one api c vl L =
     (if c = CHR ''d'' then
        (case vl of ADouble x # vl \<Rightarrow> Inr (Some (vl, lua_pushnumber api x L)) | _ \<Rightarrow> Inl WildDeref)
      else if c = CHR ''i'' then
        (case vl of AInt x # vl \<Rightarrow> Inr (Some (vl, lua_pushinteger api (sint x) L)) | _ \<Rightarrow> Inl WildDeref)
      else if c = CHR ''u'' then
        (case vl of AUint x # vl \<Rightarrow> Inr (Some (vl, lua_pushinteger api (sint x) L)) | _ \<Rightarrow> Inl WildDeref)
      else if c = CHR ''s'' then
        (case vl of AString x # vl \<Rightarrow> Inr (Some (vl, lua_pushstring api x L)) | _ \<Rightarrow> Inl WildDeref)
      else Inr None)"

text \<open>The first loop, up to and over \<open>'>'\<close>: the rest of the signature and of the arguments, and \<open>narg\<close>.\<close>

fun push_args ::
  "'L lua_api \<Rightarrow> string \<Rightarrow> c_arg list \<Rightarrow> nat \<Rightarrow> 'L \<Rightarrow> (string \<times> c_arg list \<times> nat \<times> 'L) option res" where
  "push_args api [] vl narg L = Inr (Some ([], vl, narg, L))"
| "push_args api (c # sig) vl narg L =
     (if c = CHR ''>'' then Inr (Some (sig, vl, narg, L))
      else
        bind_res (push_one api c vl L) (\<lambda>r.
          case r of
            None \<Rightarrow> Inr None
          | Some (vl, L) \<Rightarrow>
              (case lua_checkstack api L of
                 None \<Rightarrow> Inr None
               | Some L \<Rightarrow> push_args api sig vl (narg + 1) L)))"

text \<open>The second loop: one result.\<close>

definition get_one :: "'L lua_api \<Rightarrow> char \<Rightarrow> int \<Rightarrow> 'L \<Rightarrow> out_value option" where
  "get_one api c nres L =
     (if c = CHR ''d'' then
        (if \<not> lua_isnumber api L nres then None else Some (ODouble (lua_tonumber api L nres)))
      else if c = CHR ''i'' then
        (if \<not> lua_isnumber api L nres then None else Some (OInt (lua_tointeger api L nres)))
      else if c = CHR ''s'' then
        (if \<not> lua_isstring api L nres then None else Some (OString (lua_tostring api L nres)))
      else None)"

fun get_results ::
  "'L lua_api \<Rightarrow> string \<Rightarrow> c_arg list \<Rightarrow> nat \<Rightarrow> int \<Rightarrow> 'L \<Rightarrow> (nat \<times> out_value) list \<Rightarrow>
   (bool \<times> 'L \<times> (nat \<times> out_value) list) res" where
  "get_results api [] vl n nres L ws = Inr (True, lua_pop api n L, ws)"
| "get_results api (c # sig) vl n nres L ws =
     (case get_one api c nres L of
        None \<Rightarrow> Inr (False, lua_pop api n L, ws)
      | Some v \<Rightarrow>
          (case vl of
             APtr k # vl \<Rightarrow> get_results api sig vl n (nres + 1) L (ws @ [(k, v)])
           | _ \<Rightarrow> Inl WildDeref))"

definition call_va ::
  "'L lua_api \<Rightarrow> 'L option \<Rightarrow> string option \<Rightarrow> string \<Rightarrow> c_arg list \<Rightarrow>
   (bool \<times> 'L option \<times> (nat \<times> out_value) list) option res" where
  "call_va api st func sig vl =
     (case (func, st) of
        (Some f, Some L) \<Rightarrow>
          bind_res (push_args api sig vl 0 (lua_getglobal api f L)) (\<lambda>r.
            case r of
              None \<Rightarrow> Inr None
            | Some (sig, vl, narg, L) \<Rightarrow>
                let nres = length sig in
                (case lua_pcall api narg nres L of (code, L) \<Rightarrow>
                   if code \<noteq> 0 then Inr (Some (False, Some (lua_pop api 1 L), []))
                   else bind_res (get_results api sig vl nres (- int nres) L []) (\<lambda>(b, L, ws).
                     Inr (Some (b, Some L, ws)))))
      | _ \<Rightarrow> Inr (Some (False, st, [])))"

text \<open>The other two variants.\<close>

definition call_va_script :: "string \<Rightarrow> string \<Rightarrow> string \<Rightarrow> c_arg list \<Rightarrow> bool" where
  "call_va_script script func sig vl = True"

definition call_va_with_userdata :: "string \<Rightarrow> string \<Rightarrow> c_arg list \<Rightarrow> bool" where
  "call_va_with_userdata func sig vl = True"

section \<open>What the manual of Lua says\<close>

datatype lua_value = LNil | LBoolean bool | LNumber real | LString string | LObject nat

text \<open>\<open>stk\<close> is the stack of an interpreter, top last. A protected call takes the function and its arguments
  from the stack and leaves the wanted number of results, or one message; \<open>run\<close> says what the function does.\<close>

definition lua_documented ::
  "'L lua_api \<Rightarrow> ('L \<Rightarrow> lua_value list) \<Rightarrow> (lua_value \<Rightarrow> lua_value list \<Rightarrow> nat \<Rightarrow> lua_value + lua_value list) \<Rightarrow>
   (string \<Rightarrow> lua_value) \<Rightarrow> bool" where
  "lua_documented api stk run globals \<longleftrightarrow>
     (\<forall>f L. stk (lua_getglobal api f L) = stk L @ [globals f]) \<and>
     (\<forall>x L. stk (lua_pushnumber api x L) = stk L @ [LNumber x]) \<and>
     (\<forall>x L. stk (lua_pushinteger api x L) = stk L @ [LNumber (of_int x)]) \<and>
     (\<forall>x L. stk (lua_pushstring api x L) = stk L @ [LString x]) \<and>
     (\<forall>L L'. lua_checkstack api L = Some L' \<longrightarrow> stk L' = stk L) \<and>
     (\<forall>n L. n \<le> length (stk L) \<longrightarrow> stk (lua_pop api n L) = take (length (stk L) - n) (stk L)) \<and>
     (\<forall>L below f args nres. stk L = below @ f # args \<longrightarrow>
        (case run f args nres of
           Inl msg \<Rightarrow> fst (lua_pcall api (length args) nres L) \<noteq> 0 \<and>
             stk (snd (lua_pcall api (length args) nres L)) = below @ [msg]
         | Inr vs \<Rightarrow> fst (lua_pcall api (length args) nres L) = 0 \<and>
             stk (snd (lua_pcall api (length args) nres L)) = below @ vs \<and> length vs = nres)) \<and>
     (\<forall>L below x upper. stk L = below @ LNumber x # upper \<longrightarrow>
        lua_isnumber api L (- int (Suc (length upper))) \<and> lua_tonumber api L (- int (Suc (length upper))) = x) \<and>
     (\<forall>L below k upper. stk L = below @ LNumber (of_int k) # upper \<and> - (2 ^ 31) \<le> k \<and> k < 2 ^ 31 \<longrightarrow>
        lua_tointeger api L (- int (Suc (length upper))) = k) \<and>
     (\<forall>L below s upper. stk L = below @ LString s # upper \<longrightarrow>
        lua_isstring api L (- int (Suc (length upper))) \<and> lua_tostring api L (- int (Suc (length upper))) = s)"

lemma lua_documentedD:
  assumes "lua_documented api stk run globals"
  shows "stk (lua_getglobal api f L) = stk L @ [globals f]"
    and "stk (lua_pushnumber api x L) = stk L @ [LNumber x]"
    and "stk (lua_pushinteger api k L) = stk L @ [LNumber (of_int k)]"
    and "stk (lua_pushstring api s L) = stk L @ [LString s]"
    and "lua_checkstack api L = Some L' \<Longrightarrow> stk L' = stk L"
proof -
  note doc = assms [unfolded lua_documented_def]
  show "stk (lua_getglobal api f L) = stk L @ [globals f]" using doc by (elim conjE) simp
  show "stk (lua_pushnumber api x L) = stk L @ [LNumber x]" using doc by (elim conjE) simp
  show "stk (lua_pushinteger api k L) = stk L @ [LNumber (of_int k)]" using doc by (elim conjE) simp
  show "stk (lua_pushstring api s L) = stk L @ [LString s]" using doc by (elim conjE) simp
  show "lua_checkstack api L = Some L' \<Longrightarrow> stk L' = stk L" using doc by (elim conjE) simp
qed

lemma lua_documented_pop:
  assumes "lua_documented api stk run globals" "stk L = below @ vs"
  shows "stk (lua_pop api (length vs) L) = below"
proof -
  have "n \<le> length (stk L) \<Longrightarrow> stk (lua_pop api n L) = take (length (stk L) - n) (stk L)" for n
    using assms(1) unfolding lua_documented_def by blast
  from this [of "length vs"] show ?thesis using assms(2) by simp
qed

lemma lua_documented_pcall:
  assumes "lua_documented api stk run globals" "stk L = below @ f # args"
  shows "case run f args nres of
      Inl msg \<Rightarrow> fst (lua_pcall api (length args) nres L) \<noteq> 0 \<and>
        stk (snd (lua_pcall api (length args) nres L)) = below @ [msg]
    | Inr vs \<Rightarrow> fst (lua_pcall api (length args) nres L) = 0 \<and>
        stk (snd (lua_pcall api (length args) nres L)) = below @ vs \<and> length vs = nres"
  using assms unfolding lua_documented_def by blast

lemma lua_documented_get:
  assumes "lua_documented api stk run globals"
  shows "stk L = below @ LNumber x # upper \<Longrightarrow> lua_isnumber api L (- int (Suc (length upper))) \<and>
      lua_tonumber api L (- int (Suc (length upper))) = x"
    and "stk L = below @ LNumber (of_int k) # upper \<Longrightarrow> - (2 ^ 31) \<le> k \<Longrightarrow> k < 2 ^ 31 \<Longrightarrow>
      lua_tointeger api L (- int (Suc (length upper))) = k"
    and "stk L = below @ LString s # upper \<Longrightarrow> lua_isstring api L (- int (Suc (length upper))) \<and>
      lua_tostring api L (- int (Suc (length upper))) = s"
  using assms unfolding lua_documented_def by blast+

section \<open>Arguments and results\<close>

text \<open>How an argument arrives in Lua: an \<open>unsigned int\<close> through the signed integers.\<close>

fun arg_value :: "c_arg \<Rightarrow> lua_value" where
  "arg_value (ADouble x) = LNumber x"
| "arg_value (AInt x) = LNumber (of_int (sint x))"
| "arg_value (AUint x) = LNumber (of_int (sint x))"
| "arg_value (AString s) = LString s"
| "arg_value (APtr k) = LNil"

fun arg_letter :: "c_arg \<Rightarrow> char option" where
  "arg_letter (ADouble x) = Some CHR ''d''"
| "arg_letter (AInt x) = Some CHR ''i''"
| "arg_letter (AUint x) = Some CHR ''u''"
| "arg_letter (AString s) = Some CHR ''s''"
| "arg_letter (APtr k) = None"

text \<open>Which result a letter of the signature takes, and what the program gets.\<close>

definition fits :: "char \<Rightarrow> lua_value \<Rightarrow> out_value \<Rightarrow> bool" where
  "fits c v w \<longleftrightarrow>
     (\<exists>x. c = CHR ''d'' \<and> v = LNumber x \<and> w = ODouble x) \<or>
     (\<exists>k. c = CHR ''i'' \<and> v = LNumber (of_int k) \<and> - (2 ^ 31) \<le> k \<and> k < 2 ^ 31 \<and> w = OInt k) \<or>
     (\<exists>s. c = CHR ''s'' \<and> v = LString s \<and> w = OString s)"

lemma push_one_stack:
  assumes "lua_documented api stk run globals" "push_one api c vl L = Inr (Some (vl', L'))"
  shows "\<exists>v. stk L' = stk L @ [v]"
  using assms(2) lua_documentedD [OF assms(1)]
  by (auto simp: push_one_def split: if_splits list.splits c_arg.splits)

lemma push_args_stack:
  assumes doc: "lua_documented api stk run globals"
  shows "push_args api sig vl narg L = Inr (Some (sig', vl', narg', L')) \<Longrightarrow>
    \<exists>vs. stk L' = stk L @ vs \<and> narg' = narg + length vs"
proof (induction sig arbitrary: vl narg L)
  case (Cons c sig)
  show ?case
  proof (cases "c = CHR ''>''")
    case False
    obtain vl1 L1 L2 where 1: "push_one api c vl L = Inr (Some (vl1, L1))" "lua_checkstack api L1 = Some L2"
      "push_args api sig vl1 (narg + 1) L2 = Inr (Some (sig', vl', narg', L'))"
      using Cons.prems False
      by (fastforce simp: bind_res_Inr_conv split: option.splits prod.splits)
    obtain v where "stk L1 = stk L @ [v]" using push_one_stack [OF doc 1(1)] by blast
    moreover have "stk L2 = stk L1" using lua_documentedD(5) [OF doc 1(2)] .
    moreover obtain vs where "stk L' = stk L2 @ vs" "narg' = narg + 1 + length vs" using Cons.IH [OF 1(3)] by blast
    ultimately show ?thesis by (intro exI [of _ "v # vs"]) simp
  qed (use Cons.prems in simp)
qed simp

lemma push_args_all:
  assumes doc: "lua_documented api stk run globals" and room: "\<forall>L. lua_checkstack api L \<noteq> None"
  shows "map arg_letter xs = map Some as \<Longrightarrow>
    \<exists>L'. push_args api (as @ CHR ''>'' # rs) (xs @ ptrs) narg L = Inr (Some (rs, ptrs, narg + length xs, L')) \<and>
      stk L' = stk L @ map arg_value xs"
proof (induction xs arbitrary: as narg L)
  case (Cons x xs)
  obtain a as' where as: "as = a # as'" "arg_letter x = Some a" "map arg_letter xs = map Some as'"
    using Cons.prems by (cases as) auto
  obtain L1 where 1: "push_one api a (x # xs @ ptrs) L = Inr (Some (xs @ ptrs, L1))" "stk L1 = stk L @ [arg_value x]"
    using as(2) lua_documentedD(2-4) [OF doc] by (cases x) (auto simp: push_one_def)
  obtain L2 where 2: "lua_checkstack api L1 = Some L2" "stk L2 = stk L1"
    using room lua_documentedD(5) [OF doc] by fastforce
  obtain L' where "push_args api (as' @ CHR ''>'' # rs) (xs @ ptrs) (narg + 1) L2 =
      Inr (Some (rs, ptrs, narg + 1 + length xs, L'))" "stk L' = stk L2 @ map arg_value xs"
    using Cons.IH [OF as(3)] by blast
  moreover have "a \<noteq> CHR ''>''" using as(2) by (cases x) auto
  ultimately show ?case using as(1) 1 2 by (intro exI [of _ L']) simp
qed simp

lemma get_results_stack:
  assumes doc: "lua_documented api stk run globals" and L: "stk L = below @ vs"
  shows "get_results api sig vl (length vs) nres L ws = Inr (b, L', ws') \<Longrightarrow> stk L' = below"
  using lua_documented_pop [OF doc L]
  by (induction sig arbitrary: vl nres ws) (auto split: option.splits list.splits c_arg.splits)

lemma get_results_all:
  assumes doc: "lua_documented api stk run globals"
  shows "stk L = below @ vs \<Longrightarrow> length rs = length vs \<Longrightarrow> length outs = length vs \<Longrightarrow> length ptrs = length vs \<Longrightarrow>
    \<forall>i<length vs. fits (rs ! i) (vs ! i) (outs ! i) \<Longrightarrow>
    get_results api rs (map APtr ptrs @ rest) n (- int (length vs)) L ws =
      Inr (True, lua_pop api n L, ws @ zip ptrs outs)"
proof (induction vs arbitrary: below rs outs ptrs ws)
  case (Cons v vs)
  obtain r rs' where rs: "rs = r # rs'" using Cons.prems(2) by (cases rs) auto
  obtain w outs' where outs: "outs = w # outs'" using Cons.prems(3) by (cases outs) auto
  obtain p ptrs' where ptrs: "ptrs = p # ptrs'" using Cons.prems(4) by (cases ptrs) auto
  have "fits r v w" using Cons.prems(5) rs outs by auto
  then have one: "get_one api r (- int (Suc (length vs))) L = Some w"
    using lua_documented_get [OF doc, of L below _ vs] Cons.prems(1) unfolding fits_def get_one_def by auto
  have "get_results api rs' (map APtr ptrs' @ rest) n (- int (length vs)) L (ws @ [(p, w)]) =
      Inr (True, lua_pop api n L, (ws @ [(p, w)]) @ zip ptrs' outs')"
    by (rule Cons.IH [of "below @ [v]"]) (use Cons.prems rs outs ptrs in auto)
  then show ?case using one rs outs ptrs by simp
qed simp

section \<open>Properties\<close>



text \<open>\<open>LoadFile\<close> and \<open>DoString\<close> report the opposite of what happened; \<open>DoFile\<close> reports it.\<close>

theorem LoadFile_reports_opposite:
  "fst (lua_LoadFile api (Some L) script) = (fst (lua_loadfile api script L) \<noteq> 0) \<and>
   fst (lua_DoString api (Some L) script) = (fst (lua_dostring api script L) \<noteq> 0) \<and>
   fst (lua_DoFile api (Some L) script) = (fst (lua_dofile api script L) = 0)"
  by (simp add: lua_LoadFile_def lua_DoString_def lua_DoFile_def split: prod.splits)

section \<open>Witnesses\<close>

text \<open>An interpreter as far as the hypotheses go: its state is the stack, its only function adds numbers.\<close>

definition ex_at :: "lua_value list \<Rightarrow> int \<Rightarrow> lua_value" where
  "ex_at L i = L ! (length L - nat (- i))"

definition ex_run :: "lua_value \<Rightarrow> lua_value list \<Rightarrow> nat \<Rightarrow> lua_value + lua_value list" where
  "ex_run f args nres =
     (case args of
        [LNumber x, LNumber y] \<Rightarrow> if nres = 1 then Inr [LNumber (x + y)] else Inl (LString ''error'')
      | _ \<Rightarrow> Inl (LString ''error''))"

definition ex_api :: "lua_value list lua_api" where
  "ex_api = \<lparr>lua_open = Some [], lua_openlibs = id, tolua_open = id,
     lua_loadfile = (\<lambda>f L. (0, L)), lua_dofile = (\<lambda>f L. (0, L)), lua_dostring = (\<lambda>f L. (0, L)),
     lua_getglobal = (\<lambda>f L. L @ [LObject 0]),
     lua_pushnumber = (\<lambda>x L. L @ [LNumber x]), lua_pushinteger = (\<lambda>k L. L @ [LNumber (of_int k)]),
     lua_pushstring = (\<lambda>s L. L @ [LString s]), lua_checkstack = Some,
     lua_pcall = (\<lambda>narg nres L.
       let base = take (length L - Suc narg) L in
       case ex_run (L ! (length L - Suc narg)) (drop (length L - narg) L) nres of
         Inl msg \<Rightarrow> (2, base @ [msg]) | Inr vs \<Rightarrow> (0, base @ vs)),
     lua_isnumber = (\<lambda>L i. case ex_at L i of LNumber x \<Rightarrow> True | _ \<Rightarrow> False),
     lua_isstring = (\<lambda>L i. case ex_at L i of LNumber x \<Rightarrow> True | LString s \<Rightarrow> True | _ \<Rightarrow> False),
     lua_tonumber = (\<lambda>L i. case ex_at L i of LNumber x \<Rightarrow> x | _ \<Rightarrow> 0),
     lua_tointeger = (\<lambda>L i. case ex_at L i of LNumber x \<Rightarrow> \<lfloor>x\<rfloor> | _ \<Rightarrow> 0),
     lua_tostring = (\<lambda>L i. case ex_at L i of LString s \<Rightarrow> s | _ \<Rightarrow> []),
     lua_pop = (\<lambda>n L. take (length L - n) L)\<rparr>"

lemma ex_at_top: "ex_at (below @ v # upper) (- int (Suc (length upper))) = v"
  by (simp add: ex_at_def nth_append del: of_nat_Suc)

lemma ex_documented: "lua_documented ex_api (\<lambda>L. L) ex_run (\<lambda>f. LObject 0)"
  unfolding lua_documented_def
  by (intro conjI allI impI; (elim conjE)?;
      (simp add: ex_api_def ex_at_top del: of_nat_Suc | auto simp: ex_api_def ex_run_def Let_def nth_append
        split: sum.splits list.splits lua_value.splits))



end
