(* ===== verification/HS_Window.thy ===== *)
theory HS_Window
  imports HS_Prelude "HOL-Library.Signed_Division"
begin

text \<open>
  \<open>hs_window.h\<close>, \<open>hs_window.cpp\<close>, \<open>hs_wnd_evt_handler.h\<close>: a window on SDL with its event pump; and
  \<open>HSSystem.h\<close>, \<open>HSSystem.cpp\<close>: sleeping and the directory of the program. What SDL and Windows answer is
  an argument: the pointers that SDL hands out, the event that \<open>SDL_WaitEvent\<close> delivers, the name of the
  program file. The calls of SDL and of the event handler are values. The clock is left out: \<open>Run\<close> computes
  a time from it that \<open>DoEvent\<close> does not use.
\<close>

section \<open>The window\<close>

datatype sdl_event =
    SDL_KEYDOWN "32 word" "8 word"
  | SDL_KEYUP "32 word" "8 word"
  | SDL_MOUSEMOTION int int int int
  | SDL_MOUSEBUTTONDOWN "8 word" int int
  | SDL_MOUSEBUTTONUP "8 word" int int
  | SDL_MOUSEWHEEL int int
  | SDL_QUIT
  | SDL_OTHER nat

text \<open>The calls of \<open>HSWindowEventHandler\<close>; a key is a \<open>char\<close>.\<close>

datatype handler_call =
    OnKeyDown "8 word" "8 word"
  | OnKeyUp "8 word" "8 word"
  | OnMouseMotion int int int int
  | OnMouseButtonDown "8 word" int int
  | OnMouseButtonUp "8 word" int int
  | OnMouseWheel int int

record hs_window =
  wnd :: "nat option"
  renderer :: "nat option"
  wnd_event :: "sdl_event option"
  wnd_quit :: bool

definition HSWindow_new :: hs_window where
  "HSWindow_new = \<lparr>wnd = None, renderer = None, wnd_event = None, wnd_quit = False\<rparr>"

definition wnd_Create :: "nat option \<Rightarrow> nat option \<Rightarrow> hs_window \<Rightarrow> bool \<times> hs_window" where
  "wnd_Create new_window new_renderer w =
     (let w = w\<lparr>wnd := new_window\<rparr> in
      if wnd w = None then (False, w) else (True, w\<lparr>renderer := new_renderer\<rparr>))"

definition wnd_Quit :: "hs_window \<Rightarrow> hs_window" where
  "wnd_Quit w = w\<lparr>wnd_quit := True\<rparr>"

definition IsRun :: "hs_window \<Rightarrow> bool" where
  "IsRun w \<longleftrightarrow> \<not> wnd_quit w"

text \<open>\<open>next\<close> is the event that \<open>SDL_WaitEvent\<close> would deliver; the last component says whether it was taken.\<close>

definition DoEvent :: "bool \<Rightarrow> sdl_event \<Rightarrow> hs_window \<Rightarrow> handler_call list \<times> hs_window \<times> bool" where
  "DoEvent handler ev w =
     (if \<not> handler then ([], w, False)
      else if \<not> wnd_quit w then
        let w = w\<lparr>wnd_event := Some ev\<rparr> in
        (case ev of
           SDL_KEYDOWN key rep \<Rightarrow> ([OnKeyDown (ucast key) rep], w, True)
         | SDL_KEYUP key rep \<Rightarrow> ([OnKeyUp (ucast key) rep], w, True)
         | SDL_MOUSEMOTION x y xrel yrel \<Rightarrow> ([OnMouseMotion x y xrel yrel], w, True)
         | SDL_MOUSEBUTTONDOWN b x y \<Rightarrow> ([OnMouseButtonDown b x y], w, True)
         | SDL_MOUSEBUTTONUP b x y \<Rightarrow> ([OnMouseButtonUp b x y], w, True)
         | SDL_MOUSEWHEEL x y \<Rightarrow> ([OnMouseWheel x y], w, True)
         | SDL_QUIT \<Rightarrow> ([], w\<lparr>wnd_quit := True\<rparr>, True)
         | SDL_OTHER t \<Rightarrow> ([], w, True))
      else ([], w, False))"

text \<open>The loop of \<open>Run\<close>, which passes no handler; \<open>evs k\<close> is the \<open>k\<close>-th event of SDL.\<close>

partial_function (option) wnd_Run :: "(nat \<Rightarrow> sdl_event) \<Rightarrow> nat \<Rightarrow> hs_window \<Rightarrow> hs_window option" where
  [code]: "wnd_Run evs k w =
     (if wnd_quit w then Some w
      else case DoEvent False (evs k) w of (calls, w, taken) \<Rightarrow>
        wnd_Run evs (if taken then k + 1 else k) w)"

subsection \<open>Drawing\<close>

datatype sdl_call =
    SDL_RenderClear "nat option"
  | SDL_RenderPresent "nat option"
  | SDL_SetRenderDrawColor "nat option" "8 word" "8 word" "8 word" "8 word"
  | SDL_RenderSetLogicalSize "nat option" int int
  | SDL_RenderDrawPoint "nat option" int int
  | SDL_RenderDrawPoints "nat option" "(int \<times> int) list" int
  | SDL_RenderDrawLine "nat option" int int int int
  | SDL_RenderDrawLines "nat option" "(int \<times> int) list" int
  | SDL_RenderDrawRect "nat option" "int \<times> int \<times> int \<times> int"
  | SDL_RenderDrawRects "nat option" "(int \<times> int \<times> int \<times> int) list" int
  | SDL_RenderFillRect "nat option" "int \<times> int \<times> int \<times> int"
  | SDL_RenderFillRects "nat option" "(int \<times> int \<times> int \<times> int) list" int
  | SDL_SetWindowSize "nat option" int int

definition RenderClear :: "hs_window \<Rightarrow> sdl_call" where
  "RenderClear w = SDL_RenderClear (renderer w)"

definition Present :: "hs_window \<Rightarrow> sdl_call" where
  "Present w = SDL_RenderPresent (renderer w)"

definition SetRGBA :: "hs_window \<Rightarrow> 8 word \<Rightarrow> 8 word \<Rightarrow> 8 word \<Rightarrow> 8 word \<Rightarrow> sdl_call" where
  "SetRGBA w r g b a = SDL_SetRenderDrawColor (renderer w) r g b a"

definition SetLogicalSize :: "hs_window \<Rightarrow> int \<Rightarrow> int \<Rightarrow> sdl_call" where
  "SetLogicalSize w width height = SDL_RenderSetLogicalSize (renderer w) width height"

definition SetWindowSize :: "hs_window \<Rightarrow> int \<Rightarrow> int \<Rightarrow> sdl_call" where
  "SetWindowSize w width height = SDL_SetWindowSize (wnd w) width height"

text \<open>The two getters: \<open>size_of\<close> is what SDL stores for the pointer it is given.\<close>

definition GetWindowSize :: "(nat option \<Rightarrow> int \<times> int) \<Rightarrow> hs_window \<Rightarrow> int \<times> int" where
  "GetWindowSize size_of w = size_of (wnd w)"

definition GetLogicalSize :: "(nat option \<Rightarrow> int \<times> int) \<Rightarrow> hs_window \<Rightarrow> int \<times> int" where
  "GetLogicalSize size_of w = size_of (renderer w)"

definition DrawPoint :: "hs_window \<Rightarrow> int \<Rightarrow> int \<Rightarrow> sdl_call" where
  "DrawPoint w x y = SDL_RenderDrawPoint (renderer w) x y"

definition DrawPoints :: "hs_window \<Rightarrow> (int \<times> int) list \<Rightarrow> int \<Rightarrow> sdl_call" where
  "DrawPoints w points n = SDL_RenderDrawPoints (renderer w) points n"

definition DrawLine :: "hs_window \<Rightarrow> int \<Rightarrow> int \<Rightarrow> int \<Rightarrow> int \<Rightarrow> sdl_call" where
  "DrawLine w x1 y1 x2 y2 = SDL_RenderDrawLine (renderer w) x1 y1 x2 y2"

definition DrawLines :: "hs_window \<Rightarrow> (int \<times> int) list \<Rightarrow> int \<Rightarrow> sdl_call" where
  "DrawLines w points n = SDL_RenderDrawLines (renderer w) points n"

definition DrawRect :: "hs_window \<Rightarrow> int \<times> int \<times> int \<times> int \<Rightarrow> sdl_call" where
  "DrawRect w rect = SDL_RenderDrawRect (renderer w) rect"

definition DrawRects :: "hs_window \<Rightarrow> (int \<times> int \<times> int \<times> int) list \<Rightarrow> int \<Rightarrow> sdl_call" where
  "DrawRects w rects n = SDL_RenderDrawRects (renderer w) rects n"

definition FillRect :: "hs_window \<Rightarrow> int \<times> int \<times> int \<times> int \<Rightarrow> sdl_call" where
  "FillRect w rect = SDL_RenderFillRect (renderer w) rect"

definition FillRects :: "hs_window \<Rightarrow> (int \<times> int \<times> int \<times> int) list \<Rightarrow> int \<Rightarrow> sdl_call" where
  "FillRects w rects n = SDL_RenderFillRects (renderer w) rects n"

section \<open>System helpers\<close>

text \<open>The argument of \<open>::Sleep\<close>, a \<open>DWORD\<close>.\<close>

definition sys_Sleep :: "int \<Rightarrow> 32 word res" where
  "sys_Sleep secs = (if fits_int32 (secs * 1000) then Inr (of_int (secs * 1000)) else Inl SignedOverflow)"

definition sys_MSleep :: "int \<Rightarrow> 32 word" where
  "sys_MSleep msecs = of_int msecs"

definition sys_USleep :: "int \<Rightarrow> 32 word" where
  "sys_USleep usecs = of_int (usecs sdiv 1000)"

fun rfind_char :: "char \<Rightarrow> string \<Rightarrow> nat option" where
  "rfind_char c [] = None"
| "rfind_char c (x # xs) =
     (case rfind_char c xs of Some i \<Rightarrow> Some (i + 1) | None \<Rightarrow> if x = c then Some 0 else None)"

text \<open>The static string and the name of the program file, cut to the buffer; the C string is the result.\<close>

definition GetCurrentDir :: "string \<Rightarrow> string \<Rightarrow> string" where
  "GetCurrentDir current_dir module_file =
     (if length current_dir = 0 then
        let dir = take 2047 module_file in
        (case rfind_char (CHR 0x5C) dir of
           None \<Rightarrow> dir
         | Some offset \<Rightarrow> take (offset - 0 + 1) dir)
      else current_dir)"

section \<open>Properties\<close>

fun handler_calls :: "sdl_event \<Rightarrow> handler_call list" where
  "handler_calls (SDL_KEYDOWN key rep) = [OnKeyDown (ucast key) rep]"
| "handler_calls (SDL_KEYUP key rep) = [OnKeyUp (ucast key) rep]"
| "handler_calls (SDL_MOUSEMOTION x y xrel yrel) = [OnMouseMotion x y xrel yrel]"
| "handler_calls (SDL_MOUSEBUTTONDOWN b x y) = [OnMouseButtonDown b x y]"
| "handler_calls (SDL_MOUSEBUTTONUP b x y) = [OnMouseButtonUp b x y]"
| "handler_calls (SDL_MOUSEWHEEL x y) = [OnMouseWheel x y]"
| "handler_calls SDL_QUIT = []"
| "handler_calls (SDL_OTHER t) = []"

text \<open>A program that calls \<open>DoEvent\<close> with a handler once for each event.\<close>

fun pump :: "sdl_event list \<Rightarrow> hs_window \<Rightarrow> handler_call list \<times> hs_window" where
  "pump [] w = ([], w)"
| "pump (ev # evs) w =
     (case DoEvent True ev w of (calls, w, taken) \<Rightarrow>
        (case pump evs w of (calls', w) \<Rightarrow> (calls @ calls', w)))"

lemma pump_after_quit: "wnd_quit w \<Longrightarrow> pump evs w = ([], w)"
  by (induction evs) (simp_all add: DoEvent_def)

lemma DoEvent_running:
  "\<not> wnd_quit w \<Longrightarrow> DoEvent True ev w =
     (handler_calls ev, w\<lparr>wnd_event := Some ev, wnd_quit := (ev = SDL_QUIT)\<rparr>, True)"
  by (cases ev) (simp_all add: DoEvent_def)


text \<open>\<open>Run\<close> never returns, whatever events arrive. It passes no handler to \<open>DoEvent\<close>, which then does
  not even look for events, so nothing can set \<open>quit_\<close>.\<close>

theorem Run_never_returns:
  "wnd_Run evs k w = (if wnd_quit w then Some w else None)"
proof (cases "wnd_quit w")
  case True
  then show ?thesis by (subst wnd_Run.simps) simp
next
  case False
  have "wnd_quit w" if "wnd_Run evs k w = Some w'" for evs k w w'
    by (rule wnd_Run.raw_induct [of "\<lambda>evs k w w'. wnd_quit w", OF _ that])
      (auto simp: DoEvent_def split: if_splits)
  then show ?thesis using False by (cases "wnd_Run evs k w") auto
qed

text \<open>A key reaches the handler as its low byte: keys without a character, whose codes start at
  2^30, arrive as the characters with the same low byte.\<close>

theorem key_is_truncated:
  assumes "\<not> wnd_quit w"
  shows "fst (DoEvent True (SDL_KEYDOWN (key + 256 * k) rep) w) = fst (DoEvent True (SDL_KEYDOWN key rep) w)"
proof -
  have "(ucast (key + 256 * k) :: 8 word) = ucast key"
    by transfer (simp add: take_bit_eq_mod mod_mod_cancel)
  then show ?thesis using assms by (simp add: DoEvent_running)
qed

section \<open>Witnesses\<close>


text \<open>The arrow key up arrives as the letter R.\<close>

theorem key_is_truncated_witness:
  "fst (DoEvent True (SDL_KEYDOWN (0x52 + 256 * 0x400000) 0) HSWindow_new) = [OnKeyDown 0x52 0]"
  using key_is_truncated [of HSWindow_new "0x52" "0x400000" 0] by (simp add: HSWindow_new_def DoEvent_def)

end
