(* ===== verification/HS_LuaBinding.thy ===== *)
theory HS_LuaBinding
  imports HS_Lua HS_ConfigRows HS_Window
begin

text \<open>
  \<open>interface2lua.cpp\<close>, generated by tolua++ from the interface of the program, and \<open>config_file.h\<close>: what a
  Lua script can call. Every function checks its arguments, converts them, calls a method and pushes the
  results. The library tolua++ is a record of functions on an abstract interpreter state; \<open>tolua_documented\<close>
  states what its manual says of them. \<open>tolua_error\<close> does not return: the result is \<open>LuaError\<close>. This is the build
  without \<open>TOLUA_RELEASE\<close>, which would leave out the checks.

  The objects that a script can hold live in the state \<open>program\<close>: configuration files, and the values in their
  rows, which \<open>GetHSValue\<close> hands out as pointers. The three classes of files are the same template with
  another type of key; here they share the type \<open>any_key\<close>, and a file knows its class. A pointer that is used
  at another class than its own is a fault, as is one to an object that does not exist. So is a number that
  the cast to the type of the key cannot represent.
\<close>

section \<open>Objects\<close>

datatype file_class = IntKeyConfigFile | UintKeyConfigFile | StringKeyConfigFile

datatype any_key = IntKey int | UintKey u32 | StringKey string

text \<open>The key type of a class converts the text of a key.\<close>

fun key_of_text :: "file_class \<Rightarrow> string \<Rightarrow> any_key" where
  "key_of_text IntKeyConfigFile s = IntKey (key_int s)"
| "key_of_text UintKeyConfigFile s = UintKey (key_uint s)"
| "key_of_text StringKeyConfigFile s = StringKey (key_string s)"

record file_object =
  file_class :: file_class
  file_table :: "any_key config_file"
  file_cache :: "any_key row_cache"

record program =
  files :: "file_object list"
  current_dir :: string
  slept :: "32 word list"

datatype object_ptr = FileAt nat | ValueAt nat any_key nat

section \<open>The library\<close>

record 'L tolua_api =
  tolua_isusertable :: "'L \<Rightarrow> nat \<Rightarrow> string \<Rightarrow> bool"
  tolua_isusertype :: "'L \<Rightarrow> nat \<Rightarrow> string \<Rightarrow> bool"
  tolua_isnumber :: "'L \<Rightarrow> nat \<Rightarrow> bool"
  tolua_isstring :: "'L \<Rightarrow> nat \<Rightarrow> bool"
  tolua_iscppstring :: "'L \<Rightarrow> nat \<Rightarrow> bool"
  tolua_isnoobj :: "'L \<Rightarrow> nat \<Rightarrow> bool"
  tolua_tonumber :: "'L \<Rightarrow> nat \<Rightarrow> real"
  tolua_tostring :: "'L \<Rightarrow> nat \<Rightarrow> string option"
  tolua_tousertype :: "'L \<Rightarrow> nat \<Rightarrow> object_ptr option"
  tolua_pushnumber :: "real \<Rightarrow> 'L \<Rightarrow> 'L"
  tolua_pushboolean :: "bool \<Rightarrow> 'L \<Rightarrow> 'L"
  tolua_pushstring :: "string option \<Rightarrow> 'L \<Rightarrow> 'L"
  tolua_pushusertype :: "object_ptr option \<Rightarrow> string \<Rightarrow> 'L \<Rightarrow> 'L"

datatype 'a lua_result = Returned 'a | LuaError string

type_synonym 'L binding_result = "(nat \<times> 'L \<times> program) lua_result res"

definition quoted :: "string \<Rightarrow> string" where
  "quoted s = [CHR 0x27] @ s @ [CHR 0x27]"

definition function_error :: "string \<Rightarrow> 'L binding_result" where
  "function_error name = Inr (LuaError (''#ferror in function '' @ quoted name @ ''.''))"

definition self_error :: "string \<Rightarrow> 'L binding_result" where
  "self_error name = Inr (LuaError (''invalid '' @ quoted ''self'' @ '' in function '' @ quoted name))"

text \<open>The casts of a \<open>lua_Number\<close> to the parameter types: towards 0, undefined outside the range.\<close>

definition truncate_real :: "real \<Rightarrow> int" where
  "truncate_real x = (if 0 \<le> x then \<lfloor>x\<rfloor> else \<lceil>x\<rceil>)"

definition number_to_int :: "real \<Rightarrow> int res" where
  "number_to_int x = (if fits_int32 (truncate_real x) then Inr (truncate_real x) else Inl SignedOverflow)"

definition number_to_uint :: "real \<Rightarrow> u32 res" where
  "number_to_uint x =
     (if 0 \<le> truncate_real x \<and> truncate_real x < 2 ^ 32 then Inr (of_int (truncate_real x)) else Inl SignedOverflow)"

section \<open>HSSystem\<close>

definition lua_Sleep :: "'L tolua_api \<Rightarrow> program \<Rightarrow> 'L \<Rightarrow> 'L binding_result" where
  "lua_Sleep api prog L =
     (if \<not> tolua_isusertable api L 1 ''HSSystem'' \<or> \<not> tolua_isnumber api L 2 \<or> \<not> tolua_isnoobj api L 3 then
        function_error ''Sleep''
      else
        bind_res (number_to_int (tolua_tonumber api L 2)) (\<lambda>secs.
        bind_res (sys_Sleep secs) (\<lambda>t.
        Inr (Returned (0, L, prog\<lparr>slept := slept prog @ [t]\<rparr>)))))"

definition lua_MSleep :: "'L tolua_api \<Rightarrow> program \<Rightarrow> 'L \<Rightarrow> 'L binding_result" where
  "lua_MSleep api prog L =
     (if \<not> tolua_isusertable api L 1 ''HSSystem'' \<or> \<not> tolua_isnumber api L 2 \<or> \<not> tolua_isnoobj api L 3 then
        function_error ''MSleep''
      else
        bind_res (number_to_int (tolua_tonumber api L 2)) (\<lambda>msecs.
        Inr (Returned (0, L, prog\<lparr>slept := slept prog @ [sys_MSleep msecs]\<rparr>))))"

definition lua_USleep :: "'L tolua_api \<Rightarrow> program \<Rightarrow> 'L \<Rightarrow> 'L binding_result" where
  "lua_USleep api prog L =
     (if \<not> tolua_isusertable api L 1 ''HSSystem'' \<or> \<not> tolua_isnumber api L 2 \<or> \<not> tolua_isnoobj api L 3 then
        function_error ''USleep''
      else
        bind_res (number_to_int (tolua_tonumber api L 2)) (\<lambda>usecs.
        Inr (Returned (0, L, prog\<lparr>slept := slept prog @ [sys_USleep usecs]\<rparr>))))"

definition lua_GetCurrentDir :: "string \<Rightarrow> 'L tolua_api \<Rightarrow> program \<Rightarrow> 'L \<Rightarrow> 'L binding_result" where
  "lua_GetCurrentDir module_file api prog L =
     (if \<not> tolua_isusertable api L 1 ''HSSystem'' \<or> \<not> tolua_isnoobj api L 2 then function_error ''GetCurrentDir''
      else
        let dir = GetCurrentDir (current_dir prog) module_file in
        Inr (Returned (1, tolua_pushstring api (Some dir) L, prog\<lparr>current_dir := dir\<rparr>)))"

section \<open>HSValue\<close>

text \<open>A method of the value that a pointer leads to.\<close>

definition call_value :: "(hs_value \<Rightarrow> 'a \<times> hs_value) \<Rightarrow> object_ptr \<Rightarrow> program \<Rightarrow> ('a \<times> program) res" where
  "call_value conv self prog =
     (case self of
        FileAt f \<Rightarrow> Inl WildDeref
      | ValueAt f key i \<Rightarrow>
          if f < length (files prog) then
            bind_res (at_pointer conv (file_cache (files prog ! f)) (key, i)) (\<lambda>(a, cache).
              Inr (a, prog\<lparr>files := (files prog)[f := (files prog ! f)\<lparr>file_cache := cache\<rparr>]\<rparr>))
          else Inl WildDeref)"

text \<open>The twelve functions for \<open>HSValue\<close> differ in the method they call and in how the result is pushed.\<close>

definition value_function ::
  "string \<Rightarrow> (hs_value \<Rightarrow> 'a \<times> hs_value) \<Rightarrow> ('a \<Rightarrow> 'L \<Rightarrow> 'L) \<Rightarrow> 'L tolua_api \<Rightarrow> program \<Rightarrow> 'L \<Rightarrow> 'L binding_result" where
  "value_function name conv push api prog L =
     (if \<not> tolua_isusertype api L 1 ''HSValue'' \<or> \<not> tolua_isnoobj api L 2 then function_error name
      else
        (case tolua_tousertype api L 1 of
           None \<Rightarrow> self_error name
         | Some self \<Rightarrow>
             bind_res (call_value conv self prog) (\<lambda>(r, prog). Inr (Returned (1, push r L, prog)))))"

definition lua_AsBool :: "'L tolua_api \<Rightarrow> program \<Rightarrow> 'L \<Rightarrow> 'L binding_result" where
  "lua_AsBool api = value_function ''AsBool'' AsBool (tolua_pushboolean api) api"

definition lua_AsChar :: "'L tolua_api \<Rightarrow> program \<Rightarrow> 'L \<Rightarrow> 'L binding_result" where
  "lua_AsChar api = value_function ''AsChar'' AsChar (\<lambda>i. tolua_pushnumber api (of_int i)) api"

definition lua_AsUchar :: "'L tolua_api \<Rightarrow> program \<Rightarrow> 'L \<Rightarrow> 'L binding_result" where
  "lua_AsUchar api = value_function ''AsUchar'' AsUchar (\<lambda>i. tolua_pushnumber api (of_int i)) api"

definition lua_AsShort :: "'L tolua_api \<Rightarrow> program \<Rightarrow> 'L \<Rightarrow> 'L binding_result" where
  "lua_AsShort api = value_function ''AsShort'' AsShort (\<lambda>i. tolua_pushnumber api (of_int i)) api"

definition lua_AsUshort :: "'L tolua_api \<Rightarrow> program \<Rightarrow> 'L \<Rightarrow> 'L binding_result" where
  "lua_AsUshort api = value_function ''AsUshort'' AsUshort (\<lambda>i. tolua_pushnumber api (of_int i)) api"

definition lua_AsInt :: "'L tolua_api \<Rightarrow> program \<Rightarrow> 'L \<Rightarrow> 'L binding_result" where
  "lua_AsInt api = value_function ''AsInt'' AsInt (\<lambda>i. tolua_pushnumber api (of_int i)) api"

definition lua_AsUint :: "'L tolua_api \<Rightarrow> program \<Rightarrow> 'L \<Rightarrow> 'L binding_result" where
  "lua_AsUint api = value_function ''AsUint'' AsUint (\<lambda>i. tolua_pushnumber api (of_int i)) api"

definition lua_AsFloat ::
  "(real \<Rightarrow> real) \<Rightarrow> (string \<Rightarrow> real) \<Rightarrow> 'L tolua_api \<Rightarrow> program \<Rightarrow> 'L \<Rightarrow> 'L binding_result" where
  "lua_AsFloat to_float atof api = value_function ''AsFloat'' (AsFloat to_float atof) (tolua_pushnumber api) api"

definition lua_AsDouble :: "(string \<Rightarrow> real) \<Rightarrow> 'L tolua_api \<Rightarrow> program \<Rightarrow> 'L \<Rightarrow> 'L binding_result" where
  "lua_AsDouble atof api = value_function ''AsDouble'' (AsDouble atof) (tolua_pushnumber api) api"

definition lua_AsLong :: "'L tolua_api \<Rightarrow> program \<Rightarrow> 'L \<Rightarrow> 'L binding_result" where
  "lua_AsLong api = value_function ''AsLong'' AsLong (\<lambda>i. tolua_pushnumber api (of_int i)) api"

definition lua_AsUlong :: "'L tolua_api \<Rightarrow> program \<Rightarrow> 'L \<Rightarrow> 'L binding_result" where
  "lua_AsUlong api = value_function ''AsUlong'' AsUlong (\<lambda>i. tolua_pushnumber api (of_int i)) api"

definition lua_AsCString :: "'L tolua_api \<Rightarrow> program \<Rightarrow> 'L \<Rightarrow> 'L binding_result" where
  "lua_AsCString api = value_function ''AsCString'' (\<lambda>v. (AsString v, v)) (\<lambda>s. tolua_pushstring api (Some s)) api"

section \<open>Configuration files\<close>

text \<open>\<open>GetData\<close> and \<open>GetHSValue\<close> of the file that a pointer leads to; the name of a field may be null.\<close>

definition call_GetData ::
  "file_class \<Rightarrow> object_ptr \<Rightarrow> any_key \<Rightarrow> string option \<Rightarrow> program \<Rightarrow> (string option \<times> program) res" where
  "call_GetData cls self key field prog =
     (case self of
        ValueAt f k i \<Rightarrow> Inl WildDeref
      | FileAt f \<Rightarrow>
          if f < length (files prog) \<and> file_class (files prog ! f) = cls then
            let fo = files prog ! f in
            bind_res (case field of
                None \<Rightarrow> bind_res (cache_GetDataRow (file_table fo) (file_cache fo) key) (\<lambda>(d, cache). Inr (None, cache))
              | Some s \<Rightarrow> cache_GetData (file_table fo) (file_cache fo) key s) (\<lambda>(v, cache).
            Inr (v, prog\<lparr>files := (files prog)[f := fo\<lparr>file_cache := cache\<rparr>]\<rparr>))
          else Inl WildDeref)"

definition call_GetHSValue ::
  "file_class \<Rightarrow> object_ptr \<Rightarrow> any_key \<Rightarrow> string option \<Rightarrow> program \<Rightarrow> (object_ptr option \<times> program) res" where
  "call_GetHSValue cls self key field prog =
     (case self of
        ValueAt f k i \<Rightarrow> Inl WildDeref
      | FileAt f \<Rightarrow>
          if f < length (files prog) \<and> file_class (files prog ! f) = cls then
            let fo = files prog ! f in
            bind_res (case field of
                None \<Rightarrow> bind_res (cache_GetDataRow (file_table fo) (file_cache fo) key) (\<lambda>(d, cache). Inr (None, cache))
              | Some s \<Rightarrow> cache_GetHSValue (file_table fo) (file_cache fo) key s) (\<lambda>(p, cache).
            Inr (map_option (\<lambda>(k, i). ValueAt f k i) p, prog\<lparr>files := (files prog)[f := fo\<lparr>file_cache := cache\<rparr>]\<rparr>))
          else Inl WildDeref)"

fun is_key :: "'L tolua_api \<Rightarrow> file_class \<Rightarrow> 'L \<Rightarrow> nat \<Rightarrow> bool" where
  "is_key api IntKeyConfigFile L i = tolua_isnumber api L i"
| "is_key api UintKeyConfigFile L i = tolua_isnumber api L i"
| "is_key api StringKeyConfigFile L i = tolua_iscppstring api L i"

text \<open>\<open>tolua_tocppstring\<close> is \<open>tolua_tostring\<close>; the parameter is a \<open>std::string\<close> made from it.\<close>

fun to_key :: "'L tolua_api \<Rightarrow> file_class \<Rightarrow> 'L \<Rightarrow> nat \<Rightarrow> any_key res" where
  "to_key api IntKeyConfigFile L i = bind_res (number_to_int (tolua_tonumber api L i)) (\<lambda>k. Inr (IntKey k))"
| "to_key api UintKeyConfigFile L i = bind_res (number_to_uint (tolua_tonumber api L i)) (\<lambda>k. Inr (UintKey k))"
| "to_key api StringKeyConfigFile L i =
     (case tolua_tostring api L i of None \<Rightarrow> Inl NullDeref | Some s \<Rightarrow> Inr (StringKey s))"

fun push_key :: "'L tolua_api \<Rightarrow> any_key \<Rightarrow> 'L \<Rightarrow> 'L" where
  "push_key api (IntKey k) L = tolua_pushnumber api (of_int k) L"
| "push_key api (UintKey k) L = tolua_pushnumber api (of_int (uint k)) L"
| "push_key api (StringKey s) L = tolua_pushstring api (Some s) L"

fun class_name :: "file_class \<Rightarrow> string" where
  "class_name IntKeyConfigFile = ''IntKeyConfigFile''"
| "class_name UintKeyConfigFile = ''UintKeyConfigFile''"
| "class_name StringKeyConfigFile = ''StringKeyConfigFile''"

text \<open>The functions of the three classes differ in the key.\<close>

definition file_function ::
  "string \<Rightarrow> file_class \<Rightarrow> (object_ptr \<Rightarrow> any_key \<Rightarrow> string option \<Rightarrow> program \<Rightarrow> ('a \<times> program) res) \<Rightarrow>
   ('a \<Rightarrow> 'L \<Rightarrow> 'L) \<Rightarrow> 'L tolua_api \<Rightarrow> program \<Rightarrow> 'L \<Rightarrow> 'L binding_result" where
  "file_function name cls method push api prog L =
     (if \<not> tolua_isusertype api L 1 (class_name cls) \<or> \<not> is_key api cls L 2 \<or> \<not> tolua_isstring api L 3 \<or>
         \<not> tolua_isnoobj api L 4
      then function_error name
      else
        bind_res (to_key api cls L 2) (\<lambda>key.
        let field = tolua_tostring api L 3 in
        case tolua_tousertype api L 1 of
          None \<Rightarrow> self_error name
        | Some self \<Rightarrow>
            bind_res (method self key field prog) (\<lambda>(r, prog).
              Inr (Returned (2, push_key api key (push r L), prog)))))"

definition lua_IntKey_GetData :: "'L tolua_api \<Rightarrow> program \<Rightarrow> 'L \<Rightarrow> 'L binding_result" where
  "lua_IntKey_GetData api =
     file_function ''GetData'' IntKeyConfigFile (call_GetData IntKeyConfigFile) (tolua_pushstring api) api"

definition lua_IntKey_GetHSValue :: "'L tolua_api \<Rightarrow> program \<Rightarrow> 'L \<Rightarrow> 'L binding_result" where
  "lua_IntKey_GetHSValue api =
     file_function ''GetHSValue'' IntKeyConfigFile (call_GetHSValue IntKeyConfigFile)
       (\<lambda>p. tolua_pushusertype api p ''HSValue'') api"

definition lua_UintKey_GetData :: "'L tolua_api \<Rightarrow> program \<Rightarrow> 'L \<Rightarrow> 'L binding_result" where
  "lua_UintKey_GetData api =
     file_function ''GetData'' UintKeyConfigFile (call_GetData UintKeyConfigFile) (tolua_pushstring api) api"

definition lua_UintKey_GetHSValue :: "'L tolua_api \<Rightarrow> program \<Rightarrow> 'L \<Rightarrow> 'L binding_result" where
  "lua_UintKey_GetHSValue api =
     file_function ''GetHSValue'' UintKeyConfigFile (call_GetHSValue UintKeyConfigFile)
       (\<lambda>p. tolua_pushusertype api p ''HSValue'') api"

definition lua_StringKey_GetData :: "'L tolua_api \<Rightarrow> program \<Rightarrow> 'L \<Rightarrow> 'L binding_result" where
  "lua_StringKey_GetData api =
     file_function ''GetData'' StringKeyConfigFile (call_GetData StringKeyConfigFile) (tolua_pushstring api) api"

definition lua_StringKey_GetHSValue :: "'L tolua_api \<Rightarrow> program \<Rightarrow> 'L \<Rightarrow> 'L binding_result" where
  "lua_StringKey_GetHSValue api =
     file_function ''GetHSValue'' StringKeyConfigFile (call_GetHSValue StringKeyConfigFile)
       (\<lambda>p. tolua_pushusertype api p ''HSValue'') api"

section \<open>Registration\<close>

text \<open>The functions of the file, what they need besides the state, and calling one.\<close>

datatype binding =
    HSSystem_Sleep
  | HSSystem_MSleep
  | HSSystem_USleep
  | HSSystem_GetCurrentDir
  | HSValue_AsBool
  | HSValue_AsChar
  | HSValue_AsUchar
  | HSValue_AsShort
  | HSValue_AsUshort
  | HSValue_AsInt
  | HSValue_AsUint
  | HSValue_AsFloat
  | HSValue_AsDouble
  | HSValue_AsLong
  | HSValue_AsUlong
  | HSValue_AsCString
  | IntKey_GetData
  | IntKey_GetHSValue
  | UintKey_GetData
  | UintKey_GetHSValue
  | StringKey_GetData
  | StringKey_GetHSValue

record lua_env =
  module_file :: string
  env_to_float :: "real \<Rightarrow> real"
  env_atof :: "string \<Rightarrow> real"

fun run_binding :: "lua_env \<Rightarrow> binding \<Rightarrow> 'L tolua_api \<Rightarrow> program \<Rightarrow> 'L \<Rightarrow> 'L binding_result" where
  "run_binding env HSSystem_Sleep = lua_Sleep"
| "run_binding env HSSystem_MSleep = lua_MSleep"
| "run_binding env HSSystem_USleep = lua_USleep"
| "run_binding env HSSystem_GetCurrentDir = lua_GetCurrentDir (module_file env)"
| "run_binding env HSValue_AsBool = lua_AsBool"
| "run_binding env HSValue_AsChar = lua_AsChar"
| "run_binding env HSValue_AsUchar = lua_AsUchar"
| "run_binding env HSValue_AsShort = lua_AsShort"
| "run_binding env HSValue_AsUshort = lua_AsUshort"
| "run_binding env HSValue_AsInt = lua_AsInt"
| "run_binding env HSValue_AsUint = lua_AsUint"
| "run_binding env HSValue_AsFloat = lua_AsFloat (env_to_float env) (env_atof env)"
| "run_binding env HSValue_AsDouble = lua_AsDouble (env_atof env)"
| "run_binding env HSValue_AsLong = lua_AsLong"
| "run_binding env HSValue_AsUlong = lua_AsUlong"
| "run_binding env HSValue_AsCString = lua_AsCString"
| "run_binding env IntKey_GetData = lua_IntKey_GetData"
| "run_binding env IntKey_GetHSValue = lua_IntKey_GetHSValue"
| "run_binding env UintKey_GetData = lua_UintKey_GetData"
| "run_binding env UintKey_GetHSValue = lua_UintKey_GetHSValue"
| "run_binding env StringKey_GetData = lua_StringKey_GetData"
| "run_binding env StringKey_GetHSValue = lua_StringKey_GetHSValue"

text \<open>The calls with which \<open>tolua_interface2lua_open\<close> makes the functions known to Lua, in order.\<close>

datatype tolua_call =
    ToluaOpen
  | UserType string
  | Module "string option"
  | BeginModule "string option"
  | EndModule
  | CClass string string string
  | Function string binding

definition tolua_reg_types :: "tolua_call list" where
  "tolua_reg_types =
     [UserType ''map'', UserType ''UintKeyConfigFile'', UserType ''IntKeyConfigFile'', UserType ''HSValue'',
      UserType ''deque'', UserType ''list'', UserType ''StringKeyConfigFile'', UserType ''vector'', UserType ''HSSystem'']"

definition class_module :: "string \<Rightarrow> (string \<times> binding) list \<Rightarrow> tolua_call list" where
  "class_module c fs =
     [CClass c c [], BeginModule (Some c)] @ map (\<lambda>(n, b). Function n b) fs @ [EndModule]"

definition tolua_interface2lua_open :: "tolua_call list" where
  "tolua_interface2lua_open =
     [ToluaOpen] @ tolua_reg_types @ [Module None, BeginModule None] @
     class_module ''vector'' [] @ class_module ''map'' [] @ class_module ''list'' [] @ class_module ''deque'' [] @
     class_module ''HSSystem''
       [(''Sleep'', HSSystem_Sleep), (''MSleep'', HSSystem_MSleep), (''USleep'', HSSystem_USleep), (''GetCurrentDir'', HSSystem_GetCurrentDir)] @
     class_module ''HSValue''
       [(''AsBool'', HSValue_AsBool), (''AsChar'', HSValue_AsChar), (''AsUchar'', HSValue_AsUchar), (''AsShort'', HSValue_AsShort),
        (''AsUshort'', HSValue_AsUshort), (''AsInt'', HSValue_AsInt), (''AsUint'', HSValue_AsUint), (''AsFloat'', HSValue_AsFloat),
        (''AsDouble'', HSValue_AsDouble), (''AsLong'', HSValue_AsLong), (''AsUlong'', HSValue_AsUlong), (''AsCString'', HSValue_AsCString)] @
     class_module ''IntKeyConfigFile''
       [(''GetData'', IntKey_GetData), (''GetHSValue'', IntKey_GetHSValue)] @
     class_module ''UintKeyConfigFile''
       [(''GetData'', UintKey_GetData), (''GetHSValue'', UintKey_GetHSValue)] @
     class_module ''StringKeyConfigFile''
       [(''GetData'', StringKey_GetData), (''GetHSValue'', StringKey_GetHSValue)] @
     [EndModule]"

definition luaopen_interface2lua :: "tolua_call list" where
  "luaopen_interface2lua = tolua_interface2lua_open"

text \<open>The functions that a sequence of such calls makes known, by the path of their module: \<open>ms\<close> are the
  modules that are open, the innermost first.\<close>

fun registered :: "string option list \<Rightarrow> tolua_call list \<Rightarrow> (string list \<times> binding) list" where
  "registered ms [] = []"
| "registered ms (BeginModule m # cs) = registered (m # ms) cs"
| "registered ms (EndModule # cs) = registered (tl ms) cs"
| "registered ms (Function n b # cs) = (map the (filter (\<lambda>m. m \<noteq> None) (rev ms)) @ [n], b) # registered ms cs"
| "registered ms (_ # cs) = registered ms cs"

definition lua_method :: "string \<Rightarrow> string \<Rightarrow> binding option" where
  "lua_method c n = map_of (registered [] tolua_interface2lua_open) [c, n]"

lemma lua_methods:
  "lua_method ''HSSystem'' ''Sleep'' = Some HSSystem_Sleep"
  "lua_method ''HSSystem'' ''MSleep'' = Some HSSystem_MSleep"
  "lua_method ''HSSystem'' ''USleep'' = Some HSSystem_USleep"
  "lua_method ''HSSystem'' ''GetCurrentDir'' = Some HSSystem_GetCurrentDir"
  "lua_method ''HSValue'' ''AsBool'' = Some HSValue_AsBool"
  "lua_method ''HSValue'' ''AsChar'' = Some HSValue_AsChar"
  "lua_method ''HSValue'' ''AsUchar'' = Some HSValue_AsUchar"
  "lua_method ''HSValue'' ''AsShort'' = Some HSValue_AsShort"
  "lua_method ''HSValue'' ''AsUshort'' = Some HSValue_AsUshort"
  "lua_method ''HSValue'' ''AsInt'' = Some HSValue_AsInt"
  "lua_method ''HSValue'' ''AsUint'' = Some HSValue_AsUint"
  "lua_method ''HSValue'' ''AsFloat'' = Some HSValue_AsFloat"
  "lua_method ''HSValue'' ''AsDouble'' = Some HSValue_AsDouble"
  "lua_method ''HSValue'' ''AsLong'' = Some HSValue_AsLong"
  "lua_method ''HSValue'' ''AsUlong'' = Some HSValue_AsUlong"
  "lua_method ''HSValue'' ''AsCString'' = Some HSValue_AsCString"
  "lua_method ''IntKeyConfigFile'' ''GetData'' = Some IntKey_GetData"
  "lua_method ''IntKeyConfigFile'' ''GetHSValue'' = Some IntKey_GetHSValue"
  "lua_method ''UintKeyConfigFile'' ''GetData'' = Some UintKey_GetData"
  "lua_method ''UintKeyConfigFile'' ''GetHSValue'' = Some UintKey_GetHSValue"
  "lua_method ''StringKeyConfigFile'' ''GetData'' = Some StringKey_GetData"
  "lua_method ''StringKeyConfigFile'' ''GetHSValue'' = Some StringKey_GetHSValue"
  by (simp_all add: lua_method_def tolua_interface2lua_open_def class_module_def tolua_reg_types_def)

end
