(* ===== verification/HS_LuaScripts.thy ===== *)
theory HS_LuaScripts
  imports HS_LuaBinding
begin

text \<open>
  Scripts on the binding of \<open>interface2lua.cpp\<close>: what tolua++ promises, the runs of a script, and what the
  script sees. \<open>stk\<close> is the stack of an interpreter, on entry the arguments; \<open>obj\<close> are the objects of the
  program that Lua knows, with the type under which they were pushed.
\<close>

section \<open>What the manual of tolua++ says\<close>

definition tolua_documented ::
  "'L tolua_api \<Rightarrow> ('L \<Rightarrow> lua_value list) \<Rightarrow> ('L \<Rightarrow> nat \<Rightarrow> (string \<times> object_ptr) option) \<Rightarrow> bool" where
  "tolua_documented api stk obj \<longleftrightarrow>
     (\<forall>L i ty p. tolua_isusertype api L i ty \<and> tolua_tousertype api L i = Some p \<longrightarrow> (\<exists>k. obj L k = Some (ty, p))) \<and>
     (\<forall>L i. tolua_isstring api L i \<or> tolua_iscppstring api L i \<longrightarrow> tolua_tostring api L i \<noteq> None) \<and>
     (\<forall>L i. tolua_isnoobj api L i \<longleftrightarrow> length (stk L) < i) \<and>
     (\<forall>L i x. i < length (stk L) \<and> stk L ! i = LNumber x \<longrightarrow>
        tolua_isnumber api L (i + 1) \<and> tolua_tonumber api L (i + 1) = x) \<and>
     (\<forall>L i s. i < length (stk L) \<and> stk L ! i = LString s \<longrightarrow>
        tolua_isstring api L (i + 1) \<and> tolua_iscppstring api L (i + 1) \<and> tolua_tostring api L (i + 1) = Some s) \<and>
     (\<forall>L i k ty p. i < length (stk L) \<and> stk L ! i = LObject k \<and> obj L k = Some (ty, p) \<longrightarrow>
        tolua_isusertype api L (i + 1) ty \<and> tolua_tousertype api L (i + 1) = Some p) \<and>
     (\<forall>L x. stk (tolua_pushnumber api x L) = stk L @ [LNumber x] \<and> obj (tolua_pushnumber api x L) = obj L) \<and>
     (\<forall>L x. stk (tolua_pushboolean api x L) = stk L @ [LBoolean x] \<and> obj (tolua_pushboolean api x L) = obj L) \<and>
     (\<forall>L s. stk (tolua_pushstring api s L) = stk L @ [case s of None \<Rightarrow> LNil | Some s \<Rightarrow> LString s] \<and>
        obj (tolua_pushstring api s L) = obj L) \<and>
     (\<forall>L ty. stk (tolua_pushusertype api None ty L) = stk L @ [LNil] \<and> obj (tolua_pushusertype api None ty L) = obj L) \<and>
     (\<forall>L ty p. \<exists>k. stk (tolua_pushusertype api (Some p) ty L) = stk L @ [LObject k] \<and>
        obj (tolua_pushusertype api (Some p) ty L) = (obj L)(k \<mapsto> (ty, p)))"

lemma tolua_documented_args:
  assumes "tolua_documented api stk obj"
  shows "tolua_isusertype api L i ty \<Longrightarrow> tolua_tousertype api L i = Some p \<Longrightarrow> \<exists>k. obj L k = Some (ty, p)"
    and "tolua_isstring api L i \<or> tolua_iscppstring api L i \<Longrightarrow> tolua_tostring api L i \<noteq> None"
    and "tolua_isnoobj api L i \<longleftrightarrow> length (stk L) < i"
proof -
  note doc = assms [unfolded tolua_documented_def]
  show "tolua_isusertype api L i ty \<Longrightarrow> tolua_tousertype api L i = Some p \<Longrightarrow> \<exists>k. obj L k = Some (ty, p)"
    using doc by (elim conjE) simp
  show "tolua_isstring api L i \<or> tolua_iscppstring api L i \<Longrightarrow> tolua_tostring api L i \<noteq> None"
    using doc by (elim conjE) blast
  show "tolua_isnoobj api L i \<longleftrightarrow> length (stk L) < i" using doc by (elim conjE) simp
qed

lemma tolua_documented_read:
  assumes "tolua_documented api stk obj" "i < length (stk L)"
  shows "stk L ! i = LNumber x \<Longrightarrow> tolua_isnumber api L (i + 1) \<and> tolua_tonumber api L (i + 1) = x"
    and "stk L ! i = LString s \<Longrightarrow>
      tolua_isstring api L (i + 1) \<and> tolua_iscppstring api L (i + 1) \<and> tolua_tostring api L (i + 1) = Some s"
    and "stk L ! i = LObject k \<Longrightarrow> obj L k = Some (ty, p) \<Longrightarrow>
      tolua_isusertype api L (i + 1) ty \<and> tolua_tousertype api L (i + 1) = Some p"
proof -
  note doc = assms(1) [unfolded tolua_documented_def]
  show "stk L ! i = LNumber x \<Longrightarrow> tolua_isnumber api L (i + 1) \<and> tolua_tonumber api L (i + 1) = x"
    using doc assms(2) by (elim conjE) blast
  show "stk L ! i = LString s \<Longrightarrow>
      tolua_isstring api L (i + 1) \<and> tolua_iscppstring api L (i + 1) \<and> tolua_tostring api L (i + 1) = Some s"
    using doc assms(2) by (elim conjE) blast
  show "stk L ! i = LObject k \<Longrightarrow> obj L k = Some (ty, p) \<Longrightarrow>
      tolua_isusertype api L (i + 1) ty \<and> tolua_tousertype api L (i + 1) = Some p"
    using doc assms(2) by (elim conjE) blast
qed

lemma tolua_documented_push:
  assumes "tolua_documented api stk obj"
  shows "stk (tolua_pushnumber api x L) = stk L @ [LNumber x]" "obj (tolua_pushnumber api x L) = obj L"
    and "stk (tolua_pushboolean api b L) = stk L @ [LBoolean b]" "obj (tolua_pushboolean api b L) = obj L"
    and "stk (tolua_pushstring api s L) = stk L @ [case s of None \<Rightarrow> LNil | Some s \<Rightarrow> LString s]"
    and "obj (tolua_pushstring api s L) = obj L"
    and "stk (tolua_pushusertype api None ty L) = stk L @ [LNil]" "obj (tolua_pushusertype api None ty L) = obj L"
proof -
  note doc = assms [unfolded tolua_documented_def]
  show "stk (tolua_pushnumber api x L) = stk L @ [LNumber x]" using doc by (elim conjE) simp
  show "obj (tolua_pushnumber api x L) = obj L" using doc by (elim conjE) simp
  show "stk (tolua_pushboolean api b L) = stk L @ [LBoolean b]" using doc by (elim conjE) simp
  show "obj (tolua_pushboolean api b L) = obj L" using doc by (elim conjE) simp
  show "stk (tolua_pushstring api s L) = stk L @ [case s of None \<Rightarrow> LNil | Some s \<Rightarrow> LString s]"
    using doc by (elim conjE) simp
  show "obj (tolua_pushstring api s L) = obj L" using doc by (elim conjE) simp
  show "stk (tolua_pushusertype api None ty L) = stk L @ [LNil]" using doc by (elim conjE) simp
  show "obj (tolua_pushusertype api None ty L) = obj L" using doc by (elim conjE) simp
qed

lemma tolua_documented_push_object:
  assumes "tolua_documented api stk obj"
  obtains k where "stk (tolua_pushusertype api (Some p) ty L) = stk L @ [LObject k]"
    "obj (tolua_pushusertype api (Some p) ty L) = (obj L)(k \<mapsto> (ty, p))"
proof -
  have "\<exists>k. stk (tolua_pushusertype api (Some p) ty L) = stk L @ [LObject k] \<and>
      obj (tolua_pushusertype api (Some p) ty L) = (obj L)(k \<mapsto> (ty, p))"
    using assms [unfolded tolua_documented_def] by (elim conjE) simp
  then show ?thesis using that by blast
qed

section \<open>Objects that exist\<close>

definition value_live :: "'k row_cache \<Rightarrow> 'k \<Rightarrow> nat \<Rightarrow> bool" where
  "value_live cache key i \<longleftrightarrow> (\<exists>row vals. cache key = Some (row, vals) \<and> i < length vals)"

text \<open>A pointer that Lua holds under a type name leads to an object of this type.\<close>

fun object_ok :: "program \<Rightarrow> string \<Rightarrow> object_ptr \<Rightarrow> bool" where
  "object_ok prog ty (FileAt f) \<longleftrightarrow> f < length (files prog) \<and> ty = class_name (file_class (files prog ! f))"
| "object_ok prog ty (ValueAt f key i) \<longleftrightarrow>
     ty = ''HSValue'' \<and> f < length (files prog) \<and> value_live (file_cache (files prog ! f)) key i"

definition objects_ok :: "program \<Rightarrow> (nat \<Rightarrow> (string \<times> object_ptr) option) \<Rightarrow> bool" where
  "objects_ok prog objs \<longleftrightarrow> (\<forall>k ty p. objs k = Some (ty, p) \<longrightarrow> object_ok prog ty p)"

text \<open>Files whose rows all have fields, so that no lookup faults.\<close>

definition file_ok :: "file_object \<Rightarrow> bool" where
  "file_ok fo \<longleftrightarrow> cache_ok (file_table fo, file_cache fo) \<and> (\<forall>key field. \<exists>v. GetData (file_table fo) key field = Inr v)"

definition program_ok :: "program \<Rightarrow> bool" where
  "program_ok prog \<longleftrightarrow> (\<forall>fo\<in>set (files prog). file_ok fo)"

text \<open>What a call may do to the program: objects stay.\<close>

definition extends :: "program \<Rightarrow> program \<Rightarrow> bool" where
  "extends prog prog' \<longleftrightarrow> program_ok prog' \<and> (\<forall>ty p. object_ok prog ty p \<longrightarrow> object_ok prog' ty p)"

lemma extends_refl [simp]: "extends prog prog \<longleftrightarrow> program_ok prog"
  by (simp add: extends_def)

lemma extends_objects: "extends prog prog' \<Longrightarrow> objects_ok prog objs \<Longrightarrow> objects_ok prog' objs"
  by (simp add: extends_def objects_ok_def)

lemma objects_ok_le: "objs' \<subseteq>\<^sub>m objs \<Longrightarrow> objects_ok prog objs \<Longrightarrow> objects_ok prog objs'"
  unfolding objects_ok_def map_le_def by (metis domI)

text \<open>A file with another cache.\<close>

lemma extends_cache:
  assumes "program_ok prog" "f < length (files prog)" "cache_ok (file_table (files prog ! f), cache)"
    and "\<And>key i. value_live (file_cache (files prog ! f)) key i \<Longrightarrow> value_live cache key i"
  shows "extends prog (prog\<lparr>files := (files prog)[f := (files prog ! f)\<lparr>file_cache := cache\<rparr>]\<rparr>)" (is "extends prog ?prog'")
proof -
  have "file_ok (files prog ! f)" using assms(1,2) by (simp add: program_ok_def)
  then have "file_ok ((files prog ! f)\<lparr>file_cache := cache\<rparr>)" using assms(3) by (simp add: file_ok_def)
  then have "program_ok ?prog'"
    using assms(1) set_update_subset_insert [of "files prog" f] by (auto simp: program_ok_def)
  moreover have "object_ok ?prog' ty p" if "object_ok prog ty p" for ty p
    using that assms(2,4) by (cases p) (auto simp: nth_list_update)
  ultimately show ?thesis by (simp add: extends_def)
qed

lemma cache_GetDataRow_grows:
  "cache_GetDataRow f cache key = Inr (d, cache') \<Longrightarrow> value_live cache k i \<Longrightarrow> value_live cache' k i"
  by (auto simp: cache_GetDataRow_def value_live_def bind_res_Inr_conv Let_def split: option.splits if_splits)

lemma cache_GetData_grows:
  "cache_GetData f cache key field = Inr (v, cache') \<Longrightarrow> value_live cache k i \<Longrightarrow> value_live cache' k i"
  using cache_GetDataRow_grows [of f cache key] by (fastforce simp: cache_GetData_def bind_res_Inr_conv split: option.splits)

lemma cache_GetDataRow_cached:
  "cache_GetDataRow f cache key = Inr (Some d, cache') \<Longrightarrow> cache' key = Some d"
  by (cases "cache key"; cases "key2index f key")
    (auto simp: cache_GetDataRow_def bind_res_Inr_conv Let_def split: option.splits)

lemma cache_GetHSValue_row:
  assumes "cache_GetHSValue f cache key field = Inr (p, cache')"
    and "cache_GetDataRow f cache key = Inr (Some (row, vals), cache1)"
  shows "\<exists>v vals'. GetHSValue f row vals field = Inr (v, vals') \<and> cache' = cache1(key \<mapsto> (row, vals'))"
  using assms by (cases "GetHSValue f row vals field") (auto simp: cache_GetHSValue_def)

lemma cache_GetHSValue_grows:
  assumes "cache_GetHSValue f cache key field = Inr (p, cache')" "value_live cache k i"
  shows "value_live cache' k i"
proof -
  obtain d cache1 where d: "cache_GetDataRow f cache key = Inr (d, cache1)"
    using assms(1) by (auto simp: cache_GetHSValue_def bind_res_Inr_conv)
  have live: "value_live cache1 k i" using cache_GetDataRow_grows [OF d assms(2)] .
  show ?thesis
  proof (cases d)
    case None
    then show ?thesis using assms(1) d live by (simp add: cache_GetHSValue_def)
  next
    case (Some x)
    obtain row vals where x: "x = (row, vals)" by (cases x)
    note d1 = d [unfolded Some x]
    obtain v vals' where v: "GetHSValue f row vals field = Inr (v, vals')" "cache' = cache1(key \<mapsto> (row, vals'))"
      using cache_GetHSValue_row [OF assms(1) d1] by blast
    have "cache1 key = Some (row, vals)" by (rule cache_GetDataRow_cached [OF d1])
    moreover have "vals' = vals" if "vals \<noteq> []"
      using v(1) that by (auto simp: GetHSValue_def Let_def split: option.splits if_splits)
    ultimately show ?thesis using live v(2) by (cases "vals = []") (auto simp: value_live_def split: if_splits)
  qed
qed

section \<open>No call of a script faults\<close>

lemma GetHSValue_total:
  assumes "GetData f key field = Inr w" "GetFileRow f key = Inr (Some row)" "vals = [] \<or> map str_value vals = row"
  shows "\<exists>v. GetHSValue f row vals field = Inr v"
proof -
  let ?vals = "if vals = [] \<and> row \<noteq> [] then map HSValue_new row else vals"
  have len: "length ?vals = length row" using assms(3) by auto
  show ?thesis
  proof (cases "header2index f field")
    case (Some i)
    then have "\<exists>x. GetFieldByIndex row (of_nat i) = Inr x"
      using assms(1,2) by (simp add: GetData_def GetValue_def)
    then show ?thesis
      using Some len by (auto simp: GetHSValue_def GetFieldByIndex_def Let_def split: if_splits)
  qed (simp add: GetHSValue_def Let_def)
qed

lemma cache_GetHSValue_total:
  assumes "cache_ok (f, cache)" "GetData f key field = Inr w"
  shows "\<exists>r. cache_GetHSValue f cache key field = Inr r"
proof -
  obtain cache1 d where d: "cache_GetDataRow f cache key = bind_res (GetFileRow f key) (\<lambda>_. Inr (d, cache1))"
    "cache_ok (f, cache1)" "\<And>row. GetFileRow f key = Inr row \<Longrightarrow> map_option fst d = row"
    "\<And>x. d = Some x \<Longrightarrow> cache1 key = Some x"
    using cache_GetDataRow_ok [OF assms(1), of key] by blast
  obtain r where r: "GetFileRow f key = Inr r" using assms(2) by (auto simp: GetData_def bind_res_Inr_conv)
  show ?thesis
  proof (cases d)
    case None
    then show ?thesis using d r by (simp add: cache_GetHSValue_def)
  next
    case (Some x)
    obtain row vals where x: "x = (row, vals)" by (cases x)
    have "vals = [] \<or> map str_value vals = row"
      using cache_okD [OF d(2) d(4) [OF Some]] x by (simp add: row_object_ok_def)
    moreover have "GetFileRow f key = Inr (Some row)" using d(3) [OF r] r Some x by simp
    ultimately obtain v where "GetHSValue f row vals field = Inr v" using GetHSValue_total [OF assms(2)] by blast
    then show ?thesis using d r Some x by (cases v) (simp add: cache_GetHSValue_def)
  qed
qed

text \<open>The methods that the functions call, on pointers to objects that exist.\<close>

lemma call_value_safe:
  assumes "program_ok prog" "object_ok prog ''HSValue'' p" "\<And>v. str_value (snd (conv v)) = str_value v"
  shows "\<exists>a prog'. call_value conv p prog = Inr (a, prog') \<and> extends prog prog'"
proof -
  obtain f key i where p: "p = ValueAt f key i" "f < length (files prog)" "value_live (file_cache (files prog ! f)) key i"
    using assms(2) by (cases p) (auto elim: class_name.elims [OF sym])
  let ?cache = "file_cache (files prog ! f)"
  obtain row vals where v: "?cache key = Some (row, vals)" "i < length vals" using p(3) by (auto simp: value_live_def)
  let ?cache' = "?cache(key \<mapsto> (row, vals[i := snd (conv (vals ! i))]))"
  have at: "at_pointer conv ?cache (key, i) = Inr (fst (conv (vals ! i)), ?cache')"
    using v by (simp add: at_pointer_def split_beta)
  have "cache_ok (file_table (files prog ! f), ?cache)" using assms(1) p(2) by (simp add: program_ok_def file_ok_def)
  then have "cache_ok (file_table (files prog ! f), ?cache')" using at_pointer_ok [OF _ at assms(3)] by blast
  moreover have "value_live ?cache k j \<Longrightarrow> value_live ?cache' k j" for k j using v by (auto simp: value_live_def)
  ultimately show ?thesis using extends_cache [OF assms(1) p(2), of ?cache'] p at by (simp add: call_value_def)
qed

lemma conversions_keep_text:
  "str_value (snd (AsBool v)) = str_value v" "str_value (snd (AsChar v)) = str_value v"
  "str_value (snd (AsUchar v)) = str_value v" "str_value (snd (AsShort v)) = str_value v"
  "str_value (snd (AsUshort v)) = str_value v" "str_value (snd (AsInt v)) = str_value v"
  "str_value (snd (AsUint v)) = str_value v" "str_value (snd (AsFloat to_float atof v)) = str_value v"
  "str_value (snd (AsDouble atof v)) = str_value v" "str_value (snd (AsLong v)) = str_value v"
  "str_value (snd (AsUlong v)) = str_value v"
  by (simp_all add: AsBool_def AsChar_def AsUchar_def AsShort_def AsUshort_def AsInt_def AsUint_def AsFloat_def
    AsDouble_def AsLong_def AsUlong_def ToIntegelValue_def ToDoubleValue_def ToLongValue_def Let_def)

lemma call_GetData_safe:
  assumes "program_ok prog" "object_ok prog (class_name cls) p"
  shows "\<exists>v prog'. call_GetData cls p key field prog = Inr (v, prog') \<and> extends prog prog'"
proof -
  obtain f where p: "p = FileAt f" "f < length (files prog)" "file_class (files prog ! f) = cls"
    using assms(2) by (cases p; cases cls) (auto elim: class_name.elims [OF sym])
  let ?fo = "files prog ! f"
  have ok: "cache_ok (file_table ?fo, file_cache ?fo)" "\<And>field. \<exists>v. GetData (file_table ?fo) key field = Inr v"
    using assms(1) p(2) by (simp_all add: program_ok_def file_ok_def)
  have "\<exists>v cache. (case field of
      None \<Rightarrow> bind_res (cache_GetDataRow (file_table ?fo) (file_cache ?fo) key) (\<lambda>(d, cache). Inr (None, cache))
    | Some s \<Rightarrow> cache_GetData (file_table ?fo) (file_cache ?fo) key s) = Inr (v, cache) \<and>
    cache_ok (file_table ?fo, cache) \<and> (\<forall>k i. value_live (file_cache ?fo) k i \<longrightarrow> value_live cache k i)"
  proof (cases field)
    case None
    obtain cache d where "cache_GetDataRow (file_table ?fo) (file_cache ?fo) key =
        bind_res (GetFileRow (file_table ?fo) key) (\<lambda>_. Inr (d, cache))" "cache_ok (file_table ?fo, cache)"
      using cache_GetDataRow_ok [OF ok(1), of key] by blast
    moreover obtain r where "GetFileRow (file_table ?fo) key = Inr r"
      using ok(2) [of "[]"] by (auto simp: GetData_def bind_res_Inr_conv)
    ultimately show ?thesis using None cache_GetDataRow_grows [of "file_table ?fo" "file_cache ?fo" key d cache] by simp
  next
    case (Some s)
    obtain v where "GetData (file_table ?fo) key s = Inr v" using ok(2) by blast
    moreover obtain cache where "cache_GetData (file_table ?fo) (file_cache ?fo) key s =
        bind_res (GetData (file_table ?fo) key s) (\<lambda>v. Inr (v, cache))" "cache_ok (file_table ?fo, cache)"
      using cache_GetData_ok [OF ok(1), of key s] by blast
    ultimately show ?thesis
      using Some cache_GetData_grows [of "file_table ?fo" "file_cache ?fo" key s v cache] by simp
  qed
  then show ?thesis using extends_cache [OF assms(1) p(2)] p by (fastforce simp: call_GetData_def Let_def)
qed

lemma call_GetHSValue_safe:
  assumes "program_ok prog" "object_ok prog (class_name cls) p"
  shows "\<exists>v prog'. call_GetHSValue cls p key field prog = Inr (v, prog') \<and> extends prog prog' \<and>
    (\<forall>q. v = Some q \<longrightarrow> object_ok prog' ''HSValue'' q)"
proof -
  obtain f where p: "p = FileAt f" "f < length (files prog)" "file_class (files prog ! f) = cls"
    using assms(2) by (cases p; cases cls) (auto elim: class_name.elims [OF sym])
  let ?fo = "files prog ! f"
  have ok: "cache_ok (file_table ?fo, file_cache ?fo)" "\<And>field. \<exists>v. GetData (file_table ?fo) key field = Inr v"
    using assms(1) p(2) by (simp_all add: program_ok_def file_ok_def)
  have "\<exists>v cache. (case field of
      None \<Rightarrow> bind_res (cache_GetDataRow (file_table ?fo) (file_cache ?fo) key) (\<lambda>(d, cache). Inr (None, cache))
    | Some s \<Rightarrow> cache_GetHSValue (file_table ?fo) (file_cache ?fo) key s) = Inr (v, cache) \<and>
    cache_ok (file_table ?fo, cache) \<and> (\<forall>k i. value_live (file_cache ?fo) k i \<longrightarrow> value_live cache k i) \<and>
    (\<forall>q. v = Some q \<longrightarrow> value_live cache (fst q) (snd q))"
  proof (cases field)
    case None
    obtain cache d where "cache_GetDataRow (file_table ?fo) (file_cache ?fo) key =
        bind_res (GetFileRow (file_table ?fo) key) (\<lambda>_. Inr (d, cache))" "cache_ok (file_table ?fo, cache)"
      using cache_GetDataRow_ok [OF ok(1), of key] by blast
    moreover obtain r where "GetFileRow (file_table ?fo) key = Inr r"
      using ok(2) [of "[]"] by (auto simp: GetData_def bind_res_Inr_conv)
    ultimately show ?thesis using None cache_GetDataRow_grows [of "file_table ?fo" "file_cache ?fo" key d cache] by simp
  next
    case (Some s)
    obtain w where "GetData (file_table ?fo) key s = Inr w" using ok(2) by blast
    then obtain v cache where v: "cache_GetHSValue (file_table ?fo) (file_cache ?fo) key s = Inr (v, cache)"
      using cache_GetHSValue_total [OF ok(1)] by fast
    then show ?thesis
      using Some cache_GetHSValue_grows [OF v] cache_GetHSValue_ok [OF ok(1) v]
      by (simp add: value_live_def) fastforce
  qed
  then obtain v cache where v: "(case field of
      None \<Rightarrow> bind_res (cache_GetDataRow (file_table ?fo) (file_cache ?fo) key) (\<lambda>(d, cache). Inr (None, cache))
    | Some s \<Rightarrow> cache_GetHSValue (file_table ?fo) (file_cache ?fo) key s) = Inr (v, cache)"
    "cache_ok (file_table ?fo, cache)" "\<And>k i. value_live (file_cache ?fo) k i \<Longrightarrow> value_live cache k i"
    "\<And>q. v = Some q \<Longrightarrow> value_live cache (fst q) (snd q)" by blast
  then show ?thesis
    using extends_cache [OF assms(1) p(2) v(2,3)] p by (auto simp: call_GetHSValue_def Let_def)
qed

text \<open>The results that a call may have: an error of the script, or as many results on the stack as it says.
  The one fault is a number that the parameter type cannot represent.\<close>

fun result_ok :: "('L \<Rightarrow> lua_value list) \<Rightarrow> ('L \<Rightarrow> nat \<Rightarrow> (string \<times> object_ptr) option) \<Rightarrow> program \<Rightarrow> 'L \<Rightarrow> 'L binding_result \<Rightarrow> bool" where
  "result_ok stk obj prog L (Inl e) \<longleftrightarrow> e = SignedOverflow"
| "result_ok stk obj prog L (Inr (LuaError m)) \<longleftrightarrow> True"
| "result_ok stk obj prog L (Inr (Returned (n, L', prog'))) \<longleftrightarrow>
     extends prog prog' \<and> objects_ok prog' (obj L') \<and> (\<exists>vs. stk L' = stk L @ vs \<and> length vs = n)"

lemma value_function_ok:
  assumes doc: "tolua_documented api stk obj" and "program_ok prog" "objects_ok prog (obj L)"
    and conv: "\<And>v. str_value (snd (conv v)) = str_value v"
    and push: "\<And>a L. \<exists>v. stk (push a L) = stk L @ [v] \<and> obj (push a L) = obj L"
  shows "result_ok stk obj prog L (value_function name conv push api prog L)"
proof (cases "tolua_isusertype api L 1 ''HSValue'' \<and> tolua_isnoobj api L 2 \<and> tolua_tousertype api L 1 \<noteq> None")
  case True
  then obtain p where p: "tolua_tousertype api L 1 = Some p" by auto
  then have "object_ok prog ''HSValue'' p"
    using True tolua_documented_args(1) [OF doc, of L 1 "''HSValue''" p] assms(3) by (auto simp: objects_ok_def)
  then obtain a prog' where c: "call_value conv p prog = Inr (a, prog')" "extends prog prog'"
    using call_value_safe [OF assms(2) _ conv] by blast
  moreover obtain v where v: "stk (push a L) = stk L @ [v]" "obj (push a L) = obj L" using push by blast
  moreover have "objects_ok prog' (obj L)" using extends_objects [OF c(2) assms(3)] .
  ultimately show ?thesis using True p by (simp add: value_function_def)
qed (auto simp: value_function_def function_error_def self_error_def)

lemma is_key_to_key:
  "tolua_documented api stk obj \<Longrightarrow> is_key api cls L i \<Longrightarrow> to_key api cls L i = Inl e \<Longrightarrow> e = SignedOverflow"
  using tolua_documented_args(2) [of api stk obj L i]
  by (cases cls) (auto simp: number_to_int_def number_to_uint_def split: if_splits)

lemma push_key_ok:
  "tolua_documented api stk obj \<Longrightarrow> \<exists>v. stk (push_key api k L) = stk L @ [v] \<and> obj (push_key api k L) = obj L"
  by (cases k) (simp_all add: tolua_documented_push)

lemma file_function_ok:
  assumes doc: "tolua_documented api stk obj" and "program_ok prog" "objects_ok prog (obj L)"
    and meth: "\<And>p key field. object_ok prog (class_name cls) p \<Longrightarrow>
      \<exists>r prog'. meth p key field prog = Inr (r, prog') \<and> extends prog prog' \<and>
        (\<forall>L. objects_ok prog' (obj L) \<longrightarrow> objects_ok prog' (obj (push r L)) \<and> (\<exists>v. stk (push r L) = stk L @ [v]))"
  shows "result_ok stk obj prog L (file_function name cls meth push api prog L)"
proof (cases "tolua_isusertype api L 1 (class_name cls) \<and> is_key api cls L 2 \<and> tolua_isstring api L 3 \<and>
    tolua_isnoobj api L 4")
  case args: True
  show ?thesis
  proof (cases "to_key api cls L 2")
    case (Inl e)
    then show ?thesis using args is_key_to_key [OF doc _ Inl] by (simp add: file_function_def)
  next
    case (Inr key)
    show ?thesis
    proof (cases "tolua_tousertype api L 1")
      case None
      then show ?thesis using args Inr by (simp add: file_function_def self_error_def)
    next
      case (Some p)
      have "object_ok prog (class_name cls) p"
        using args Some tolua_documented_args(1) [OF doc, of L 1 "class_name cls" p] assms(3)
        by (auto simp: objects_ok_def)
      then obtain r prog' where m: "meth p key (tolua_tostring api L 3) prog = Inr (r, prog')" "extends prog prog'"
        "\<And>L. objects_ok prog' (obj L) \<Longrightarrow> objects_ok prog' (obj (push r L)) \<and> (\<exists>v. stk (push r L) = stk L @ [v])"
        using meth by blast
      obtain v where v: "objects_ok prog' (obj (push r L))" "stk (push r L) = stk L @ [v]"
        using m(3) [OF extends_objects [OF m(2) assms(3)]] by blast
      obtain w where "stk (push_key api key (push r L)) = stk (push r L) @ [w]"
        "obj (push_key api key (push r L)) = obj (push r L)" using push_key_ok [OF doc] by blast
      then show ?thesis using args Inr Some m(1,2) v by (simp add: file_function_def)
    qed
  qed
qed (auto simp: file_function_def function_error_def)

lemma extends_files: "program_ok prog \<Longrightarrow> files prog' = files prog \<Longrightarrow> extends prog prog'"
proof -
  assume a: "program_ok prog" "files prog' = files prog"
  have "object_ok prog ty p \<Longrightarrow> object_ok prog' ty p" for ty p using a(2) by (cases p) simp_all
  then show ?thesis using a by (simp add: extends_def program_ok_def)
qed

lemma sleep_ok:
  assumes "program_ok prog" "objects_ok prog (obj L)"
  shows "result_ok stk obj prog L (lua_Sleep api prog L)" "result_ok stk obj prog L (lua_MSleep api prog L)"
    "result_ok stk obj prog L (lua_USleep api prog L)"
proof -
  have ext: "extends prog (prog\<lparr>slept := ts\<rparr>)" for ts using extends_files [OF assms(1)] by simp
  then have "objects_ok (prog\<lparr>slept := ts\<rparr>) (obj L)" for ts using extends_objects assms(2) by blast
  note facts = ext this function_error_def number_to_int_def sys_Sleep_def
  show "result_ok stk obj prog L (lua_Sleep api prog L)" by (simp add: lua_Sleep_def facts)
  show "result_ok stk obj prog L (lua_MSleep api prog L)" by (simp add: lua_MSleep_def facts)
  show "result_ok stk obj prog L (lua_USleep api prog L)" by (simp add: lua_USleep_def facts)
qed

lemma GetCurrentDir_ok:
  assumes "tolua_documented api stk obj" "program_ok prog" "objects_ok prog (obj L)"
  shows "result_ok stk obj prog L (lua_GetCurrentDir path api prog L)"
proof -
  have ext: "extends prog (prog\<lparr>current_dir := d\<rparr>)" for d using extends_files [OF assms(2)] by simp
  then have "objects_ok (prog\<lparr>current_dir := d\<rparr>) (obj L)" for d using extends_objects assms(3) by blast
  then show ?thesis
    using ext tolua_documented_push [OF assms(1)]
    by (simp add: lua_GetCurrentDir_def Let_def function_error_def)
qed

lemma push_data_ok:
  "tolua_documented api stk obj \<Longrightarrow> objects_ok prog (obj L) \<Longrightarrow>
   objects_ok prog (obj (tolua_pushstring api s L)) \<and> (\<exists>v. stk (tolua_pushstring api s L) = stk L @ [v])"
  by (simp add: tolua_documented_push)

lemma push_pointer_ok:
  assumes "tolua_documented api stk obj" "\<And>q. p = Some q \<Longrightarrow> object_ok prog ty q" "objects_ok prog (obj L)"
  shows "objects_ok prog (obj (tolua_pushusertype api p ty L)) \<and> (\<exists>v. stk (tolua_pushusertype api p ty L) = stk L @ [v])"
proof (cases p)
  case None
  then show ?thesis using assms by (simp add: tolua_documented_push)
next
  case (Some q)
  obtain k where "stk (tolua_pushusertype api (Some q) ty L) = stk L @ [LObject k]"
    "obj (tolua_pushusertype api (Some q) ty L) = (obj L)(k \<mapsto> (ty, q))"
    using tolua_documented_push_object [OF assms(1)] by blast
  then show ?thesis using Some assms(2,3) by (auto simp: objects_ok_def)
qed

text \<open>Every function of the binding.\<close>

lemma run_binding_ok:
  assumes doc: "tolua_documented api stk obj" and ok: "program_ok prog" "objects_ok prog (obj L)"
  shows "result_ok stk obj prog L (run_binding env b api prog L)"
proof -
  note value_ok = value_function_ok [OF doc ok, OF conversions_keep_text(1)]
    value_function_ok [OF doc ok, OF conversions_keep_text(2)] value_function_ok [OF doc ok, OF conversions_keep_text(3)]
    value_function_ok [OF doc ok, OF conversions_keep_text(4)] value_function_ok [OF doc ok, OF conversions_keep_text(5)]
    value_function_ok [OF doc ok, OF conversions_keep_text(6)] value_function_ok [OF doc ok, OF conversions_keep_text(7)]
    value_function_ok [OF doc ok, OF conversions_keep_text(8)] value_function_ok [OF doc ok, OF conversions_keep_text(9)]
    value_function_ok [OF doc ok, OF conversions_keep_text(10)] value_function_ok [OF doc ok, OF conversions_keep_text(11)]
  have text_ok: "result_ok stk obj prog L (lua_AsCString api prog L)"
    unfolding lua_AsCString_def by (rule value_function_ok [OF doc ok]) (simp_all add: tolua_documented_push [OF doc])
  have data_ok: "result_ok stk obj prog L
      (file_function name cls (call_GetData cls) (tolua_pushstring api) api prog L)" for name cls
    using call_GetData_safe [OF ok(1)] push_data_ok [OF doc] by (intro file_function_ok [OF doc ok]) meson
  have pointer_ok: "result_ok stk obj prog L
      (file_function name cls (call_GetHSValue cls) (\<lambda>p. tolua_pushusertype api p ''HSValue'') api prog L)" for name cls
    using call_GetHSValue_safe [OF ok(1)] push_pointer_ok [OF doc] by (intro file_function_ok [OF doc ok]) meson
  show ?thesis
    by (cases b)
      (simp_all add: sleep_ok ok GetCurrentDir_ok [OF doc ok] text_ok data_ok pointer_ok value_ok tolua_documented_push [OF doc]
        lua_AsBool_def lua_AsChar_def lua_AsUchar_def lua_AsShort_def lua_AsUshort_def lua_AsInt_def lua_AsUint_def
        lua_AsFloat_def lua_AsDouble_def lua_AsLong_def lua_AsUlong_def lua_IntKey_GetData_def lua_UintKey_GetData_def
        lua_StringKey_GetData_def lua_IntKey_GetHSValue_def lua_UintKey_GetHSValue_def lua_StringKey_GetHSValue_def)
qed

section \<open>Scripts\<close>

text \<open>The steps of a program that runs a script: the interpreter computes, with new values on the stack but no
  new objects; the host hands a file to the script; a call returns. An error ends the script.\<close>

inductive script_step ::
  "lua_env \<Rightarrow> 'L tolua_api \<Rightarrow> ('L \<Rightarrow> nat \<Rightarrow> (string \<times> object_ptr) option) \<Rightarrow> program \<times> 'L \<Rightarrow> program \<times> 'L \<Rightarrow> bool"
  for env api obj where
  script_computes: "obj L' \<subseteq>\<^sub>m obj L \<Longrightarrow> script_step env api obj (prog, L) (prog, L')"
| host_pushes: "f < length (files prog) \<Longrightarrow>
    script_step env api obj (prog, L)
      (prog, tolua_pushusertype api (Some (FileAt f)) (class_name (file_class (files prog ! f))) L)"
| script_calls: "run_binding env b api prog L = Inr (Returned (n, L', prog')) \<Longrightarrow>
    script_step env api obj (prog, L) (prog', L')"

lemma script_step_ok:
  assumes doc: "tolua_documented api stk obj"
    and step: "script_step env api obj (prog, L) (prog', L')" and ok: "program_ok prog" "objects_ok prog (obj L)"
  shows "program_ok prog' \<and> objects_ok prog' (obj L')"
  using step
proof (cases rule: script_step.cases)
  case script_computes
  then show ?thesis using ok objects_ok_le by blast
next
  case (host_pushes f)
  then show ?thesis using ok push_pointer_ok [OF doc, of "Some (FileAt f)" prog] by simp
next
  case (script_calls b n)
  then show ?thesis using run_binding_ok [OF doc ok, of env b] by (simp add: extends_def)
qed

lemma script_run_ok:
  "(script_step env api obj)\<^sup>*\<^sup>* s s' \<Longrightarrow> tolua_documented api stk obj \<Longrightarrow> program_ok (fst s) \<Longrightarrow>
   objects_ok (fst s) (obj (snd s)) \<Longrightarrow> program_ok (fst s') \<and> objects_ok (fst s') (obj (snd s'))"
proof (induction rule: rtranclp_induct)
  case (step s' s'')
  then show ?case using script_step_ok [of api stk obj env "fst s'" "snd s'" "fst s''" "snd s''"] by simp
qed simp


section \<open>What a script reads\<close>

fun key_value :: "any_key \<Rightarrow> lua_value" where
  "key_value (IntKey k) = LNumber (of_int k)"
| "key_value (UintKey k) = LNumber (of_int (uint k))"
| "key_value (StringKey s) = LString s"

fun key_fits :: "any_key \<Rightarrow> bool" where
  "key_fits (IntKey k) \<longleftrightarrow> fits_int32 k"
| "key_fits (UintKey k) \<longleftrightarrow> True"
| "key_fits (StringKey s) \<longleftrightarrow> True"

fun GetData_binding :: "file_class \<Rightarrow> binding" where
  "GetData_binding IntKeyConfigFile = IntKey_GetData"
| "GetData_binding UintKeyConfigFile = UintKey_GetData"
| "GetData_binding StringKeyConfigFile = StringKey_GetData"

fun GetHSValue_binding :: "file_class \<Rightarrow> binding" where
  "GetHSValue_binding IntKeyConfigFile = IntKey_GetHSValue"
| "GetHSValue_binding UintKeyConfigFile = UintKey_GetHSValue"
| "GetHSValue_binding StringKeyConfigFile = StringKey_GetHSValue"

lemma run_GetData:
  "run_binding env (GetData_binding cls) api = file_function ''GetData'' cls (call_GetData cls) (tolua_pushstring api) api"
  by (cases cls) (simp_all add: lua_IntKey_GetData_def lua_UintKey_GetData_def lua_StringKey_GetData_def)

lemma run_GetHSValue:
  "run_binding env (GetHSValue_binding cls) api =
     file_function ''GetHSValue'' cls (call_GetHSValue cls) (\<lambda>p. tolua_pushusertype api p ''HSValue'') api"
  by (cases cls) (simp_all add: lua_IntKey_GetHSValue_def lua_UintKey_GetHSValue_def lua_StringKey_GetHSValue_def)

lemma number_to_int_int: "fits_int32 i \<Longrightarrow> number_to_int (of_int i) = Inr i"
  by (simp add: number_to_int_def truncate_real_def)

lemma number_to_uint_unsigned: "number_to_uint (unsigned (w :: u32)) = Inr w"
proof -
  have "number_to_uint (of_int i) = Inr (of_int i)" if "0 \<le> i" "i < 2 ^ 32" for i
    using that by (simp add: number_to_uint_def truncate_real_def)
  from this [of "uint w"] show ?thesis using uint_lt2p [of w] by simp
qed

lemma key_argument:
  assumes "tolua_documented api stk obj" "1 < length (stk L)" "stk L ! 1 = key_value (key_of_text cls s)"
    and "key_fits (key_of_text cls s)"
  shows "is_key api cls L 2 \<and> to_key api cls L 2 = Inr (key_of_text cls s)"
proof -
  have two: "1 + 1 = (2 :: nat)" by simp
  note num = tolua_documented_read(1) [OF assms(1,2), unfolded two] and str = tolua_documented_read(2) [OF assms(1,2), unfolded two]
  show ?thesis
  proof (cases cls)
    case IntKeyConfigFile
    then have "tolua_isnumber api L 2 \<and> tolua_tonumber api L 2 = of_int (key_int s)" using num assms(3) by simp
    then show ?thesis using IntKeyConfigFile assms(4) by (simp add: number_to_int_int)
  next
    case UintKeyConfigFile
    then have "tolua_isnumber api L 2 \<and> tolua_tonumber api L 2 = of_int (uint (key_uint s))" using num assms(3) by simp
    then show ?thesis using UintKeyConfigFile by (simp add: number_to_uint_unsigned)
  next
    case StringKeyConfigFile
    then show ?thesis using str assms(3) by simp
  qed
qed

lemma push_key_value:
  "tolua_documented api stk obj \<Longrightarrow> stk (push_key api key L) = stk L @ [key_value key] \<and> obj (push_key api key L) = obj L"
  by (cases key) (simp_all add: tolua_documented_push)

text \<open>A call with the arguments that the functions of a file expect.\<close>

lemma file_function_run:
  assumes doc: "tolua_documented api stk obj"
    and args: "stk L = [LObject k, key_value (key_of_text cls s), LString field]" "obj L k = Some (class_name cls, p)"
    and key: "key_fits (key_of_text cls s)"
    and meth: "meth p (key_of_text cls s) (Some field) prog = Inr (r, prog')"
  shows "file_function name cls meth push api prog L =
    Inr (Returned (2, push_key api (key_of_text cls s) (push r L), prog'))"
proof -
  have "tolua_isusertype api L 1 (class_name cls) \<and> tolua_tousertype api L 1 = Some p"
    using tolua_documented_read(3) [OF doc, of 0 L] args by simp
  moreover have "is_key api cls L 2 \<and> to_key api cls L 2 = Inr (key_of_text cls s)"
    using key_argument [OF doc _ _ key, of L] args by simp
  moreover have "tolua_isstring api L 3 \<and> tolua_tostring api L 3 = Some field"
    using tolua_documented_read(2) [OF doc, of 2 L field] args by (simp add: numeral_3_eq_3)
  moreover have "tolua_isnoobj api L 4" using tolua_documented_args(3) [OF doc, of L 4] args by simp
  ultimately show ?thesis using meth by (simp add: file_function_def)
qed

lemma value_function_run:
  assumes doc: "tolua_documented api stk obj" and args: "stk L = [LObject k]" "obj L k = Some (''HSValue'', p)"
    and "call_value conv p prog = Inr (r, prog')"
  shows "value_function name conv push api prog L = Inr (Returned (1, push r L, prog'))"
proof -
  have "tolua_isusertype api L 1 ''HSValue'' \<and> tolua_tousertype api L 1 = Some p"
    using tolua_documented_read(3) [OF doc, of 0 L] args by simp
  moreover have "tolua_isnoobj api L 2" using tolua_documented_args(3) [OF doc, of L 2] args by simp
  ultimately show ?thesis using assms(4) by (simp add: value_function_def)
qed

text \<open>The first lookups in a file.\<close>

lemma first_lookups:
  assumes "GetReaderRow (reader f) (of_nat i) = Inr (Some row)" "key2index f key = Some i"
    and "header2index f field = Some c" "c < length row" "length row < 2 ^ 32"
  shows "cache_GetData f Map.empty key field = Inr (Some (row ! c), [key \<mapsto> (row, [])])"
    "cache_GetHSValue f Map.empty key field = Inr (Some (key, c), [key \<mapsto> (row, map HSValue_new row)])"
  using assms GetFieldByIndex_in [OF assms(4,5)] GetHSValue_in [OF assms(3,4,5)]
  by (simp_all add: cache_GetData_def cache_GetHSValue_def cache_GetDataRow_def Let_def GetValue_def unat_of_nat_small)

lemma script_reads_field:
  assumes doc: "tolua_documented api stk obj"
    and row: "GetReaderRow (reader f) (of_nat i) = Inr (Some row)" "key2index f (key_of_text cls s) = Some i"
      "header2index f field = Some c" "c < length row" "length row < 2 ^ 32"
    and key: "key_fits (key_of_text cls s)"
    and prog: "p < length (files prog)" "files prog ! p = \<lparr>file_class = cls, file_table = f, file_cache = Map.empty\<rparr>"
    and L: "stk L = [LObject k, key_value (key_of_text cls s), LString field]" "obj L k = Some (class_name cls, FileAt p)"
  shows "\<exists>L' prog'. run_binding env (GetData_binding cls) api prog L = Inr (Returned (2, L', prog')) \<and>
      stk L' = stk L @ [LString (row ! c), key_value (key_of_text cls s)]"
    and "\<exists>L' prog' v. run_binding env (GetHSValue_binding cls) api prog L = Inr (Returned (2, L', prog')) \<and>
      stk L' = stk L @ [LObject v, key_value (key_of_text cls s)] \<and>
      (\<forall>L1. stk L1 = [LObject v] \<and> obj L1 v = obj L' v \<longrightarrow>
        (\<exists>L2 prog2. run_binding env HSValue_AsInt api prog' L1 = Inr (Returned (1, L2, prog2)) \<and>
          stk L2 = [LObject v, LNumber (of_int (atoi (row ! c)))]))"
proof -
  let ?key = "key_of_text cls s"
  let ?prog = "\<lambda>cache. prog\<lparr>files := (files prog)[p := \<lparr>file_class = cls, file_table = f, file_cache = cache\<rparr>]\<rparr>"
  note found = first_lookups [OF row]
  note run = file_function_run [OF doc L key]
  have "call_GetData cls (FileAt p) ?key (Some field) prog = Inr (Some (row ! c), ?prog [?key \<mapsto> (row, [])])"
    using found(1) prog by (simp add: call_GetData_def)
  from run [of "call_GetData cls", OF this]
  show "\<exists>L' prog'. run_binding env (GetData_binding cls) api prog L = Inr (Returned (2, L', prog')) \<and>
      stk L' = stk L @ [LString (row ! c), key_value ?key]"
    by (simp add: run_GetData push_key_value [OF doc] tolua_documented_push [OF doc])
  let ?prog' = "?prog [?key \<mapsto> (row, map HSValue_new row)]"
  let ?val = "ValueAt p ?key c"
  have "call_GetHSValue cls (FileAt p) ?key (Some field) prog = Inr (Some ?val, ?prog')"
    using found(2) prog by (simp add: call_GetHSValue_def)
  from run [of "call_GetHSValue cls", OF this]
  have ran: "run_binding env (GetHSValue_binding cls) api prog L =
      Inr (Returned (2, push_key api ?key (tolua_pushusertype api (Some ?val) ''HSValue'' L), ?prog'))"
    by (simp add: run_GetHSValue)
  obtain v where v: "stk (tolua_pushusertype api (Some ?val) ''HSValue'' L) = stk L @ [LObject v]"
    "obj (tolua_pushusertype api (Some ?val) ''HSValue'' L) = (obj L)(v \<mapsto> (''HSValue'', ?val))"
    using tolua_documented_push_object [OF doc] by blast
  have "\<exists>prog2. call_value AsInt ?val ?prog' = Inr (atoi (row ! c), prog2)"
    using prog row(4) by (simp add: call_value_def at_pointer_def AsInt_def ToIntegelValue_def HSValue_new_def Let_def)
  then obtain prog2 where int: "call_value AsInt ?val ?prog' = Inr (atoi (row ! c), prog2)" by blast
  have number: "\<exists>L2 prog2. run_binding env HSValue_AsInt api ?prog' L1 = Inr (Returned (1, L2, prog2)) \<and>
      stk L2 = [LObject v, LNumber (of_int (atoi (row ! c)))]"
    if L1: "stk L1 = [LObject v]" "obj L1 v = Some (''HSValue'', ?val)" for L1
  proof (intro exI conjI)
    show "run_binding env HSValue_AsInt api ?prog' L1 =
        Inr (Returned (1, tolua_pushnumber api (of_int (atoi (row ! c))) L1, prog2))"
      using value_function_run [OF doc L1 int] by (simp add: lua_AsInt_def)
  qed (simp add: tolua_documented_push [OF doc] L1)
  let ?L' = "push_key api ?key (tolua_pushusertype api (Some ?val) ''HSValue'' L)"
  have stk': "stk ?L' = stk L @ [LObject v, key_value ?key]" and obj': "obj ?L' v = Some (''HSValue'', ?val)"
    using v push_key_value [OF doc] by simp_all
  show "\<exists>L' prog' v. run_binding env (GetHSValue_binding cls) api prog L = Inr (Returned (2, L', prog')) \<and>
      stk L' = stk L @ [LObject v, key_value ?key] \<and>
      (\<forall>L1. stk L1 = [LObject v] \<and> obj L1 v = obj L' v \<longrightarrow>
        (\<exists>L2 prog2. run_binding env HSValue_AsInt api prog' L1 = Inr (Returned (1, L2, prog2)) \<and>
          stk L2 = [LObject v, LNumber (of_int (atoi (row ! c)))]))"
  proof (intro exI conjI)
    show "\<forall>L1. stk L1 = [LObject v] \<and> obj L1 v = obj ?L' v \<longrightarrow>
        (\<exists>L2 prog2. run_binding env HSValue_AsInt api ?prog' L1 = Inr (Returned (1, L2, prog2)) \<and>
          stk L2 = [LObject v, LNumber (of_int (atoi (row ! c)))])"
      unfolding obj' using number by blast
  qed (rule ran stk')+
qed


section \<open>After a reload\<close>

text \<open>The binding gives a script pointers into the rows of a file. \<open>Clear\<close> and \<open>Reload\<close> of the file free the rows, and
  the pointers that the script still has lead nowhere.\<close>

theorem reloaded_value_dangles:
  assumes "tolua_documented api stk obj" and "stk L = [LObject k]" and "obj L k = Some (''HSValue'', ValueAt p key i)"
    and "p < length (files prog)" and "(file_table (files prog ! p), file_cache (files prog ! p)) = cache_Clear s"
  shows "run_binding env HSValue_AsInt api prog L = Inl WildDeref"
proof -
  have "file_cache (files prog ! p) = Map.empty" using assms(5) by (simp add: cache_Clear_def)
  then have "call_value AsInt (ValueAt p key i) prog = Inl WildDeref" using assms(4) by (simp add: call_value_def at_pointer_def)
  moreover have "tolua_isusertype api L 1 ''HSValue'' \<and> tolua_tousertype api L 1 = Some (ValueAt p key i)"
    using tolua_documented_read(3) [OF assms(1), of 0 L] assms(2,3) by simp
  moreover have "tolua_isnoobj api L 2" using tolua_documented_args(3) [OF assms(1), of L 2] assms(2) by simp
  ultimately show ?thesis by (simp add: lua_AsInt_def value_function_def)
qed

section \<open>Witnesses\<close>

text \<open>An interpreter that is a stack and a table of objects.\<close>

type_synonym ex_state = "lua_value list \<times> (nat \<Rightarrow> (string \<times> object_ptr) option)"

definition ex_arg :: "ex_state \<Rightarrow> nat \<Rightarrow> lua_value" where
  "ex_arg L i = (if 0 < i \<and> i \<le> length (fst L) then fst L ! (i - 1) else LNil)"

definition ex_object :: "ex_state \<Rightarrow> nat \<Rightarrow> (string \<times> object_ptr) option" where
  "ex_object L i = (case ex_arg L i of LObject k \<Rightarrow> snd L k | _ \<Rightarrow> None)"

definition ex_push :: "lua_value \<Rightarrow> ex_state \<Rightarrow> ex_state" where
  "ex_push v L = (fst L @ [v], snd L)"

definition ex_tolua :: "ex_state tolua_api" where
  "ex_tolua = \<lparr>
     tolua_isusertable = (\<lambda>L i ty. False),
     tolua_isusertype = (\<lambda>L i ty. map_option fst (ex_object L i) = Some ty),
     tolua_isnumber = (\<lambda>L i. (\<exists>x. ex_arg L i = LNumber x)),
     tolua_isstring = (\<lambda>L i. (\<exists>x. ex_arg L i = LString x)),
     tolua_iscppstring = (\<lambda>L i. (\<exists>x. ex_arg L i = LString x)),
     tolua_isnoobj = (\<lambda>L i. length (fst L) < i),
     tolua_tonumber = (\<lambda>L i. case ex_arg L i of LNumber x \<Rightarrow> x | _ \<Rightarrow> 0),
     tolua_tostring = (\<lambda>L i. case ex_arg L i of LString s \<Rightarrow> Some s | _ \<Rightarrow> None),
     tolua_tousertype = (\<lambda>L i. map_option snd (ex_object L i)),
     tolua_pushnumber = (\<lambda>x. ex_push (LNumber x)),
     tolua_pushboolean = (\<lambda>b. ex_push (LBoolean b)),
     tolua_pushstring = (\<lambda>s. ex_push (case s of None \<Rightarrow> LNil | Some s \<Rightarrow> LString s)),
     tolua_pushusertype = (\<lambda>p ty L.
       case p of None \<Rightarrow> ex_push LNil L
       | Some q \<Rightarrow> (fst L @ [LObject (length (fst L))], (snd L)(length (fst L) \<mapsto> (ty, q))))\<rparr>"

lemma ex_tolua_documented: "tolua_documented ex_tolua fst snd"
proof -
  have object: "\<exists>k. snd L k = Some (ty, q)"
    if "map_option fst (ex_object L i) = Some ty" "map_option snd (ex_object L i) = Some q" for L i ty q
    using that by (cases "ex_object L i") (auto simp: ex_object_def split: lua_value.splits)
  have arg: "ex_arg L (Suc i) = fst L ! i" if "i < length (fst L)" for L i using that by (simp add: ex_arg_def)
  show ?thesis
    unfolding tolua_documented_def
  proof (intro conjI allI impI)
    show "\<exists>k. snd L k = Some (ty, q)"
      if "tolua_isusertype ex_tolua L i ty \<and> tolua_tousertype ex_tolua L i = Some q" for L i ty q
      using object [of L i ty q] that by (simp add: ex_tolua_def)
    show "tolua_tostring ex_tolua L i \<noteq> None" if "tolua_isstring ex_tolua L i \<or> tolua_iscppstring ex_tolua L i" for L i
      using that by (cases "ex_arg L i") (simp_all add: ex_tolua_def)
  qed (simp_all add: ex_tolua_def ex_push_def arg ex_object_def del: split_paired_All split_paired_Ex)
qed

definition ex_table :: "any_key config_file" where
  "ex_table = \<lparr>reader = \<lparr>header_rows = 1, key_row_index = 0, delimiters = '','', header_row = [''id'', ''hp''],
      data_rows = [[''7'', ''50'']]\<rparr>, key_field = ''id'',
    header2index = [''id'' \<mapsto> 0, ''hp'' \<mapsto> 1], key2index = [IntKey 7 \<mapsto> 0]\<rparr>"

definition ex_program :: program where
  "ex_program = \<lparr>files = [\<lparr>file_class = IntKeyConfigFile, file_table = ex_table, file_cache = Map.empty\<rparr>],
    current_dir = [], slept = []\<rparr>"

definition ex_env :: lua_env where
  "ex_env = \<lparr>module_file = [], env_to_float = (\<lambda>x. x), env_atof = (\<lambda>s. 0)\<rparr>"

lemma ex_program_ok: "program_ok ex_program"
proof -
  have "\<exists>v. GetData ex_table key field = Inr v" for key field
    by (auto simp: ex_table_def GetData_def GetFileRow_def GetReaderRow_def GetValue_def GetFieldByIndex_def)
  then show ?thesis by (simp add: program_ok_def file_ok_def ex_program_def cache_ok_def)
qed



theorem reloaded_value_dangles_witness:
  "run_binding ex_env HSValue_AsInt ex_tolua
     (ex_program\<lparr>files := [\<lparr>file_class = IntKeyConfigFile, file_table = file_Clear ex_table, file_cache = Map.empty\<rparr>]\<rparr>)
     ([LObject 0], [0 \<mapsto> (''HSValue'', ValueAt 0 (IntKey 7) 1)]) = Inl WildDeref"
  by (rule reloaded_value_dangles [OF ex_tolua_documented, of _ 0 0 "IntKey 7" 1 _ "(ex_table, Map.empty)"])
    (simp_all add: cache_Clear_def)

end
